(* ===== verification/Prelude.thy ===== *)
theory Prelude
  imports Main "HOL-Library.Word" "HOL-Library.Monad_Syntax"
begin

text \<open>
  Shared material of the development: the machine integer types of the client, the generic
  lemmas on lists, sums and words that several components use, and the interface of a
  deterministic machine with an invariant (locale \<open>machine\<close>), which every component with
  a handler per event interprets.
\<close>

unbundle bit_operations_syntax

type_synonym u64 = "64 word"   \<comment> \<open>\<open>uint64\<close>: counters, hashes, byte counts\<close>
type_synonym i64 = "64 word"   \<comment> \<open>\<open>int64\<close>: declared state values, read with \<open>sint\<close>\<close>
type_synonym addr = "64 word"  \<comment> \<open>\<open>app_pc\<close>: an address of the application\<close>

text \<open>Results of handlers: \<open>None\<close> is a call of \<open>dr_abort\<close> (or a fault), after which
  nothing of the client runs any more.\<close>

named_theorems field_simps_intro "facts about the fields a component operation leaves alone"

subsection \<open>Lists updated in place\<close>

definition upd_nth :: "nat \<Rightarrow> ('a \<Rightarrow> 'a) \<Rightarrow> 'a list \<Rightarrow> 'a list" where
  "upd_nth i f xs = xs[i := f (xs ! i)]"

lemma length_upd_nth [simp]: "length (upd_nth i f xs) = length xs"
  by (simp add: upd_nth_def)

lemma nth_upd_nth: "j < length xs \<Longrightarrow> upd_nth i f xs ! j = (if i = j then f (xs ! j) else xs ! j)"
  by (simp add: upd_nth_def)

lemma nth_upd_nth_eq [simp]: "i < length xs \<Longrightarrow> upd_nth i f xs ! i = f (xs ! i)"
  by (simp add: nth_upd_nth)

lemma nth_upd_nth_neq [simp]: "i \<noteq> j \<Longrightarrow> upd_nth i f xs ! j = xs ! j"
  by (simp add: upd_nth_def)

lemma upd_nth_twice [simp]:
  "upd_nth i f (upd_nth i g xs) = upd_nth i (f \<circ> g) xs"
  by (cases "i < length xs") (simp_all add: upd_nth_def list_update_beyond)

lemma map_upd_nth_same:
  "(\<And>x. g (f x) = g x) \<Longrightarrow> map g (upd_nth i f xs) = map g xs"
  by (rule nth_equalityI) (auto simp: nth_upd_nth)

lemma sum_fun_upd_add:
  fixes f :: "'a \<Rightarrow> 'b::ab_group_add"
  assumes "finite S" and "x \<in> S"
  shows "(\<Sum>y\<in>S. (f(x := f x + d)) y) = (\<Sum>y\<in>S. f y) + d"
proof -
  have "(\<Sum>y\<in>S. (f(x := f x + d)) y) = (\<Sum>y\<in>S. f y + (if y = x then d else 0))"
    by (rule sum.cong) auto
  also have "\<dots> = (\<Sum>y\<in>S. f y) + d"
    using assms by (simp add: sum.distrib)
  finally show ?thesis .
qed

lemma sum_list_update_group:
  fixes xs :: "'a::ab_group_add list"
  shows "i < length xs \<Longrightarrow> sum_list (xs[i := x]) = sum_list xs + (x - xs ! i)"
  by (induction xs arbitrary: i) (auto split: nat.split simp: algebra_simps)

subsection \<open>Words\<close>

text \<open>The FNV prime is odd, so multiplying by it can be undone; this is its inverse.\<close>

lemma fnv_prime_inverse: "(1099511628211 :: u64) * 14886173955864302971 = 1"
  by simp

lemma fnv_mult_cancel:
  fixes x y :: u64
  shows "x * 1099511628211 = y * 1099511628211 \<longleftrightarrow> x = y"
proof
  assume "x * 1099511628211 = y * 1099511628211"
  then have "x * (1099511628211 * 14886173955864302971) = y * (1099511628211 * 14886173955864302971)"
    by (simp only: mult.assoc [symmetric])
  then show "x = y" by (simp only: fnv_prime_inverse mult_1_right)
qed simp

lemma xor_cancel_left:
  fixes x y z :: "'a::len word"
  shows "z XOR x = z XOR y \<longleftrightarrow> x = y"
proof
  assume "z XOR x = z XOR y"
  then have "(z XOR z) XOR x = (z XOR z) XOR y" by (simp only: xor.assoc)
  then show "x = y" by simp
qed simp

text \<open>Unsigned arithmetic that does not wrap.\<close>

lemma max_minus_one: "(x::u64) \<noteq> 0 \<Longrightarrow> x - 1 < x"
  unfolding word_less_nat_alt by (metis One_nat_def diff_less gr0I unat_eq_zero unat_minus_one zero_less_one)

lemma unat_small: "m < 2 ^ 64 \<Longrightarrow> unat (of_nat m :: u64) = m"
  by (simp add: unat_of_nat)

lemma unat_plus_one: "(x::u64) < y \<Longrightarrow> unat (x + 1) = unat x + 1"
proof -
  assume "x < y"
  then have "unat x + 1 \<le> unat y" by (simp add: word_less_nat_alt)
  then have "unat x + 1 < 2 ^ 64" using unsigned_less [of y, where ?'a = nat] by simp
  then show ?thesis by (simp add: unat_word_ariths)
qed

subsection \<open>Deterministic machines\<close>

text \<open>A run of handlers stops at the first one that does not return.\<close>

fun run :: "('s \<Rightarrow> 'e \<Rightarrow> 's option) \<Rightarrow> 's \<Rightarrow> 'e list \<Rightarrow> 's option" where
  "run step s [] = Some s"
| "run step s (e # es) = Option.bind (step s e) (\<lambda>s'. run step s' es)"

lemma run_append:
  "run step s (es @ fs) = Option.bind (run step s es) (\<lambda>s'. run step s' fs)"
  by (induction es arbitrary: s) (auto split: Option.bind_splits)

locale machine =
  fixes step :: "'s \<Rightarrow> 'e \<Rightarrow> 's option"
    and ok :: "'e \<Rightarrow> bool"
    and inv :: "'s \<Rightarrow> bool"
  assumes step_inv: "inv s \<Longrightarrow> ok e \<Longrightarrow> step s e = Some s' \<Longrightarrow> inv s'"
begin

lemma run_inv: "inv s \<Longrightarrow> list_all ok es \<Longrightarrow> run step s es = Some s' \<Longrightarrow> inv s'"
proof (induction es arbitrary: s)
  case Nil
  then show ?case by simp
next
  case (Cons e es)
  from Cons.prems(3) obtain s1 where s1: "step s e = Some s1" "run step s1 es = Some s'"
    by (auto split: Option.bind_splits)
  have "inv s1" using Cons.prems(1,2) s1(1) by (auto intro: step_inv)
  then show ?case using Cons.IH Cons.prems(2) s1(2) by simp
qed

end

end
