(* ===== verification/CString.thy ===== *)
theory CString
  imports Prelude
begin

text \<open>
  C strings as the client handles them. A C string is the list of its characters before the
  terminating NUL; a pointer that may be NULL is an \<open>option\<close>. The theory holds the bounded copy
  \<open>safe_strcpy\<close>, the decimal conversions of \<open>printf\<close> that the client uses, and the
  FNV step over a string.
\<close>

abbreviation NUL :: char where "NUL \<equiv> CHR 0x00"
abbreviation SOH :: char where "SOH \<equiv> CHR 0x01"

definition nul_free :: "string \<Rightarrow> bool" where
  "nul_free s \<longleftrightarrow> NUL \<notin> set s"

subsection \<open>\<open>safe_strcpy\<close>\<close>

text \<open>The copy loop: \<open>i\<close> is the position, \<open>cap\<close> the size of the destination. It stops at
  the NUL or when only the place for the terminator is left.\<close>

fun strcpy_loop :: "nat \<Rightarrow> nat \<Rightarrow> string \<Rightarrow> string" where
  "strcpy_loop i cap [] = []"
| "strcpy_loop i cap (c # src) =
     (if i + 1 < cap \<and> c \<noteq> NUL then c # strcpy_loop (i + 1) cap src else [])"

definition safe_strcpy :: "string option \<Rightarrow> nat \<Rightarrow> string" where
  "safe_strcpy src cap = strcpy_loop 0 cap (case src of None \<Rightarrow> [] | Some s \<Rightarrow> s)"

lemma strcpy_loop_take: "nul_free s \<Longrightarrow> strcpy_loop i cap s = take (cap - 1 - i) s"
proof (induction i cap s rule: strcpy_loop.induct)
  case (2 i cap c src)
  show ?case
  proof (cases "i + 1 < cap")
    case True
    then have "cap - 1 - i = Suc (cap - 1 - (i + 1))" by simp
    moreover have "c \<noteq> NUL" "nul_free src" using "2.prems" by (auto simp: nul_free_def)
    ultimately show ?thesis using "2.IH" True by simp
  next
    case False
    then show ?thesis by simp
  qed
qed simp

lemma safe_strcpy_Some: "nul_free s \<Longrightarrow> safe_strcpy (Some s) cap = take (cap - 1) s"
  by (simp add: safe_strcpy_def strcpy_loop_take)

lemma safe_strcpy_NULL [simp]: "safe_strcpy None cap = []"
  by (simp add: safe_strcpy_def)

lemma length_strcpy_loop: "length (strcpy_loop i cap s) \<le> cap - 1 - i"
  by (induction i cap s rule: strcpy_loop.induct) auto

lemma length_safe_strcpy: "0 < cap \<Longrightarrow> length (safe_strcpy src cap) < cap"
  using length_strcpy_loop [of 0 cap "case src of None \<Rightarrow> [] | Some s \<Rightarrow> s"]
  by (simp add: safe_strcpy_def)

lemma nul_free_strcpy_loop: "nul_free (strcpy_loop i cap s)"
  by (induction i cap s rule: strcpy_loop.induct) (auto simp: nul_free_def)

lemma nul_free_safe_strcpy [simp]: "nul_free (safe_strcpy src cap)"
  by (simp add: safe_strcpy_def nul_free_strcpy_loop)

lemma safe_strcpy_short: "nul_free s \<Longrightarrow> length s < cap \<Longrightarrow> safe_strcpy (Some s) cap = s"
  by (simp add: safe_strcpy_Some)

lemma safe_strcpy_long:
  "nul_free s \<Longrightarrow> 0 < cap \<Longrightarrow> cap \<le> length s \<Longrightarrow> safe_strcpy (Some s) cap \<noteq> s"
  by (metis length_safe_strcpy not_le)

subsection \<open>Decimal conversions (\<open>%llu\<close>, \<open>%lld\<close>)\<close>

definition digit :: "nat \<Rightarrow> char" where
  "digit d = char_of (48 + d)"

fun show_nat :: "nat \<Rightarrow> string" where
  "show_nat n = (if n < 10 then [digit n] else show_nat (n div 10) @ [digit (n mod 10)])"

declare show_nat.simps [simp del]

definition show_int :: "int \<Rightarrow> string" where
  "show_int v = (if v < 0 then CHR ''-'' # show_nat (nat (- v)) else show_nat (nat v))"

text \<open>Reading a decimal back, to show that the conversions lose nothing.\<close>

definition digit_val :: "char \<Rightarrow> nat" where
  "digit_val c = of_char c - 48"

definition read_nat :: "string \<Rightarrow> nat" where
  "read_nat s = foldl (\<lambda>n c. 10 * n + digit_val c) 0 s"

definition read_int :: "string \<Rightarrow> int" where
  "read_int s = (case s of [] \<Rightarrow> 0
     | c # r \<Rightarrow> if c = CHR ''-'' then - int (read_nat r) else int (read_nat s))"

lemma of_char_digit: "d < 10 \<Longrightarrow> of_char (digit d) = (48 + d :: nat)"
  by (simp add: digit_def)

lemma digit_val_digit [simp]: "d < 10 \<Longrightarrow> digit_val (digit d) = d"
  by (simp add: digit_val_def of_char_digit)

lemma digit_neq: "d < 10 \<Longrightarrow> of_char c < (48::nat) \<or> 57 < (of_char c :: nat) \<Longrightarrow> digit d \<noteq> c"
  by (auto simp: of_char_digit)

lemma show_nat_nonempty [simp]: "show_nat n \<noteq> []"
  by (subst show_nat.simps) simp

lemma set_show_nat: "c \<in> set (show_nat n) \<Longrightarrow> \<exists>d < 10. c = digit d"
proof (induction n rule: show_nat.induct)
  case (1 n)
  from "1.prems" have "c \<in> set (if n < 10 then [digit n] else show_nat (n div 10) @ [digit (n mod 10)])"
    by (simp only: show_nat.simps [of n])
  moreover have "n mod 10 < 10" by simp
  ultimately show ?case using "1.IH"
    by (cases "n < 10") (auto simp del: mod_less_divisor)
qed

lemma read_show_nat: "read_nat (show_nat n) = n"
proof (induction n rule: show_nat.induct)
  case (1 n)
  then show ?case
    by (cases "n < 10") (simp_all add: show_nat.simps [of n] read_nat_def)
qed

lemma hd_show_nat: "show_nat n = c # cs \<Longrightarrow> c \<noteq> CHR ''-''"
  using set_show_nat [of c n] by (auto simp: digit_neq)

lemma read_show_int: "read_int (show_int v) = v"
proof (cases "v < 0")
  case True
  then show ?thesis by (simp add: read_int_def show_int_def read_show_nat)
next
  case False
  obtain c cs where c: "show_nat (nat v) = c # cs" by (cases "show_nat (nat v)") auto
  then have "c \<noteq> CHR ''-''" by (rule hd_show_nat)
  moreover have "read_nat (c # cs) = nat v" using c read_show_nat [of "nat v"] by simp
  ultimately show ?thesis using False c by (simp add: read_int_def show_int_def)
qed

lemma show_int_inject [simp]: "show_int v = show_int w \<longleftrightarrow> v = w"
  by (metis read_show_int)

lemma length_show_nat: "n < 10 ^ Suc k \<Longrightarrow> length (show_nat n) \<le> Suc k"
proof (induction k arbitrary: n)
  case 0
  then show ?case by (simp add: show_nat.simps [of n])
next
  case (Suc k)
  have "n div 10 < 10 ^ Suc k" using Suc.prems by (simp add: less_mult_imp_div_less mult.commute)
  then show ?case using Suc.IH [of "n div 10"] by (simp add: show_nat.simps [of n])
qed

lemma length_show_int64: "length (show_int (sint (v :: i64))) \<le> 20"
proof -
  have lo: "- (2 ^ 63) \<le> sint v" and hi: "sint v < 2 ^ 63"
    using sint_ge [of v] sint_lt [of v] by simp_all
  have "length (show_nat (nat (- sint v))) \<le> Suc 18"
    by (rule length_show_nat) (use lo in \<open>simp add: nat_less_iff\<close>)
  moreover have "length (show_nat (nat (sint v))) \<le> Suc 18"
    by (rule length_show_nat) (use hi in \<open>simp add: nat_less_iff\<close>)
  ultimately show ?thesis by (simp add: show_int_def)
qed

lemma set_show_int: "c \<in> set (show_int v) \<Longrightarrow> c = CHR ''-'' \<or> (\<exists>d < 10. c = digit d)"
  by (auto simp: show_int_def set_show_nat split: if_splits)

lemma not_in_show_int:
  "of_char c < (48::nat) \<or> 57 < (of_char c :: nat) \<Longrightarrow> c \<noteq> CHR ''-'' \<Longrightarrow> c \<notin> set (show_int v)"
  using set_show_int digit_neq by blast

lemma show_int_plain:
  "SOH \<notin> set (show_int v)" "NUL \<notin> set (show_int v)" "CHR ''='' \<notin> set (show_int v)"
  by (simp_all add: not_in_show_int)

subsection \<open>The FNV-1a step over a string\<close>

definition fnv_str :: "u64 \<Rightarrow> string \<Rightarrow> u64" where
  "fnv_str hv s = foldl (\<lambda>h c. (h XOR of_char c) * 1099511628211) hv s"

lemma fnv_str_append: "fnv_str hv (s @ t) = fnv_str (fnv_str hv s) t"
  by (simp add: fnv_str_def)

lemma fnv_str_inject: "fnv_str h s = fnv_str h' s \<longleftrightarrow> h = h'"
  by (induction s arbitrary: h h')
    (simp_all add: fnv_str_def fnv_mult_cancel xor_cancel_left xor.commute [where b = "of_char _"])

end
