(* ===== verification/DynamoRIO.thy ===== *)
theory DynamoRIO
  imports CString
begin

text \<open>
  The services of DynamoRIO and its extensions that the client calls. Their code is not part of
  the repository, so they are a parameter of the model: a record \<open>dr_api\<close> that every operation
  using one of them takes as its first argument. What the client relies on is stated as the
  predicates \<open>ht_laws\<close>, \<open>pt_laws\<close> and \<open>snprintf_laws\<close>, which restate the documentation of
  those calls and occur as named hypotheses. \<open>assoc_api\<close> is one concrete instance, used to show
  that the hypotheses can hold.

  Locks and atomic additions (\<open>dr_mutex_lock\<close>, \<open>dr_atomic_add64_return_sum\<close>) do not
  occur: a handler is one step of the model, and the interleavings that matter are modelled as
  sequences of smaller steps where a theory says so.
\<close>

text \<open>
  \<^item> \<open>ht_new\<close>, \<open>ht_lookup\<close>, \<open>ht_add\<close>: a \<open>HASH_STRING\<close> table that copies its keys
    (\<open>str_dup\<close>); the payload is a table index.
  \<^item> \<open>pt_new\<close>, \<open>pt_lookup\<close>, \<open>pt_add\<close>: a \<open>HASH_INTPTR\<close> table keyed by addresses.
  \<^item> \<open>snprintf A size txt\<close>: what \<open>dr_snprintf\<close> leaves in a buffer of that size when the
    formatted text is \<open>txt\<close>, and the value it returns.
  \<^item> \<open>raw_alloc A n\<close>: does the \<open>n\<close>-th request for a counter array succeed;
    \<open>thread_alloc\<close> and \<open>stats_alloc\<close>: the requests of the \<open>n\<close>-th thread's structure
    and of its statistics array; \<open>global_alloc\<close>: the requests of \<open>dr_global_alloc\<close> for the
    \<open>n\<close>-th key.
  \<^item> \<open>asserts\<close>: is \<open>DR_ASSERT_MSG\<close> compiled in.
\<close>

record ('h, 'p) dr_api =
  ht_new :: 'h
  ht_lookup :: "'h \<Rightarrow> string \<Rightarrow> nat option"
  ht_add :: "'h \<Rightarrow> string \<Rightarrow> nat \<Rightarrow> 'h"
  pt_new :: 'p
  pt_lookup :: "'p \<Rightarrow> addr \<Rightarrow> nat option"
  pt_add :: "'p \<Rightarrow> addr \<Rightarrow> nat \<Rightarrow> 'p"
  snprintf :: "nat \<Rightarrow> string \<Rightarrow> string \<times> int"
  raw_alloc :: "nat \<Rightarrow> bool"
  thread_alloc :: "nat \<Rightarrow> bool"
  stats_alloc :: "nat \<Rightarrow> bool"
  global_alloc :: "nat \<Rightarrow> bool"
  asserts :: bool

subsection \<open>What the client relies on\<close>

text \<open>\<open>hashtable_add\<close> refuses a key that is already there and leaves the table as it is.\<close>

definition ht_laws :: "('h, 'p) dr_api \<Rightarrow> bool" where
  "ht_laws A \<longleftrightarrow> (\<forall>k. ht_lookup A (ht_new A) k = None) \<and>
     (\<forall>h k v j. ht_lookup A (ht_add A h k v) j =
        (if j = k \<and> ht_lookup A h k = None then Some v else ht_lookup A h j))"

definition pt_laws :: "('h, 'p) dr_api \<Rightarrow> bool" where
  "pt_laws A \<longleftrightarrow> (\<forall>k. pt_lookup A (pt_new A) k = None) \<and>
     (\<forall>h k v j. pt_lookup A (pt_add A h k v) j =
        (if j = k \<and> pt_lookup A h k = None then Some v else pt_lookup A h j))"

text \<open>\<open>dr_snprintf\<close> returns the length of a text that fits; of one that does not it writes
  what there is room for, with no terminator, and returns -1.\<close>

definition snprintf_laws :: "('h, 'p) dr_api \<Rightarrow> bool" where
  "snprintf_laws A \<longleftrightarrow>
     (\<forall>size txt. length txt < size \<longrightarrow> snprintf A size txt = (txt, int (length txt))) \<and>
     (\<forall>size txt. size < length txt \<longrightarrow> snprintf A size txt = (take size txt, -1))"

lemma ht_lookup_new: "ht_laws A \<Longrightarrow> ht_lookup A (ht_new A) k = None"
  by (simp add: ht_laws_def)

lemma ht_lookup_add:
  "ht_laws A \<Longrightarrow> ht_lookup A (ht_add A h k v) j =
     (if j = k \<and> ht_lookup A h k = None then Some v else ht_lookup A h j)"
  by (simp add: ht_laws_def)

lemma pt_lookup_new: "pt_laws A \<Longrightarrow> pt_lookup A (pt_new A) k = None"
  by (simp add: pt_laws_def)

lemma pt_lookup_add:
  "pt_laws A \<Longrightarrow> pt_lookup A (pt_add A h k v) j =
     (if j = k \<and> pt_lookup A h k = None then Some v else pt_lookup A h j)"
  by (simp add: pt_laws_def)

lemma snprintf_fits: "snprintf_laws A \<Longrightarrow> length txt < sz \<Longrightarrow> snprintf A sz txt = (txt, int (length txt))"
  by (simp add: snprintf_laws_def)

lemma snprintf_truncates: "snprintf_laws A \<Longrightarrow> sz < length txt \<Longrightarrow> snprintf A sz txt = (take sz txt, -1)"
  by (simp add: snprintf_laws_def)

subsection \<open>A concrete instance\<close>

definition assoc_add :: "('k \<times> nat) list \<Rightarrow> 'k \<Rightarrow> nat \<Rightarrow> ('k \<times> nat) list" where
  "assoc_add h k v = (if map_of h k = None then (k, v) # h else h)"

definition assoc_api :: "((string \<times> nat) list, (addr \<times> nat) list) dr_api" where
  "assoc_api = \<lparr>
     ht_new = [], ht_lookup = map_of, ht_add = assoc_add,
     pt_new = [], pt_lookup = map_of, pt_add = assoc_add,
     snprintf = (\<lambda>size txt. if length txt \<le> size then (txt, int (length txt)) else (take size txt, -1)),
     raw_alloc = (\<lambda>_. True), thread_alloc = (\<lambda>_. True), stats_alloc = (\<lambda>_. True), global_alloc = (\<lambda>_. True),
     asserts = True\<rparr>"

lemma assoc_simps:
  "ht_new assoc_api = []" "ht_lookup assoc_api = map_of" "ht_add assoc_api = assoc_add"
  "pt_new assoc_api = []" "pt_lookup assoc_api = map_of" "pt_add assoc_api = assoc_add"
  "raw_alloc assoc_api n" "thread_alloc assoc_api n" "stats_alloc assoc_api n" "global_alloc assoc_api n"
  by (simp_all add: assoc_api_def)

lemma assoc_api_laws [simp]:
  "ht_laws assoc_api" "pt_laws assoc_api" "snprintf_laws assoc_api"
  by (simp_all add: ht_laws_def pt_laws_def snprintf_laws_def assoc_api_def assoc_add_def)

end
