(* ===== verification/Counters.thy ===== *)
theory Counters
  imports DynamoRIO
begin

text \<open>
  Counter memory of \<open>client/drperf.c\<close>: the per-block counter arrays that the inlined code
  writes, one per key and thread slot, allocated lazily by \<open>slots_for\<close> under a byte budget.
  Pointers \<open>uint64 *\<close> to an array are the datatype \<open>carr\<close>; the field \<open>tslots\<close> of every
  \<open>rkey_t\<close> is kept here as one map from key index and thread index, and the arrays
  themselves are a heap from array number to contents.
\<close>

definition MAX_THREADS :: nat where "MAX_THREADS = 4096"
definition COUNTER_BUDGET :: u64 where "COUNTER_BUDGET = push_bit 30 96"

record options =
  opt_out :: string
  opt_top :: int
  opt_max_slots :: u64
  opt_trace :: int
  opt_rep_expand :: bool
  opt_symbols :: bool
  opt_verbose :: bool
  opt_block_counters :: bool
  opt_blocks :: bool

text \<open>A \<open>uint64 *\<close> into counter memory: \<open>dummy_slots\<close> or an array of some key.\<close>

datatype carr = Dummy | Arr nat

record mem = options +
  counter_bytes :: u64
  counter_denied :: int
  nallocs :: nat                                  \<comment> \<open>requests for counter arrays so far\<close>
  tslots :: "nat \<Rightarrow> nat \<Rightarrow> nat option"           \<comment> \<open>\<open>keys[k]->tslots[i]\<close>, \<open>None\<close> for NULL\<close>
  narrays :: nat                                  \<comment> \<open>arrays handed out\<close>
  arrays :: "nat \<Rightarrow> nat \<Rightarrow> u64"                  \<comment> \<open>their contents\<close>
  dummy :: "nat \<Rightarrow> u64"                          \<comment> \<open>\<open>dummy_slots\<close>\<close>

subsection \<open>\<open>slots_for\<close>\<close>

text \<open>The part under \<open>keys_lock\<close>, entered after the unlocked read found NULL: it reads the
  pointer again, since another thread may have allocated the array in between.\<close>

definition slots_for_locked ::
  "('h, 'p) dr_api \<Rightarrow> nat \<Rightarrow> nat \<Rightarrow> 'z mem_scheme \<Rightarrow> carr \<times> 'z mem_scheme" where
  "slots_for_locked A k i m = (case tslots m k i of
     Some a \<Rightarrow> (Arr a, m)
   | None \<Rightarrow>
      (let bytes = opt_max_slots m * 8 in
       if COUNTER_BUDGET < counter_bytes m + bytes
       then (Dummy, m\<lparr>counter_denied := counter_denied m + 1\<rparr>)
       else if \<not> raw_alloc A (nallocs m)
       then (Dummy, m\<lparr>nallocs := nallocs m + 1, counter_denied := counter_denied m + 1\<rparr>)
       else (Arr (narrays m),
         m\<lparr>nallocs := nallocs m + 1,
           counter_bytes := counter_bytes m + bytes,
           tslots := (tslots m)(k := (tslots m k)(i \<mapsto> narrays m)),
           arrays := (arrays m)(narrays m := (\<lambda>_. 0)),
           narrays := narrays m + 1\<rparr>)))"

definition slots_for ::
  "('h, 'p) dr_api \<Rightarrow> nat option \<Rightarrow> nat \<Rightarrow> 'z mem_scheme \<Rightarrow> carr \<times> 'z mem_scheme" where
  "slots_for A ko i m = (case ko of
     None \<Rightarrow> (Dummy, m)
   | Some k \<Rightarrow> (case tslots m k i of
       Some a \<Rightarrow> (Arr a, m)
     | None \<Rightarrow> slots_for_locked A k i m))"

subsection \<open>The inlined addition\<close>

definition bump :: "carr \<Rightarrow> nat \<Rightarrow> u64 \<Rightarrow> 'z mem_scheme \<Rightarrow> 'z mem_scheme" where
  "bump c slot n m = (case c of
     Dummy \<Rightarrow> m\<lparr>dummy := (dummy m)(slot := dummy m slot + n)\<rparr>
   | Arr a \<Rightarrow> m\<lparr>arrays := (arrays m)(a := (arrays m a)(slot := arrays m a slot + n))\<rparr>)"

text \<open>What \<open>write_key\<close> adds up for one block: the slot's count over all thread arrays of a key.\<close>

definition key_count :: "'z mem_scheme \<Rightarrow> nat \<Rightarrow> nat \<Rightarrow> u64" where
  "key_count m k slot =
     (\<Sum>i<MAX_THREADS. case tslots m k i of None \<Rightarrow> 0 | Some a \<Rightarrow> arrays m a slot)"

text \<open>All counts of all arrays, \<open>dummy_slots\<close> included.\<close>

definition all_counts :: "'z mem_scheme \<Rightarrow> u64" where
  "all_counts m = (\<Sum>s<unat (opt_max_slots m). dummy m s + (\<Sum>a<narrays m. arrays m a s))"


subsection \<open>The allocation invariant\<close>

text \<open>\<open>parse_options\<close> keeps \<open>opt_max_slots\<close> between 1024 and \<open>INT_MAX\<close>. The bytes
  handed out never exceed the budget, every array belongs to one key and one thread index, and
  the pointers are those of arrays that exist.\<close>

definition opts_ok :: "'z options_scheme \<Rightarrow> bool" where
  "opts_ok m \<longleftrightarrow> 1024 \<le> unat (opt_max_slots m) \<and> unat (opt_max_slots m) < 2 ^ 31"

definition mem_inv :: "'z mem_scheme \<Rightarrow> bool" where
  "mem_inv m \<longleftrightarrow> opts_ok m \<and>
     unat (counter_bytes m) = narrays m * (unat (opt_max_slots m) * 8) \<and>
     counter_bytes m \<le> COUNTER_BUDGET \<and>
     (\<forall>k i a. tslots m k i = Some a \<longrightarrow> a < narrays m) \<and>
     (\<forall>k i k' i' a. tslots m k i = Some a \<longrightarrow> tslots m k' i' = Some a \<longrightarrow> k = k' \<and> i = i')"

lemma mem_inv_opts: "mem_inv m \<Longrightarrow> opts_ok m"
  by (simp add: mem_inv_def)

lemma mem_inv_bound: "mem_inv m \<Longrightarrow> tslots m k i = Some a \<Longrightarrow> a < narrays m"
  by (simp add: mem_inv_def)

lemma mem_inv_private:
  "mem_inv m \<Longrightarrow> tslots m k i = Some a \<Longrightarrow> tslots m k' i' = Some a \<Longrightarrow> k = k' \<and> i = i'"
  by (simp add: mem_inv_def)

lemma mem_inv_budget: "mem_inv m \<Longrightarrow> counter_bytes m \<le> COUNTER_BUDGET"
  by (simp add: mem_inv_def)

lemma unat_budget: "unat COUNTER_BUDGET = 96 * 2 ^ 30"
  by (simp add: COUNTER_BUDGET_def push_bit_eq_mult)

lemma unat_array_bytes: "opts_ok m \<Longrightarrow> unat (opt_max_slots m * 8) = unat (opt_max_slots m) * 8"
  by (simp add: opts_ok_def unat_word_ariths)

text \<open>The sum that is compared with the budget does not wrap around.\<close>

lemma unat_bytes_sum:
  assumes "mem_inv m"
  shows "unat (counter_bytes m + opt_max_slots m * 8) =
    unat (counter_bytes m) + unat (opt_max_slots m) * 8"
proof -
  have "unat (counter_bytes m) \<le> 96 * 2 ^ 30"
    using mem_inv_budget [OF assms] by (simp add: word_le_nat_alt unat_budget)
  moreover have "unat (opt_max_slots m) * 8 < 2 ^ 34"
    using mem_inv_opts [OF assms] by (simp add: opts_ok_def)
  ultimately show ?thesis
    by (simp add: unat_word_ariths unat_array_bytes [OF mem_inv_opts [OF assms]])
qed

lemma slots_for_cases:
  obtains (null) "ko = None" "slots_for A ko i m = (Dummy, m)"
  | (known) k a where "ko = Some k" "tslots m k i = Some a" "slots_for A ko i m = (Arr a, m)"
  | (over) k where "ko = Some k" "tslots m k i = None"
      "slots_for A ko i m = (Dummy, m\<lparr>counter_denied := counter_denied m + 1\<rparr>)"
  | (nomem) k where "ko = Some k" "tslots m k i = None"
      "slots_for A ko i m =
         (Dummy, m\<lparr>nallocs := nallocs m + 1, counter_denied := counter_denied m + 1\<rparr>)"
  | (fresh) k where "ko = Some k" "tslots m k i = None" "raw_alloc A (nallocs m)"
      "counter_bytes m + opt_max_slots m * 8 \<le> COUNTER_BUDGET"
      "slots_for A ko i m = (Arr (narrays m),
         m\<lparr>nallocs := nallocs m + 1,
           counter_bytes := counter_bytes m + opt_max_slots m * 8,
           tslots := (tslots m)(k := (tslots m k)(i \<mapsto> narrays m)),
           arrays := (arrays m)(narrays m := (\<lambda>_. 0)),
           narrays := narrays m + 1\<rparr>)"
proof (cases ko)
  case None
  then show ?thesis using null by (simp add: slots_for_def)
next
  case k: (Some k)
  show ?thesis
  proof (cases "tslots m k i")
    case (Some a)
    then show ?thesis using k known by (simp add: slots_for_def)
  next
    case None
    show ?thesis
    proof (cases "COUNTER_BUDGET < counter_bytes m + opt_max_slots m * 8")
      case True
      show ?thesis by (rule over [OF k None]) (simp add: slots_for_def slots_for_locked_def k None True)
    next
      case False
      show ?thesis
      proof (cases "raw_alloc A (nallocs m)")
        case True
        from False have "counter_bytes m + opt_max_slots m * 8 \<le> COUNTER_BUDGET" by (simp add: not_less)
        then show ?thesis
          by (rule fresh [OF k None True])
            (simp add: slots_for_def slots_for_locked_def k None True False Let_def)
      next
        case noalloc: False
        show ?thesis
          by (rule nomem [OF k None])
            (simp add: slots_for_def slots_for_locked_def k None False noalloc)
      qed
    qed
  qed
qed

lemma slots_for_inv:
  assumes "mem_inv m"
  shows "mem_inv (snd (slots_for A ko i m))"
  using assms
proof (cases rule: slots_for_cases [of ko A i m])
  case (over k)
  with assms show ?thesis by (simp add: mem_inv_def opts_ok_def)
next
  case (nomem k)
  with assms show ?thesis by (simp add: mem_inv_def opts_ok_def)
next
  case (fresh k)
  have "unat (counter_bytes m + opt_max_slots m * 8) = (narrays m + 1) * (unat (opt_max_slots m) * 8)"
    using assms by (simp add: unat_bytes_sum [OF assms]) (simp add: mem_inv_def)
  moreover have "a < narrays m + 1 \<and> a \<noteq> narrays m" if "tslots m k' i' = Some a" for k' i' a
    using mem_inv_bound [OF assms that] by simp
  ultimately show ?thesis
    using assms fresh(4) mem_inv_bound [OF assms] mem_inv_private [OF assms]
    by (auto simp: fresh(5) mem_inv_def opts_ok_def less_Suc_eq)
qed simp_all

lemma slots_for_Arr: "slots_for A ko i m = (Arr a, m') \<Longrightarrow> \<exists>k. ko = Some k \<and> tslots m' k i = Some a"
  by (cases rule: slots_for_cases [of ko A i m]) auto

lemma slots_for_keeps: "tslots m k i = Some a \<Longrightarrow> tslots (snd (slots_for A ko j m)) k i = Some a"
  by (cases rule: slots_for_cases [of ko A j m]) auto

lemma slots_for_denied:
  "slots_for A (Some k) i m = (Dummy, m') \<Longrightarrow> counter_denied m' = counter_denied m + 1"
  by (cases rule: slots_for_cases [of "Some k" A i m]) auto

lemma slots_for_denied_mono: "counter_denied m \<le> counter_denied (snd (slots_for A ko i m))"
  by (cases rule: slots_for_cases [of ko A i m]) auto

text \<open>Asking again gives the same array: the pointer is stable once it is set.\<close>

lemma slots_for_again:
  "slots_for A ko i m = (Arr a, m') \<Longrightarrow> slots_for B ko i m' = (Arr a, m')"
  by (cases rule: slots_for_cases [of ko A i m]) (auto simp: slots_for_def)

subsection \<open>Counts\<close>

lemma key_count_slots_for:
  assumes "mem_inv m"
  shows "key_count (snd (slots_for A ko i m)) k s = key_count m k s"
proof (cases rule: slots_for_cases [of ko A i m])
  case (fresh k')
  have "arrays (snd (slots_for A ko i m)) a s = arrays m a s" if "tslots m k j = Some a" for j a
    using mem_inv_bound [OF assms that] by (simp add: fresh(5))
  then show ?thesis
    unfolding key_count_def
    by (intro sum.cong) (auto simp: fresh(2,5) split: option.splits)
qed (simp_all add: key_count_def cong: option.case_cong)

lemma tslots_bump [simp]: "tslots (bump c s n m) = tslots m"
  and narrays_bump [simp]: "narrays (bump c s n m) = narrays m"
  and counter_bytes_bump [simp]: "counter_bytes (bump c s n m) = counter_bytes m"
  and counter_denied_bump [simp]: "counter_denied (bump c s n m) = counter_denied m"
  and opt_max_slots_bump [simp]: "opt_max_slots (bump c s n m) = opt_max_slots m"
  by (simp_all add: bump_def split: carr.split)

lemma bump_inv [simp]: "mem_inv (bump c s n m) = mem_inv m"
  by (simp add: mem_inv_def opts_ok_def)

lemma arrays_bump:
  "arrays (bump c s n m) a s' = arrays m a s' + (if c = Arr a \<and> s' = s then n else 0)"
  by (auto simp: bump_def split: carr.split)

lemma dummy_bump: "dummy (bump c s n m) s' = dummy m s' + (if c = Dummy \<and> s' = s then n else 0)"
  by (auto simp: bump_def split: carr.split)

lemma key_count_bump_Dummy [simp]: "key_count (bump Dummy s n m) k s' = key_count m k s'"
  by (simp add: key_count_def arrays_bump cong: option.case_cong)

lemma key_count_bump:
  assumes "mem_inv m" and "tslots m k i = Some a" and "i < MAX_THREADS"
  shows "key_count (bump (Arr a) s n m) k' s' =
    key_count m k' s' + (if k' = k \<and> s' = s then n else 0)"
proof -
  have "(case tslots m k' j of None \<Rightarrow> 0 | Some b \<Rightarrow> arrays (bump (Arr a) s n m) b s') =
      (case tslots m k' j of None \<Rightarrow> 0 | Some b \<Rightarrow> arrays m b s') +
      (if j = i then (if k' = k \<and> s' = s then n else 0) else 0)" for j
  proof (cases "tslots m k' j")
    case None
    then show ?thesis using assms(2) by auto
  next
    case (Some b)
    then have "b = a \<longleftrightarrow> k' = k \<and> j = i"
      using assms(2) mem_inv_private [OF assms(1) Some, of k i] by auto
    with Some show ?thesis by (cases "b = a") (auto simp: arrays_bump)
  qed
  then show ?thesis
    using assms(3) by (simp add: key_count_def sum.distrib)
qed

lemma all_counts_slots_for:
  "all_counts (snd (slots_for A ko i m)) = all_counts m"
proof (cases rule: slots_for_cases [of ko A i m])
  case (fresh k)
  have "(\<Sum>a<narrays m + 1. ((arrays m)(narrays m := (\<lambda>_. 0))) a s) = (\<Sum>a<narrays m. arrays m a s)" for s
    by simp
  then show ?thesis by (simp add: fresh(5) all_counts_def)
qed (simp_all add: all_counts_def)

lemma all_counts_bump:
  assumes "s < unat (opt_max_slots m)" and "\<And>a. c = Arr a \<Longrightarrow> a < narrays m"
  shows "all_counts (bump c s n m) = all_counts m + n"
proof (cases c)
  case Dummy
  then show ?thesis
    using assms(1) by (simp add: all_counts_def arrays_bump dummy_bump sum.distrib)
next
  case (Arr a)
  then have "a < narrays m" using assms(2) by simp
  then have "(\<Sum>b<narrays m. arrays (bump c s n m) b s') =
      (\<Sum>b<narrays m. arrays m b s') + (if s' = s then n else 0)" for s'
    using Arr by (simp add: arrays_bump sum.distrib)
  then show ?thesis
    using assms(1) Arr by (simp add: all_counts_def dummy_bump sum.distrib)
qed

end
