(* ===== verification/Keys.thy ===== *)
theory Keys
  imports Counters
begin

text \<open>
  Region keys of \<open>client/drperf.c\<close>: the record \<open>rkey_t\<close>, the per-region budget
  \<open>region_key_budget\<close>, the content hash and the comparison of the fast path
  (\<open>key_matches\<close>, \<open>remember_key\<close>), the text under which a key is stored, and \<open>get_key\<close>,
  which turns a marker's region, declared states and root into a key index. A \<open>rkey_t *\<close> is the
  index of the key in the list \<open>keys\<close>, which the code also stores as its field \<open>index\<close>.
\<close>

definition RNAME_MAX :: nat where "RNAME_MAX = 160"
definition STATE_NAME_MAX :: nat where "STATE_NAME_MAX = 64"
definition KEY_STATES :: nat where "KEY_STATES = 4"
definition KEYS_PER_REGION :: nat where "KEYS_PER_REGION = 128"
definition MAX_KEYS :: nat where "MAX_KEYS = 65536"
definition NREGION_KEYS :: nat where "NREGION_KEYS = 64"
definition KBUF :: nat where "KBUF = 2 * RNAME_MAX + KEY_STATES * (STATE_NAME_MAX + 24) + 32"

lemmas key_limits = RNAME_MAX_def STATE_NAME_MAX_def KEY_STATES_def NREGION_KEYS_def KBUF_def

type_synonym states = "(string \<times> i64) list"  \<comment> \<open>\<open>nk\<close>, \<open>names\<close> and \<open>vals\<close> of a marker\<close>

record rkey =
  region :: string
  state_name :: string
  state_value :: i64
  overflow :: bool
  nkstates :: nat
  kname :: "string list"
  kval :: "i64 list"
  parent :: string
  root :: string
  k_index :: nat

record 'h keyst = mem +
  keys :: "rkey list"
  key_table :: 'h
  region_keys :: "(string \<times> nat) list"

text \<open>The caches of a thread: the exact table and the content-keyed array of 512 entries.\<close>

record 'h caches =
  key_cache :: 'h
  fast :: "nat \<Rightarrow> u64 \<times> nat option"

subsection \<open>The budget of a region\<close>

text \<open>The search loop: \<open>None\<close> when no entry carries the name.\<close>

fun budget_loop :: "(string \<times> nat) list \<Rightarrow> string \<Rightarrow> (bool \<times> (string \<times> nat) list) option" where
  "budget_loop [] r = None"
| "budget_loop ((r', n) # rest) r =
     (if r' = r
      then (if KEYS_PER_REGION \<le> n then Some (False, (r', n) # rest)
            else Some (True, (r', n + 1) # rest))
      else map_option (\<lambda>(ok, rest'). (ok, (r', n) # rest')) (budget_loop rest r))"

definition region_key_budget :: "(string \<times> nat) list \<Rightarrow> string \<Rightarrow> bool \<times> (string \<times> nat) list" where
  "region_key_budget rk r = (case budget_loop rk r of
     Some res \<Rightarrow> res
   | None \<Rightarrow> (True,
       if length rk < NREGION_KEYS then rk @ [(safe_strcpy (Some r) RNAME_MAX, 1)] else rk))"

subsection \<open>The fast path\<close>

definition hash_state :: "u64 \<Rightarrow> string \<times> i64 \<Rightarrow> u64" where
  "hash_state hv s = (fnv_str hv (fst s) XOR snd s) * 1099511628211"

definition key_hash :: "string \<Rightarrow> string \<Rightarrow> states \<Rightarrow> u64" where
  "key_hash r rt sts =
     foldl hash_state (fnv_str (fnv_str 1469598103934665603 r) rt) (take KEY_STATES sts)"

definition fast_index :: "u64 \<Rightarrow> nat" where
  "fast_index hv = unat (hv AND 511)"

text \<open>The number of states a key records: one state with an empty name stands for none.\<close>

definition want_states :: "states \<Rightarrow> nat" where
  "want_states sts = (if length sts = 1 \<and> fst (sts ! 0) = [] then 0 else length sts)"

definition key_matches :: "rkey \<Rightarrow> string \<Rightarrow> states \<Rightarrow> string \<Rightarrow> bool" where
  "key_matches k r sts rt =
     (if overflow k \<or> nkstates k \<noteq> want_states sts \<or> region k \<noteq> r \<or> root k \<noteq> rt then False
      else list_all (\<lambda>i. kval k ! i = snd (sts ! i) \<and> kname k ! i = fst (sts ! i))
             [0..<min (want_states sts) KEY_STATES])"

definition remember_key :: "nat \<Rightarrow> u64 \<Rightarrow> nat \<Rightarrow> ('h, 'z) caches_scheme \<Rightarrow> ('h, 'z) caches_scheme" where
  "remember_key h hv i t = t\<lparr>fast := (fast t)(h := (hv, Some i))\<rparr>"

definition fast_hit :: "rkey list \<Rightarrow> ('h, 'z) caches_scheme \<Rightarrow> string \<Rightarrow> states \<Rightarrow> string \<Rightarrow> nat option" where
  "fast_hit ks t r sts rt =
     (let hv = key_hash r rt sts in
      case fast t (fast_index hv) of
        (hv', Some i) \<Rightarrow> if hv' = hv \<and> key_matches (ks ! i) r sts rt then Some i else None
      | (hv', None) \<Rightarrow> None)"

subsection \<open>The text of a key\<close>

text \<open>One \<open>dr_snprintf\<close> into the rest of \<open>kbuf\<close>, with the update of \<open>pos\<close>.\<close>

definition kbuf_put :: "('h, 'p) dr_api \<Rightarrow> string \<times> nat \<Rightarrow> string \<Rightarrow> string \<times> nat" where
  "kbuf_put A bp txt =
     (let (out, w) = snprintf A (KBUF - snd bp) txt in
      (take (snd bp) (fst bp) @ out, if w < 0 then KBUF - 1 else snd bp + nat w))"

definition state_text :: "string \<times> i64 \<Rightarrow> string" where
  "state_text s = SOH # safe_strcpy (Some (fst s)) STATE_NAME_MAX @ ''='' @ show_int (sint (snd s))"

fun kbuf_states :: "('h, 'p) dr_api \<Rightarrow> states \<Rightarrow> string \<times> nat \<Rightarrow> string \<times> nat" where
  "kbuf_states A [] bp = bp"
| "kbuf_states A (s # sts) bp =
     (if snd bp < KBUF - 1 then kbuf_states A sts (kbuf_put A bp (state_text s)) else bp)"

definition kbuf_of :: "('h, 'p) dr_api \<Rightarrow> string \<Rightarrow> states \<Rightarrow> string \<Rightarrow> string" where
  "kbuf_of A r sts rt =
     (let bp = kbuf_states A sts (kbuf_put A ([], 0) r);
          bp' = (if snd bp < KBUF - 1 then kbuf_put A bp (SOH # rt) else bp)
      in take (KBUF - 1) (fst bp'))"

definition other_kbuf :: "('h, 'p) dr_api \<Rightarrow> string \<Rightarrow> string" where
  "other_kbuf A r = take (KBUF - 1) (fst (snprintf A KBUF (r @ SOH # ''<other>'')))"

subsection \<open>\<open>get_key\<close>\<close>

text \<open>The new \<open>rkey_t\<close>: the strings are cut to the sizes of its arrays.\<close>

definition make_key :: "string \<Rightarrow> states \<Rightarrow> bool \<Rightarrow> string \<Rightarrow> string \<Rightarrow> nat \<Rightarrow> rkey" where
  "make_key r sts over par rt idx = \<lparr>
     region = safe_strcpy (Some r) RNAME_MAX,
     state_name = safe_strcpy (Some (case sts of [] \<Rightarrow> [] | s # _ \<Rightarrow> fst s)) RNAME_MAX,
     state_value = (case sts of [] \<Rightarrow> 0 | s # _ \<Rightarrow> snd s),
     overflow = over,
     nkstates = want_states sts,
     kname = map (\<lambda>s. safe_strcpy (Some (fst s)) STATE_NAME_MAX) (take KEY_STATES sts),
     kval = map snd (take KEY_STATES sts),
     parent = safe_strcpy (Some par) RNAME_MAX,
     root = safe_strcpy (Some rt) RNAME_MAX,
     k_index = idx\<rparr>"

text \<open>Entering it: the assertion on the number of keys and the allocation of its pointer array
  end the process when they fail.\<close>

definition add_key :: "('h, 'p) dr_api \<Rightarrow> string \<Rightarrow> rkey \<Rightarrow> ('h, 'z) keyst_scheme
    \<Rightarrow> (nat \<times> ('h, 'z) keyst_scheme) option" where
  "add_key A txt k s =
     (let idx = length (keys s) in
      if asserts A \<and> \<not> idx < MAX_KEYS then None
      else if \<not> global_alloc A idx then None
      else Some (idx, s\<lparr>keys := keys s @ [k], key_table := ht_add A (key_table s) txt idx\<rparr>))"

text \<open>The section under \<open>keys_lock\<close>: the key, the text it is cached under, the new state.\<close>

definition intern_key :: "('h, 'p) dr_api \<Rightarrow> string \<Rightarrow> string \<Rightarrow> states \<Rightarrow> string \<Rightarrow> string
    \<Rightarrow> ('h, 'z) keyst_scheme \<Rightarrow> (nat \<times> string \<times> ('h, 'z) keyst_scheme) option" where
  "intern_key A txt r sts par rt s = (case ht_lookup A (key_table s) txt of
     Some i \<Rightarrow> Some (i, txt, s)
   | None \<Rightarrow>
      (let (ok, rk) = (if COUNTER_BUDGET < counter_bytes s + opt_max_slots s * 8
                       then (False, region_keys s)
                       else region_key_budget (region_keys s) r);
           s1 = s\<lparr>region_keys := rk\<rparr>
       in if ok
          then map_option (\<lambda>(i, s2). (i, txt, s2))
                 (add_key A txt (make_key r sts False par rt (length (keys s))) s1)
          else
            (let otxt = other_kbuf A r in
             case ht_lookup A (key_table s1) otxt of
               Some i \<Rightarrow> Some (i, otxt, s1)
             | None \<Rightarrow> map_option (\<lambda>(i, s2). (i, otxt, s2))
                 (add_key A otxt (make_key r [] True par rt (length (keys s))) s1))))"

definition get_key_slow :: "('h, 'p) dr_api \<Rightarrow> string \<Rightarrow> states \<Rightarrow> string \<Rightarrow> string
    \<Rightarrow> ('h, 'y) caches_scheme \<Rightarrow> ('h, 'z) keyst_scheme
    \<Rightarrow> (nat \<times> ('h, 'y) caches_scheme \<times> ('h, 'z) keyst_scheme) option" where
  "get_key_slow A r sts par rt t s =
     (let hv = key_hash r rt sts; h = fast_index hv; txt = kbuf_of A r sts rt in
      case ht_lookup A (key_cache t) txt of
        Some i \<Rightarrow> Some (i, remember_key h hv i t, s)
      | None \<Rightarrow> map_option (\<lambda>(i, txt', s').
            (i, remember_key h hv i (t\<lparr>key_cache := ht_add A (key_cache t) txt' i\<rparr>), s'))
          (intern_key A txt r sts par rt s))"

definition get_key :: "('h, 'p) dr_api \<Rightarrow> string \<Rightarrow> states \<Rightarrow> string \<Rightarrow> string
    \<Rightarrow> ('h, 'y) caches_scheme \<Rightarrow> ('h, 'z) keyst_scheme
    \<Rightarrow> (nat \<times> ('h, 'y) caches_scheme \<times> ('h, 'z) keyst_scheme) option" where
  "get_key A r sts par rt t s = (case fast_hit (keys s) t r sts rt of
     Some i \<Rightarrow> Some (i, t, s)
   | None \<Rightarrow> get_key_slow A r sts par rt t s)"

end
