(* ===== verification/KeyText.thy ===== *)
theory KeyText
  imports Keys
begin

text \<open>
  The text under which a key is stored: that it fits the buffer, and that it determines the
  region, the declared states and the root, for names without the separator character. And the
  content hash of the fast path: with region and root fixed it separates the values of an unnamed
  state.
\<close>

text \<open>The calls the theorems are about: names that fit the client's arrays, at least one and at
  most four states (a marker with none passes one unnamed state).\<close>

definition fits :: "nat \<Rightarrow> string \<Rightarrow> bool" where
  "fits cap s \<longleftrightarrow> nul_free s \<and> length s < cap"

definition short_call :: "string \<Rightarrow> states \<Rightarrow> string \<Rightarrow> bool" where
  "short_call r sts rt \<longleftrightarrow> fits RNAME_MAX r \<and> fits RNAME_MAX rt \<and>
     1 \<le> length sts \<and> length sts \<le> KEY_STATES \<and> list_all (\<lambda>s. fits STATE_NAME_MAX (fst s)) sts"

definition sep_free :: "string \<Rightarrow> bool" where
  "sep_free s \<longleftrightarrow> SOH \<notin> set s"

definition clean_call :: "string \<Rightarrow> states \<Rightarrow> string \<Rightarrow> bool" where
  "clean_call r sts rt \<longleftrightarrow> short_call r sts rt \<and> sep_free r \<and> sep_free rt \<and>
     list_all (\<lambda>s. sep_free (fst s)) sts"

lemma clean_short: "clean_call r sts rt \<Longrightarrow> short_call r sts rt"
  by (simp add: clean_call_def)

lemma fits_copy: "fits cap s \<Longrightarrow> safe_strcpy (Some s) cap = s"
  by (simp add: fits_def safe_strcpy_short)

lemma fits_empty [simp]: "fits (Suc n) []"
  by (simp add: fits_def nul_free_def)

subsection \<open>Joining pieces with a separator\<close>

definition piece :: "string \<times> i64 \<Rightarrow> string" where
  "piece s = fst s @ ''='' @ show_int (sint (snd s))"

fun join :: "string list \<Rightarrow> string" where
  "join [] = []"
| "join (p # ps) = SOH # p @ join ps"

definition plain_key :: "string \<Rightarrow> states \<Rightarrow> string \<Rightarrow> string" where
  "plain_key r sts rt = r @ join (map piece sts @ [rt])"

lemma sep_split:
  assumes "x @ join ps = y @ join qs" and "sep_free x" and "sep_free y"
  shows "x = y \<and> join ps = join qs"
  using assms
proof (induction x arbitrary: y)
  case Nil
  then show ?case by (cases y; cases ps) (auto simp: sep_free_def)
next
  case (Cons a x)
  then show ?case by (cases y; cases qs) (auto simp: sep_free_def)
qed

lemma join_inject:
  "list_all sep_free ps \<Longrightarrow> list_all sep_free qs \<Longrightarrow> join ps = join qs \<Longrightarrow> ps = qs"
proof (induction ps arbitrary: qs)
  case Nil
  then show ?case by (cases qs) auto
next
  case (Cons p ps)
  then obtain q qs' where q: "qs = q # qs'" by (cases qs) auto
  with Cons.prems sep_split [of p ps q qs'] have "p = q" "join ps = join qs'" by auto
  with Cons q show ?case by simp
qed

lemma last_eq_split:
  "a @ c # b = a' @ c # b' \<Longrightarrow> c \<notin> set b \<Longrightarrow> c \<notin> set b' \<Longrightarrow> a = a' \<and> b = b'"
proof (induction a arbitrary: a')
  case Nil
  then show ?case by (cases a') auto
next
  case (Cons x a)
  then show ?case by (cases a') auto
qed

lemma piece_inject [simp]: "piece s = piece s' \<longleftrightarrow> s = s'"
proof
  assume "piece s = piece s'"
  then have "fst s = fst s' \<and> show_int (sint (snd s)) = show_int (sint (snd s'))"
    unfolding piece_def append_Cons append_Nil
    by (rule last_eq_split) (simp_all add: show_int_plain)
  then show "s = s'" by (auto simp: prod_eq_iff intro: signed_word_eqI)
qed simp

lemma sep_free_piece: "sep_free (fst s) \<Longrightarrow> sep_free (piece s)"
  by (simp add: sep_free_def piece_def show_int_plain)

lemma map_piece_inject: "map piece xs = map piece ys \<longleftrightarrow> xs = ys"
  by (simp add: inj_map_eq_map inj_def)

lemma plain_key_inject:
  assumes "clean_call r sts rt" and "clean_call r' sts' rt'" and "plain_key r sts rt = plain_key r' sts' rt'"
  shows "r = r' \<and> sts = sts' \<and> rt = rt'"
proof -
  have c: "list_all sep_free (map piece sts @ [rt])" "list_all sep_free (map piece sts' @ [rt'])"
    using assms(1,2) by (auto simp: clean_call_def list_all_iff intro!: sep_free_piece)
  have "r = r' \<and> join (map piece sts @ [rt]) = join (map piece sts' @ [rt'])"
    using assms by (intro sep_split) (simp_all add: plain_key_def clean_call_def)
  then show ?thesis using join_inject [OF c] map_piece_inject by auto
qed

text \<open>The text of the shared bucket of a region is none of these: it has two pieces, not three.\<close>

lemma plain_key_not_other:
  assumes "clean_call r sts rt" and "sep_free r'"
  shows "plain_key r sts rt \<noteq> r' @ SOH # ''<other>''"
proof
  assume eq: "plain_key r sts rt = r' @ SOH # ''<other>''"
  have c: "list_all sep_free (map piece sts @ [rt])" "list_all sep_free [''<other>'']"
    using assms(1) by (auto simp: clean_call_def list_all_iff sep_free_def intro!: sep_free_piece [unfolded sep_free_def])
  have "r = r' \<and> join (map piece sts @ [rt]) = join [''<other>'']"
    using assms eq by (intro sep_split) (simp_all add: plain_key_def clean_call_def)
  with join_inject [OF c] have "map piece sts @ [rt] = [''<other>'']" by blast
  then have "sts = []" by (cases sts) auto
  then show False using assms(1) by (simp add: clean_call_def short_call_def)
qed

lemma other_inject: "sep_free r \<Longrightarrow> sep_free r' \<Longrightarrow> r @ SOH # ''<other>'' = r' @ SOH # ''<other>'' \<longleftrightarrow> r = r'"
  by auto

subsection \<open>The buffer is large enough\<close>

lemma length_piece: "fits STATE_NAME_MAX (fst s) \<Longrightarrow> length (SOH # piece s) \<le> 85"
  using length_show_int64 [of "snd s"] by (simp add: piece_def fits_def STATE_NAME_MAX_def)

lemma state_text_piece: "fits STATE_NAME_MAX (fst s) \<Longrightarrow> state_text s = SOH # piece s"
  by (simp add: state_text_def piece_def fits_copy)

lemma kbuf_put_fits:
  assumes "snprintf_laws A" and "length buf + length txt < KBUF"
  shows "kbuf_put A (buf, length buf) txt = (buf @ txt, length (buf @ txt))"
  using assms by (simp add: kbuf_put_def snprintf_fits)

lemma kbuf_states_fits:
  assumes "snprintf_laws A" and "list_all (\<lambda>s. fits STATE_NAME_MAX (fst s)) sts"
    and "length buf + 85 * length sts < KBUF - 1"
  shows "kbuf_states A sts (buf, length buf) =
    (buf @ concat (map (\<lambda>s. SOH # piece s) sts), length (buf @ concat (map (\<lambda>s. SOH # piece s) sts)))"
  using assms(2,3)
proof (induction sts arbitrary: buf)
  case Nil
  then show ?case by simp
next
  case (Cons s sts)
  have l: "length (state_text s) \<le> 85"
    using Cons.prems(1) length_piece by (simp add: state_text_piece)
  have "kbuf_put A (buf, length buf) (state_text s) = (buf @ state_text s, length (buf @ state_text s))"
    using assms(1) by (rule kbuf_put_fits) (use l Cons.prems(2) in simp)
  moreover have "length (buf @ state_text s) + 85 * length sts < KBUF - 1"
    using l Cons.prems(2) by simp
  ultimately show ?case
    using Cons.IH [of "buf @ state_text s"] Cons.prems by (simp add: state_text_piece)
qed

lemma join_concat: "join ps = concat (map ((#) SOH) ps)"
  by (induction ps) simp_all

lemma length_states_text:
  "list_all (\<lambda>s. fits STATE_NAME_MAX (fst s)) sts \<Longrightarrow>
     length (concat (map (\<lambda>s. SOH # piece s) sts)) \<le> 85 * length sts"
proof (induction sts)
  case (Cons s sts)
  then show ?case using length_piece [of s] by simp
qed simp

text \<open>The largest text of a call within the limits is 659 characters, the buffer has 704.\<close>

lemma kbuf_of_plain:
  assumes "snprintf_laws A" and "short_call r sts rt"
  shows "kbuf_of A r sts rt = plain_key r sts rt \<and> length (plain_key r sts rt) \<le> 659"
proof -
  let ?c = "concat (map (\<lambda>s. SOH # piece s) sts)"
  have r: "length r \<le> 159" and rt: "length rt \<le> 159" and n: "length sts \<le> 4"
    and ns: "list_all (\<lambda>s. fits STATE_NAME_MAX (fst s)) sts"
    using assms(2) by (simp_all add: short_call_def fits_def key_limits)
  have c: "length ?c \<le> 340"
    using length_states_text [OF ns] n by linarith
  have 1: "kbuf_put A ([], 0) r = (r, length r)"
    using kbuf_put_fits [OF assms(1), of "[]" r] r by (simp add: key_limits)
  have 2: "kbuf_states A sts (r, length r) = (r @ ?c, length (r @ ?c))"
    using r n by (intro kbuf_states_fits [OF assms(1) ns]) (simp add: key_limits)
  have 3: "kbuf_put A (r @ ?c, length (r @ ?c)) (SOH # rt) = (r @ ?c @ SOH # rt, length (r @ ?c @ SOH # rt))"
    using kbuf_put_fits [OF assms(1), of "r @ ?c" "SOH # rt"] r c rt by (simp add: key_limits)
  have p: "plain_key r sts rt = r @ ?c @ SOH # rt"
    by (simp add: plain_key_def join_concat comp_def)
  have "length (r @ ?c) < KBUF - 1" "length (r @ ?c @ SOH # rt) \<le> 659"
    using r c rt by (simp_all add: key_limits)
  then show ?thesis
    unfolding kbuf_of_def Let_def 1 2 p snd_conv
    by (simp only: if_True 3 fst_conv) (simp add: key_limits)
qed

lemma other_kbuf_plain: "snprintf_laws A \<Longrightarrow> fits RNAME_MAX r \<Longrightarrow> other_kbuf A r = r @ SOH # ''<other>''"
  unfolding other_kbuf_def fits_def
  by (subst snprintf_fits) (simp_all add: key_limits, arith)

subsection \<open>The hash\<close>

text \<open>The one case in which the comparison of the fast path ignores a value is a single unnamed
  state; there the hash alone tells the values apart.\<close>

lemma key_hash_unnamed:
  assumes "key_hash r rt [([], v)] = key_hash r rt [([], w)]"
  shows "v = w"
  using assms
  by (simp add: key_hash_def KEY_STATES_def hash_state_def fnv_mult_cancel xor_cancel_left fnv_str_def)

subsection \<open>Where the limits are passed\<close>

lemma separator_joins:
  assumes "snprintf_laws A" and "short_call r sts rt"
  shows "kbuf_of A r [([], 0), ([], 0)] rt = kbuf_of A r [(''=0'' @ [SOH], 0)] rt \<and>
    short_call r [([], 0), ([], 0)] rt \<and> short_call r [(''=0'' @ [SOH], 0)] rt"
proof -
  have s: "short_call r [([], 0), ([], 0)] rt" "short_call r [(''=0'' @ [SOH], 0)] rt"
    using assms(2) by (simp_all add: short_call_def fits_def nul_free_def key_limits)
  have "show_int (sint (0 :: i64)) = ''0''" by (simp, code_simp)
  then have "plain_key r [([], 0), ([], 0)] rt = plain_key r [(''=0'' @ [SOH], 0)] rt"
    by (simp add: plain_key_def piece_def)
  with s kbuf_of_plain [OF assms(1) s(1)] kbuf_of_plain [OF assms(1) s(2)] show ?thesis by simp
qed

lemma strcpy_loop_append: "cap \<le> i + 1 + length x \<Longrightarrow> strcpy_loop i cap (x @ y) = strcpy_loop i cap x"
proof (induction x arbitrary: i)
  case Nil
  then show ?case by (cases y) simp_all
qed simp

lemma cut_names_join: "63 \<le> length x \<Longrightarrow> kbuf_of A r [(x @ y, v)] rt = kbuf_of A r [(x @ z, v)] rt"
  by (simp add: kbuf_of_def state_text_def safe_strcpy_def strcpy_loop_append key_limits)

end
