(* ===== verification/KeyTable.thy ===== *)
theory KeyTable
  imports KeyText
begin

text \<open>
  The invariants of the key table and of a thread's caches, and that \<open>get_key\<close> keeps them: the
  shared table and the key list are two views of one bijection, the caches never disagree with
  the table, and the fast path returns what the slow path would.
\<close>

definition key_states :: "rkey \<Rightarrow> states" where
  "key_states k = zip (kname k) (kval k)"

definition key_clean :: "rkey \<Rightarrow> bool" where
  "key_clean k \<longleftrightarrow> (if overflow k then fits RNAME_MAX (region k) \<and> sep_free (region k)
     else clean_call (region k) (key_states k) (root k) \<and> length (kname k) = length (kval k) \<and>
       nkstates k = want_states (key_states k))"

text \<open>The text a key is stored under.\<close>

definition key_text :: "rkey \<Rightarrow> string" where
  "key_text k = (if overflow k then region k @ SOH # ''<other>''
     else plain_key (region k) (key_states k) (root k))"

definition table_inv :: "('h, 'p) dr_api \<Rightarrow> ('h, 'z) keyst_scheme \<Rightarrow> bool" where
  "table_inv A s \<longleftrightarrow>
     (\<forall>txt i. ht_lookup A (key_table s) txt = Some i \<longleftrightarrow> i < length (keys s) \<and> key_text (keys s ! i) = txt) \<and>
     (\<forall>i<length (keys s). key_clean (keys s ! i) \<and> k_index (keys s ! i) = i)"

definition cache_inv :: "('h, 'p) dr_api \<Rightarrow> ('h, 'z) keyst_scheme \<Rightarrow> ('h, 'y) caches_scheme \<Rightarrow> bool" where
  "cache_inv A s t \<longleftrightarrow>
     (\<forall>txt i. ht_lookup A (key_cache t) txt = Some i \<longrightarrow> ht_lookup A (key_table s) txt = Some i) \<and>
     (\<forall>h hv i. fast t h = (hv, Some i) \<longrightarrow> i < length (keys s) \<and>
        (\<not> overflow (keys s ! i) \<longrightarrow>
           hv = key_hash (region (keys s ! i)) (root (keys s ! i)) (key_states (keys s ! i))))"

lemma table_inv_lookup:
  "table_inv A s \<Longrightarrow> ht_lookup A (key_table s) txt = Some i \<longleftrightarrow>
     i < length (keys s) \<and> key_text (keys s ! i) = txt"
  by (simp add: table_inv_def)

lemma table_inv_clean: "table_inv A s \<Longrightarrow> i < length (keys s) \<Longrightarrow> key_clean (keys s ! i)"
  by (simp add: table_inv_def)

lemma table_inv_none:
  "table_inv A s \<Longrightarrow> ht_lookup A (key_table s) txt = None \<Longrightarrow> i < length (keys s) \<Longrightarrow>
     key_text (keys s ! i) \<noteq> txt"
  by (metis option.distinct(1) table_inv_lookup)

text \<open>Different keys have different texts.\<close>

lemma key_text_inject:
  assumes "table_inv A s" and "i < length (keys s)" and "j < length (keys s)"
    and "key_text (keys s ! i) = key_text (keys s ! j)"
  shows "i = j"
  using assms table_inv_lookup [OF assms(1)] by (metis option.inject)

lemma cache_inv_cache:
  "cache_inv A s t \<Longrightarrow> ht_lookup A (key_cache t) txt = Some i \<Longrightarrow> ht_lookup A (key_table s) txt = Some i"
  by (simp add: cache_inv_def)

lemma cache_inv_fast:
  "cache_inv A s t \<Longrightarrow> fast t h = (hv, Some i) \<Longrightarrow> i < length (keys s) \<and>
     (\<not> overflow (keys s ! i) \<longrightarrow>
        hv = key_hash (region (keys s ! i)) (root (keys s ! i)) (key_states (keys s ! i)))"
  by (simp add: cache_inv_def)

text \<open>The caches of a new thread are empty.\<close>

lemma cache_inv_new:
  "ht_laws A \<Longrightarrow> key_cache t = ht_new A \<Longrightarrow> fast t = (\<lambda>_. (0, None)) \<Longrightarrow> cache_inv A s t"
  by (simp add: cache_inv_def ht_lookup_new)

subsection \<open>The key that a call describes\<close>

lemma key_text_call:
  assumes "clean_call r sts rt" and "key_clean k"
    and "key_text k = plain_key r sts rt"
  shows "\<not> overflow k \<and> region k = r \<and> key_states k = sts \<and> root k = rt"
proof (cases "overflow k")
  case True
  with assms show ?thesis
    by (auto simp: key_text_def key_clean_def dest: plain_key_not_other [OF assms(1), THEN notE, OF _ sym])
next
  case False
  with assms plain_key_inject [of "region k" "key_states k" "root k" r sts rt] show ?thesis
    by (simp add: key_text_def key_clean_def)
qed

lemma key_text_other:
  assumes "key_clean k" and "sep_free r" and "key_text k = r @ SOH # ''<other>''"
  shows "overflow k \<and> region k = r"
proof (cases "overflow k")
  case True
  with assms show ?thesis by (simp add: key_text_def)
next
  case False
  with assms show ?thesis
    using plain_key_not_other by (simp add: key_text_def key_clean_def)
qed

lemma make_key_call:
  assumes "clean_call r sts rt"
  shows "region (make_key r sts False par rt idx) = r" "root (make_key r sts False par rt idx) = rt"
    "key_states (make_key r sts False par rt idx) = sts" "\<not> overflow (make_key r sts False par rt idx)"
    "key_clean (make_key r sts False par rt idx)" "key_text (make_key r sts False par rt idx) = plain_key r sts rt"
proof -
  have m: "map (\<lambda>s. safe_strcpy (Some (fst s)) STATE_NAME_MAX) sts = map fst sts"
    using assms by (auto simp: clean_call_def short_call_def list_all_iff fits_copy)
  have tk: "take KEY_STATES sts = sts" using assms by (simp add: clean_call_def short_call_def)
  show 1: "region (make_key r sts False par rt idx) = r" "root (make_key r sts False par rt idx) = rt"
    using assms by (simp_all add: make_key_def clean_call_def short_call_def fits_copy)
  show 2: "key_states (make_key r sts False par rt idx) = sts"
    by (simp add: make_key_def key_states_def tk m zip_map_fst_snd)
  show 3: "\<not> overflow (make_key r sts False par rt idx)" by (simp add: make_key_def)
  show "key_clean (make_key r sts False par rt idx)"
    unfolding key_clean_def 1 2 using assms 3 by (simp add: make_key_def)
  show "key_text (make_key r sts False par rt idx) = plain_key r sts rt"
    unfolding key_text_def 1 2 using 3 by simp
qed

lemma make_key_other:
  assumes "fits RNAME_MAX r" and "sep_free r"
  shows "region (make_key r [] True par rt idx) = r" "overflow (make_key r [] True par rt idx)"
    "key_clean (make_key r [] True par rt idx)" "key_text (make_key r [] True par rt idx) = r @ SOH # ''<other>''"
  using assms by (simp_all add: make_key_def key_clean_def key_text_def fits_copy)

lemma k_index_make_key [simp]: "k_index (make_key r sts ov par rt idx) = idx"
  by (simp add: make_key_def)

subsection \<open>Soundness of the fast path\<close>

lemma key_matches_sound:
  assumes "key_clean k" and "clean_call r sts rt" and "key_matches k r sts rt"
    and "key_hash r rt sts = key_hash (region k) (root k) (key_states k)"
  shows "\<not> overflow k \<and> region k = r \<and> root k = rt \<and> key_states k = sts"
proof -
  have ov: "\<not> overflow k" and eqs: "region k = r" "root k = rt" and
    n: "nkstates k = want_states sts" and
    el: "\<And>i. i < min (want_states sts) KEY_STATES \<Longrightarrow> kval k ! i = snd (sts ! i) \<and> kname k ! i = fst (sts ! i)"
    using assms(3) by (auto simp: key_matches_def list_all_iff split: if_splits)
  have nk: "want_states (key_states k) = want_states sts" and len: "length (kname k) = length (kval k)"
    and cl: "clean_call (region k) (key_states k) (root k)"
    using assms(1) ov n by (simp_all add: key_clean_def)
  have le: "length sts \<le> KEY_STATES" "1 \<le> length sts" "1 \<le> length (key_states k)"
    using assms(2) cl by (simp_all add: clean_call_def short_call_def)
  have "key_states k = sts"
  proof (cases "want_states sts = 0")
    case True
    then obtain v where v: "sts = [([], v)]"
      using le by (auto simp: want_states_def length_Suc_conv split: if_splits)
    from True nk le obtain w where w: "key_states k = [([], w)]"
      by (auto simp: want_states_def length_Suc_conv split: if_splits)
    have "key_hash r rt [([], v)] = key_hash r rt [([], w)]"
      using assms(4) unfolding eqs v w .
    then have "v = w" by (rule key_hash_unnamed)
    with v w show ?thesis by simp
  next
    case False
    with nk have l: "length (key_states k) = length sts" "want_states sts = length sts"
      by (auto simp: want_states_def split: if_splits)
    show ?thesis
      using el le l by (intro nth_equalityI) (auto simp: key_states_def prod_eq_iff)
  qed
  with ov eqs show ?thesis by simp
qed

lemma fast_hit_sound:
  assumes "table_inv A s" and "cache_inv A s t" and "clean_call r sts rt"
    and "fast_hit (keys s) t r sts rt = Some i"
  shows "ht_lookup A (key_table s) (plain_key r sts rt) = Some i"
proof -
  from assms(4) have h: "fast t (fast_index (key_hash r rt sts)) = (key_hash r rt sts, Some i)"
    and m: "key_matches (keys s ! i) r sts rt"
    by (auto simp: fast_hit_def Let_def split: prod.splits option.splits if_splits)
  have i: "i < length (keys s)" and ov: "\<not> overflow (keys s ! i)"
    using cache_inv_fast [OF assms(2) h] m by (auto simp: key_matches_def)
  have "key_hash r rt sts = key_hash (region (keys s ! i)) (root (keys s ! i)) (key_states (keys s ! i))"
    using cache_inv_fast [OF assms(2) h] ov by simp
  with key_matches_sound [OF table_inv_clean [OF assms(1) i] assms(3) m]
  have "key_text (keys s ! i) = plain_key r sts rt" by (simp add: key_text_def)
  with i show ?thesis using table_inv_lookup [OF assms(1)] by blast
qed

end
