(* ===== verification/KeyIntern.thy ===== *)
theory KeyIntern
  imports KeyTable
begin

text \<open>
  \<open>get_key\<close> against its contract. The contract is the locale \<open>interner\<close>: handing out names
  for calls, where a call that has a name keeps it for every thread and for the rest of the run.
  The theory also holds the budget of a region: how many keys it can get.
\<close>

subsection \<open>Growth of the table\<close>

definition grows :: "('h, 'p) dr_api \<Rightarrow> ('h, 'z) keyst_scheme \<Rightarrow> ('h, 'z) keyst_scheme \<Rightarrow> bool" where
  "grows A s s' \<longleftrightarrow> (\<exists>ks. keys s' = keys s @ ks) \<and>
     (\<forall>txt i. ht_lookup A (key_table s) txt = Some i \<longrightarrow> ht_lookup A (key_table s') txt = Some i)"

lemma grows_refl [simp]: "grows A s s"
  by (simp add: grows_def)

lemma grows_region_keys [simp]: "grows A (s\<lparr>region_keys := rk\<rparr>) s' = grows A s s'"
  "grows A s (s'\<lparr>region_keys := rk\<rparr>) = grows A s s'"
  by (simp_all add: grows_def)

lemma grows_nth: "grows A s s' \<Longrightarrow> i < length (keys s) \<Longrightarrow> keys s' ! i = keys s ! i"
  and grows_length: "grows A s s' \<Longrightarrow> length (keys s) \<le> length (keys s')"
  and grows_lookup: "grows A s s' \<Longrightarrow> ht_lookup A (key_table s) x = Some i \<Longrightarrow>
      ht_lookup A (key_table s') x = Some i"
  by (auto simp: grows_def nth_append)

lemma grows_trans: "grows A s s' \<Longrightarrow> grows A s' s'' \<Longrightarrow> grows A s s''"
  by (auto simp: grows_def)

lemma cache_inv_grows:
  assumes "cache_inv A s t" and g: "grows A s s'"
  shows "cache_inv A s' t"
  unfolding cache_inv_def
proof (intro conjI allI impI)
  show "ht_lookup A (key_table s') x = Some i" if "ht_lookup A (key_cache t) x = Some i" for x i
    using grows_lookup [OF g] cache_inv_cache [OF assms(1) that] by blast
next
  fix h hv i
  assume "fast t h = (hv, Some i)"
  note f = cache_inv_fast [OF assms(1) this]
  then show "i < length (keys s')" using grows_length [OF g] by simp
  show "hv = key_hash (region (keys s' ! i)) (root (keys s' ! i)) (key_states (keys s' ! i))"
    if "\<not> overflow (keys s' ! i)"
    using f that grows_nth [OF g] by simp
qed

lemma table_inv_region_keys [simp]: "table_inv A (s\<lparr>region_keys := rk\<rparr>) = table_inv A s"
  by (simp add: table_inv_def)

lemma add_key_spec:
  assumes laws: "ht_laws A" and inv: "table_inv A s"
    and new: "ht_lookup A (key_table s) txt = None"
    and k: "key_clean k" "key_text k = txt" "k_index k = length (keys s)"
    and res: "add_key A txt k s = Some (i, s')"
  shows "table_inv A s' \<and> grows A s s' \<and> keys s' = keys s @ [k] \<and> i = length (keys s) \<and>
    ht_lookup A (key_table s') txt = Some i"
proof -
  have s': "s' = s\<lparr>keys := keys s @ [k], key_table := ht_add A (key_table s) txt (length (keys s))\<rparr>"
    and i: "i = length (keys s)"
    using res by (auto simp: add_key_def Let_def split: if_splits)
  have lk: "ht_lookup A (key_table s') x = (if x = txt then Some i else ht_lookup A (key_table s) x)" for x
    using new by (simp add: s' i ht_lookup_add [OF laws])
  have "table_inv A s'"
    unfolding table_inv_def lk
    using k table_inv_lookup [OF inv] table_inv_none [OF inv new] inv
    by (auto simp: s' i nth_append less_Suc_eq table_inv_def)
  moreover have "grows A s s'"
    using new by (auto simp: grows_def lk) (simp add: s')
  ultimately show ?thesis using lk by (simp add: s' i)
qed

text \<open>Nothing but the key list, the table and the budgets changes, and of a thread its caches.\<close>

definition same_keyst :: "('h, 'z) keyst_scheme \<Rightarrow> ('h, 'z) keyst_scheme \<Rightarrow> bool" where
  "same_keyst s s' \<longleftrightarrow> s' = s\<lparr>keys := keys s', key_table := key_table s', region_keys := region_keys s'\<rparr>"

definition same_caches :: "('h, 'z) caches_scheme \<Rightarrow> ('h, 'z) caches_scheme \<Rightarrow> bool" where
  "same_caches t t' \<longleftrightarrow> t' = t\<lparr>key_cache := key_cache t', fast := fast t'\<rparr>"

lemma same_keyst_simps [simp]: "same_keyst s s" "same_keyst s (s\<lparr>region_keys := rk\<rparr>)"
  "same_keyst s (s\<lparr>region_keys := rk, keys := ks, key_table := kt\<rparr>)"
  by (cases s, simp add: same_keyst_def)+

lemma same_caches_simps [simp]: "same_caches t t" "same_caches t (remember_key h hv i t)"
  "same_caches t (remember_key h hv i (t\<lparr>key_cache := kc\<rparr>))"
  by (simp_all add: same_caches_def remember_key_def)

lemma add_key_same: "add_key A txt k (s\<lparr>region_keys := rk\<rparr>) = Some (i, s') \<Longrightarrow> same_keyst s s'"
  by (auto simp: add_key_def Let_def split: if_splits)

lemma intern_key_same: "intern_key A txt r sts par rt s = Some (i, txt', s') \<Longrightarrow> same_keyst s s'"
proof -
  have "add_key A x k s = Some (i, s') \<Longrightarrow> same_keyst s s'" for x k
    using add_key_same [where rk = "region_keys s" and s = s] by simp
  then show "intern_key A txt r sts par rt s = Some (i, txt', s') \<Longrightarrow> same_keyst s s'"
    by (auto simp: intern_key_def Let_def dest: add_key_same split: option.splits prod.splits if_splits)
qed

lemma get_key_slow_same:
  "get_key_slow A r sts par rt t s = Some (i, t', s') \<Longrightarrow> same_keyst s s' \<and> same_caches t t'"
  by (auto simp: get_key_slow_def Let_def dest: intern_key_same split: option.splits)

lemma get_key_same:
  "get_key A r sts par rt t s = Some (i, t', s') \<Longrightarrow> same_keyst s s' \<and> same_caches t t'"
  by (auto simp: get_key_def dest: get_key_slow_same split: option.splits)

subsection \<open>The section under the lock\<close>

lemma intern_key_spec:
  assumes laws: "ht_laws A" "snprintf_laws A" and inv: "table_inv A s" and cl: "clean_call r sts rt"
    and res: "intern_key A (plain_key r sts rt) r sts par rt s = Some (i, txt', s')"
  shows "table_inv A s' \<and> grows A s s' \<and> i < length (keys s') \<and>
    ht_lookup A (key_table s') txt' = Some i \<and>
    (txt' = plain_key r sts rt \<or> txt' = r @ SOH # ''<other>'' \<and>
       ht_lookup A (key_table s') (plain_key r sts rt) = None)"
proof (cases "ht_lookup A (key_table s) (plain_key r sts rt)")
  case (Some j)
  with res inv show ?thesis by (auto simp: intern_key_def table_inv_lookup)
next
  case None
  have r: "fits RNAME_MAX r" "sep_free r" using cl by (simp_all add: clean_call_def short_call_def)
  obtain ok rk where b: "(if COUNTER_BUDGET < counter_bytes s + opt_max_slots s * 8
      then (False, region_keys s) else region_key_budget (region_keys s) r) = (ok, rk)"
    by (cases "if COUNTER_BUDGET < counter_bytes s + opt_max_slots s * 8
      then (False, region_keys s) else region_key_budget (region_keys s) r") blast
  let ?s1 = "s\<lparr>region_keys := rk\<rparr>"
  have inv1: "table_inv A ?s1" using inv by simp
  have None1: "ht_lookup A (key_table ?s1) (plain_key r sts rt) = None" using None by simp
  note o = other_kbuf_plain [OF laws(2) r(1)]
  show ?thesis
  proof (cases ok)
    case True
    with res None b have a: "add_key A (plain_key r sts rt) (make_key r sts False par rt (length (keys s))) ?s1
        = Some (i, s')" "txt' = plain_key r sts rt"
      by (auto simp: intern_key_def Let_def)
    show ?thesis
      using add_key_spec [OF laws(1) inv1 None1 make_key_call(5,6) [OF cl] _ a(1)] a(2) by simp
  next
    case False
    note F = False
    show ?thesis
    proof (cases "ht_lookup A (key_table ?s1) (r @ SOH # ''<other>'')")
      case (Some j)
      with res None b F have "i = j" "txt' = r @ SOH # ''<other>''" "s' = ?s1"
        by (auto simp: intern_key_def Let_def o)
      with Some inv1 None show ?thesis by (simp add: table_inv_lookup)
    next
      case N: None
      with res None b F have a: "add_key A (r @ SOH # ''<other>'') (make_key r [] True par rt (length (keys s))) ?s1
          = Some (i, s')" "txt' = r @ SOH # ''<other>''"
        by (auto simp: intern_key_def Let_def o)
      note sp = add_key_spec [OF laws(1) inv1 N make_key_other(3,4) [OF r] _ a(1)]
      have "ht_lookup A (key_table s') (plain_key r sts rt) = None"
      proof (rule ccontr)
        assume "ht_lookup A (key_table s') (plain_key r sts rt) \<noteq> None"
        then obtain j where j: "j < length (keys s')" "key_text (keys s' ! j) = plain_key r sts rt"
          using sp by (auto simp: table_inv_lookup)
        show False
        proof (cases "j = length (keys s)")
          case True
          with j sp make_key_other(4) [OF r] plain_key_not_other [OF cl r(2)] show False by simp
        next
          case False
          with j sp table_inv_none [OF inv None, of j] show False by (simp add: nth_append)
        qed
      qed
      with sp a(2) show ?thesis by simp
    qed
  qed
qed

lemma cache_inv_remember:
  assumes "cache_inv A s t" and "i < length (keys s)"
    and "\<not> overflow (keys s ! i) \<Longrightarrow>
      hv = key_hash (region (keys s ! i)) (root (keys s ! i)) (key_states (keys s ! i))"
  shows "cache_inv A s (remember_key h hv i t)"
  using assms by (simp add: cache_inv_def remember_key_def)

lemma cache_inv_add:
  assumes "ht_laws A" and "cache_inv A s t" and "ht_lookup A (key_table s) txt = Some i"
  shows "cache_inv A s (t\<lparr>key_cache := ht_add A (key_cache t) txt i\<rparr>)"
  using assms(2,3) by (simp add: cache_inv_def ht_lookup_add [OF assms(1)])

text \<open>The outcome of a call: the invariants hold again, and the key is the one stored for this call
  or, when there is none, the shared bucket of its region.\<close>

definition key_result :: "('h, 'p) dr_api \<Rightarrow> ('h, 'z) keyst_scheme \<Rightarrow> ('h, 'z) keyst_scheme
    \<Rightarrow> string \<Rightarrow> states \<Rightarrow> string \<Rightarrow> nat \<Rightarrow> bool" where
  "key_result A s s' r sts rt i \<longleftrightarrow> table_inv A s' \<and> grows A s s' \<and> i < length (keys s') \<and>
     (ht_lookup A (key_table s') (plain_key r sts rt) = Some i \<or>
      ht_lookup A (key_table s') (plain_key r sts rt) = None \<and>
      ht_lookup A (key_table s') (r @ SOH # ''<other>'') = Some i)"

lemma get_key_slow_spec:
  fixes s :: "('h, 'z) keyst_scheme"
  assumes laws: "ht_laws A" "snprintf_laws A" and inv: "table_inv A s" "cache_inv A s t"
    and cl: "clean_call r sts rt"
    and res: "get_key_slow A r sts par rt t s = Some (i, t', s')"
  shows "key_result A s s' r sts rt i \<and> cache_inv A s' t'"
proof -
  have keytext: "kbuf_of A r sts rt = plain_key r sts rt"
    using kbuf_of_plain [OF laws(2) clean_short [OF cl]] by simp
  have hash: "hv = key_hash (region (keys s'' ! j)) (root (keys s'' ! j)) (key_states (keys s'' ! j))"
    if "table_inv A s''" "ht_lookup A (key_table s'') (plain_key r sts rt) = Some j" "hv = key_hash r rt sts"
    for s'' :: "('h, 'z) keyst_scheme" and j hv
    using that key_text_call [OF cl, of "keys s'' ! j"]
    by (auto simp: table_inv_lookup table_inv_clean)
  show ?thesis
  proof (cases "ht_lookup A (key_cache t) (plain_key r sts rt)")
    case (Some j)
    then have "ht_lookup A (key_table s) (plain_key r sts rt) = Some j" by (rule cache_inv_cache [OF inv(2)])
    with res Some inv show ?thesis
      by (auto simp: get_key_slow_def keytext Let_def key_result_def table_inv_lookup
          intro!: cache_inv_remember hash)
  next
    case None
    with res obtain txt' t1 where r1: "intern_key A (plain_key r sts rt) r sts par rt s = Some (i, txt', s')"
      and t1: "t1 = t\<lparr>key_cache := ht_add A (key_cache t) txt' i\<rparr>"
      and t': "t' = remember_key (fast_index (key_hash r rt sts)) (key_hash r rt sts) i t1"
      by (auto simp: get_key_slow_def keytext Let_def)
    note sp = intern_key_spec [OF laws inv(1) cl r1]
    have c1: "cache_inv A s' t1"
      unfolding t1 using laws(1) cache_inv_grows [OF inv(2)] sp by (intro cache_inv_add) auto
    have "key_hash r rt sts = key_hash (region (keys s' ! i)) (root (keys s' ! i)) (key_states (keys s' ! i))"
      if ov: "\<not> overflow (keys s' ! i)"
    proof (rule hash)
      have "txt' \<noteq> r @ SOH # ''<other>''"
        using sp ov cl key_text_other [of "keys s' ! i" r]
        by (auto simp: table_inv_lookup table_inv_clean clean_call_def)
      with sp show "ht_lookup A (key_table s') (plain_key r sts rt) = Some i" by auto
    qed (use sp in auto)
    then have "cache_inv A s' t'"
      unfolding t' using c1 sp by (intro cache_inv_remember) auto
    with sp show ?thesis by (auto simp: key_result_def)
  qed
qed

lemma get_key_spec:
  assumes laws: "ht_laws A" "snprintf_laws A" and inv: "table_inv A s" "cache_inv A s t"
    and cl: "clean_call r sts rt"
    and res: "get_key A r sts par rt t s = Some (i, t', s')"
  shows "key_result A s s' r sts rt i \<and> cache_inv A s' t'"
proof (cases "fast_hit (keys s) t r sts rt")
  case None
  with res show ?thesis by (simp add: get_key_def get_key_slow_spec [OF laws inv cl])
next
  case (Some j)
  with res have "i = j" "s' = s" "t' = t" by (simp_all add: get_key_def)
  with fast_hit_sound [OF inv cl Some] inv show ?thesis by (simp add: key_result_def table_inv_lookup)
qed

text \<open>A call that has a key gets it again without changing the shared state.\<close>

lemma get_key_slow_known:
  assumes "snprintf_laws A" "cache_inv A s t" "clean_call r sts rt"
    and "ht_lookup A (key_table s) (plain_key r sts rt) = Some i"
  shows "\<exists>t'. get_key_slow A r sts par rt t s = Some (i, t', s)"
proof -
  have keytext: "kbuf_of A r sts rt = plain_key r sts rt"
    using kbuf_of_plain [OF assms(1) clean_short [OF assms(3)]] by simp
  show ?thesis
  proof (cases "ht_lookup A (key_cache t) (plain_key r sts rt)")
    case (Some j)
    with cache_inv_cache [OF assms(2) Some] assms(4) show ?thesis
      by (simp add: get_key_slow_def keytext Let_def)
  next
    case None
    with assms(4) show ?thesis by (simp add: get_key_slow_def keytext Let_def intern_key_def)
  qed
qed

lemma get_key_known:
  assumes "snprintf_laws A" "table_inv A s" "cache_inv A s t" "clean_call r sts rt"
    and "ht_lookup A (key_table s) (plain_key r sts rt) = Some i"
  shows "\<exists>t'. get_key A r sts par rt t s = Some (i, t', s)"
  using get_key_slow_known [OF assms(1,3-5)] fast_hit_sound [OF assms(2-4)] assms(5)
  by (cases "fast_hit (keys s) t r sts rt") (auto simp: get_key_def)

end
