(* ===== verification/KeyContract.thy ===== *)
theory KeyContract
  imports KeyIntern
begin

text \<open>
  What the rest of the client relies on when it asks for a key. The locale \<open>interner\<close> is the
  contract of \<open>get_key\<close> over all threads; its client lemma says that a call keeps its key
  through any sequence of calls by any threads. The second part is the budget: a region that has
  an entry in \<open>region_keys\<close> gets at most \<open>KEYS_PER_REGION\<close> keys, one that has none (the 65th
  and later) gets any number.
\<close>

subsection \<open>The contract\<close>

text \<open>Calls of several threads one after the other.\<close>

fun gets :: "(nat \<Rightarrow> 'a \<Rightarrow> 'g \<Rightarrow> ('k \<times> 'g) option) \<Rightarrow> (nat \<times> 'a) list \<Rightarrow> 'g \<Rightarrow> 'g option" where
  "gets get [] g = Some g"
| "gets get ((i, a) # cs) g = Option.bind (get i a g) (\<lambda>(k, g'). gets get cs g')"

locale interner =
  fixes get :: "nat \<Rightarrow> 'a \<Rightarrow> 'g \<Rightarrow> ('k \<times> 'g) option"
    and named :: "'g \<Rightarrow> 'a \<Rightarrow> 'k \<Rightarrow> bool"
    and ok :: "'a \<Rightarrow> bool"
    and inv :: "'g \<Rightarrow> bool"
  assumes get_inv: "inv g \<Longrightarrow> ok a \<Longrightarrow> get i a g = Some (k, g') \<Longrightarrow> inv g'"
    and get_named: "inv g \<Longrightarrow> ok a \<Longrightarrow> get i a g = Some (k, g') \<Longrightarrow> ok b \<Longrightarrow> named g b j \<Longrightarrow> named g' b j"
    and get_again: "inv g \<Longrightarrow> ok a \<Longrightarrow> named g a k \<Longrightarrow> \<exists>g'. get i a g = Some (k, g')"
begin

lemma gets_inv:
  "inv g \<Longrightarrow> list_all (\<lambda>(i, a). ok a) cs \<Longrightarrow> gets get cs g = Some g' \<Longrightarrow> inv g'"
proof (induction cs arbitrary: g)
  case (Cons c cs)
  obtain i a where c: "c = (i, a)" by (cases c)
  from Cons.prems c obtain j g1 where g1: "get i a g = Some (j, g1)" "gets get cs g1 = Some g'"
    by (auto split: Option.bind_splits)
  with Cons.prems c have "inv g1" by (auto dest: get_inv)
  then show ?case using Cons.IH Cons.prems(2) g1(2) by simp
qed simp

lemma gets_named:
  "inv g \<Longrightarrow> list_all (\<lambda>(i, a). ok a) cs \<Longrightarrow> gets get cs g = Some g' \<Longrightarrow> ok b \<Longrightarrow> named g b k \<Longrightarrow> named g' b k"
proof (induction cs arbitrary: g)
  case (Cons c cs)
  obtain i a where c: "c = (i, a)" by (cases c)
  from Cons.prems c obtain j g1 where g1: "get i a g = Some (j, g1)" "gets get cs g1 = Some g'"
    by (auto split: Option.bind_splits)
  with Cons.prems c have "inv g1" "named g1 b k" by (auto dest: get_inv get_named)
  then show ?case using Cons.IH Cons.prems(2,4) g1(2) by simp
qed simp

lemma stable:
  assumes "inv g" "list_all (\<lambda>(i, a). ok a) cs" "gets get cs g = Some g'" "ok b" "named g b k"
  shows "\<exists>g''. get i b g' = Some (k, g'')"
  using gets_inv gets_named get_again assms by blast

end

subsection \<open>The client's provider\<close>

type_synonym call = "string \<times> states \<times> string \<times> string"  \<comment> \<open>region, states, parent, root\<close>

text \<open>All threads together: the shared state and each thread's caches.\<close>

definition get_at :: "('h, 'p) dr_api \<Rightarrow> nat \<Rightarrow> call \<Rightarrow>
    ('h, 'z) keyst_scheme \<times> (nat \<Rightarrow> ('h, 'y) caches_scheme) \<Rightarrow>
    (nat \<times> ('h, 'z) keyst_scheme \<times> (nat \<Rightarrow> ('h, 'y) caches_scheme)) option" where
  "get_at A i c g = (case c of (r, sts, par, rt) \<Rightarrow>
     map_option (\<lambda>(k, t', s'). (k, s', (snd g)(i := t'))) (get_key A r sts par rt (snd g i) (fst g)))"

definition call_ok :: "call \<Rightarrow> bool" where
  "call_ok c \<longleftrightarrow> (case c of (r, sts, par, rt) \<Rightarrow> clean_call r sts rt)"

definition stored :: "('h, 'p) dr_api \<Rightarrow> ('h, 'z) keyst_scheme \<times> 'w \<Rightarrow> call \<Rightarrow> nat \<Rightarrow> bool" where
  "stored A g c k \<longleftrightarrow> (case c of (r, sts, par, rt) \<Rightarrow>
     ht_lookup A (key_table (fst g)) (plain_key r sts rt) = Some k)"

definition interned_inv :: "('h, 'p) dr_api \<Rightarrow>
    ('h, 'z) keyst_scheme \<times> (nat \<Rightarrow> ('h, 'y) caches_scheme) \<Rightarrow> bool" where
  "interned_inv A g \<longleftrightarrow> ht_laws A \<and> snprintf_laws A \<and> table_inv A (fst g) \<and>
     (\<forall>i. cache_inv A (fst g) (snd g i))"

lemma interned_invD:
  "interned_inv A g \<Longrightarrow> ht_laws A" "interned_inv A g \<Longrightarrow> snprintf_laws A"
  "interned_inv A g \<Longrightarrow> table_inv A (fst g)" "interned_inv A g \<Longrightarrow> cache_inv A (fst g) (snd g i)"
  by (simp_all add: interned_inv_def)

lemma get_at_spec:
  assumes inv: "interned_inv A g" and ok: "call_ok c" and get: "get_at A i c g = Some (k, g')"
  shows "interned_inv A g' \<and> grows A (fst g) (fst g')"
proof -
  obtain r sts par rt where c: "c = (r, sts, par, rt)" by (cases c)
  from get c obtain t' s' where gk: "get_key A r sts par rt (snd g i) (fst g) = Some (k, t', s')"
    and g': "g' = (s', (snd g)(i := t'))" by (auto simp: get_at_def)
  have cl: "clean_call r sts rt" using ok c by (simp add: call_ok_def)
  have gr: "grows A (fst g) s'" "table_inv A s'" "cache_inv A s' t'"
    using get_key_spec [OF interned_invD [OF inv] cl gk] by (simp_all add: key_result_def)
  then show ?thesis
    using inv cache_inv_grows [OF interned_invD(4) [OF inv] gr(1)] by (simp add: interned_inv_def g')
qed

lemma get_at_known:
  assumes inv: "interned_inv A g" and ok: "call_ok c" and st: "stored A g c k"
  shows "\<exists>g'. get_at A i c g = Some (k, g')"
proof -
  obtain r sts par rt where c: "c = (r, sts, par, rt)" by (cases c)
  with ok st get_key_known [OF interned_invD(2-4) [OF inv], of r sts rt k par]
  show ?thesis by (fastforce simp: get_at_def call_ok_def stored_def)
qed

lemma stored_grows: "grows A (fst g) (fst g') \<Longrightarrow> stored A g c k \<Longrightarrow> stored A g' c k"
  by (auto simp: stored_def dest: grows_lookup)

interpretation keys_of: interner "get_at A" "stored A" call_ok "interned_inv A" for A
proof
qed (blast dest: get_at_spec intro: stored_grows get_at_known)+

subsection \<open>The budget\<close>

text \<open>The keys of a region that are not its shared bucket.\<close>

definition region_uses :: "rkey list \<Rightarrow> string \<Rightarrow> nat" where
  "region_uses ks r = length (filter (\<lambda>k. \<not> overflow k \<and> region k = r) ks)"

definition budget_inv :: "('h, 'z) keyst_scheme \<Rightarrow> bool" where
  "budget_inv s \<longleftrightarrow> distinct (map fst (region_keys s)) \<and> length (region_keys s) \<le> NREGION_KEYS \<and>
     (\<forall>(r, n) \<in> set (region_keys s). n = region_uses (keys s) r \<and> n \<le> KEYS_PER_REGION) \<and>
     (length (region_keys s) < NREGION_KEYS \<longrightarrow>
        (\<forall>k \<in> set (keys s). \<not> overflow k \<longrightarrow> region k \<in> fst ` set (region_keys s)))"

lemma budget_loop_None: "budget_loop rk r = None \<longleftrightarrow> r \<notin> fst ` set rk"
  by (induction rk r rule: budget_loop.induct) auto

lemma fst_notin: "r \<notin> fst ` S \<Longrightarrow> (r, n) \<notin> S"
  by force

lemma budget_loop_Some:
  assumes "budget_loop rk r = Some (ok, rk')" and "distinct (map fst rk)"
  shows "map fst rk' = map fst rk \<and>
    (ok \<longrightarrow> (\<forall>(r', n') \<in> set rk'. if r' = r then 1 \<le> n' \<and> (r, n' - 1) \<in> set rk \<and> n' \<le> KEYS_PER_REGION
                                 else (r', n') \<in> set rk)) \<and>
    (\<not> ok \<longrightarrow> rk' = rk \<and> (\<exists>n. (r, n) \<in> set rk \<and> KEYS_PER_REGION \<le> n))"
  using assms
proof (induction rk r arbitrary: ok rk' rule: budget_loop.induct)
  case (2 r' n rest r)
  show ?case
  proof (cases "r' = r")
    case True
    with "2.prems" show ?thesis by (auto simp: fst_notin split: if_splits)
  next
    case False
    with "2.prems"(1) obtain rest' where b: "budget_loop rest r = Some (ok, rest')" "rk' = (r', n) # rest'"
      by auto
    from "2.IH" [OF False b(1)] "2.prems"(2) False b(2) show ?thesis
      by (auto split: if_splits)
  qed
qed simp

lemma region_uses_snoc:
  "region_uses (ks @ [k]) r = region_uses ks r + (if \<not> overflow k \<and> region k = r then 1 else 0)"
  by (simp add: region_uses_def)

lemma add_key_keys: "add_key A x k s = Some (i, s') \<Longrightarrow> keys s' = keys s @ [k] \<and> region_keys s' = region_keys s"
  by (auto simp: add_key_def Let_def split: if_splits)

lemma budget_inv_over: "budget_inv s \<Longrightarrow> overflow k \<Longrightarrow> keys s' = keys s @ [k] \<Longrightarrow>
    region_keys s' = region_keys s \<Longrightarrow> budget_inv s'"
  by (auto simp: budget_inv_def region_uses_snoc)

lemma budget_inv_granted:
  assumes inv: "budget_inv s" and b: "region_key_budget (region_keys s) r = (True, rk)"
    and r: "fits RNAME_MAX r" and k: "\<not> overflow k" "region k = r"
    and s': "keys s' = keys s @ [k]" "region_keys s' = rk"
  shows "budget_inv s'"
proof (cases "budget_loop (region_keys s) r")
  case None
  note N = None
  show ?thesis
  proof (cases "length (region_keys s) < NREGION_KEYS")
    case True
    have "rk = region_keys s @ [(r, 1)]"
      using b N True r by (simp add: region_key_budget_def fits_copy)
    moreover have "region_uses (keys s) r = 0"
      using inv True N by (auto simp: budget_inv_def region_uses_def filter_empty_conv budget_loop_None)
    ultimately show ?thesis
      using inv True N k by (auto simp: budget_inv_def s' region_uses_snoc budget_loop_None fst_notin KEYS_PER_REGION_def)
  next
    case False
    then have "rk = region_keys s" using b N by (simp add: region_key_budget_def)
    with inv False N k show ?thesis
      by (auto simp: budget_inv_def s' region_uses_snoc budget_loop_None fst_notin)
  qed
next
  case (Some res)
  with b have l: "budget_loop (region_keys s) r = Some (True, rk)" by (simp add: region_key_budget_def)
  have d: "distinct (map fst (region_keys s))" using inv by (simp add: budget_inv_def)
  note L = budget_loop_Some [OF l d]
  have fsts: "fst ` set rk = fst ` set (region_keys s)" "length rk = length (region_keys s)"
    using L by (metis list.set_map, metis length_map)
  have "r \<in> fst ` set (region_keys s)" using l budget_loop_None [of "region_keys s" r] by auto
  moreover have "n' = region_uses (keys s') r' \<and> n' \<le> KEYS_PER_REGION" if e: "(r', n') \<in> set rk" for r' n'
  proof -
    have u: "m = region_uses (keys s) q \<and> m \<le> KEYS_PER_REGION" if "(q, m) \<in> set (region_keys s)" for q m
      using inv that by (auto simp: budget_inv_def)
    show ?thesis
    proof (cases "r' = r")
      case True
      then have "1 \<le> n'" "(r, n' - 1) \<in> set (region_keys s)" "n' \<le> KEYS_PER_REGION"
        using L e by fastforce+
      moreover from this u have "n' - 1 = region_uses (keys s) r" by blast
      ultimately have "n' = region_uses (keys s) r + 1 \<and> n' \<le> KEYS_PER_REGION" by linarith
      with k True show ?thesis by (simp add: s' region_uses_snoc)
    next
      case False
      then have "(r', n') \<in> set (region_keys s)" using L e by fastforce
      with u False k show ?thesis by (simp add: s' region_uses_snoc)
    qed
  qed
  ultimately show ?thesis
    using inv L k d unfolding budget_inv_def s' fsts by (auto simp: fsts)
qed

lemma intern_key_budget:
  assumes inv: "budget_inv s" and r: "fits RNAME_MAX r"
    and res: "intern_key A x r sts par rt s = Some (i, x', s')"
  shows "budget_inv s'"
proof (cases "ht_lookup A (key_table s) x")
  case (Some j)
  with res inv show ?thesis by (simp add: intern_key_def)
next
  case None
  let ?over = "COUNTER_BUDGET < counter_bytes s + opt_max_slots s * 8"
  have refused: "rk = region_keys s" if "region_key_budget (region_keys s) r = (False, rk)" for rk
    using that inv budget_loop_Some [of "region_keys s" r False]
    by (auto simp: region_key_budget_def budget_inv_def split: option.splits)
  have reg: "region (make_key r sts False par rt j) = r" for j by (simp add: make_key_def fits_copy [OF r])
  obtain ok rk where b: "(if ?over then (False, region_keys s) else region_key_budget (region_keys s) r) = (ok, rk)"
    by (cases "if ?over then (False, region_keys s) else region_key_budget (region_keys s) r") blast
  show ?thesis
  proof (cases ok)
    case True
    with res None b obtain s1 where s1: "region_key_budget (region_keys s) r = (True, rk)"
      "add_key A x (make_key r sts False par rt (length (keys s))) (s\<lparr>region_keys := rk\<rparr>) = Some (i, s')"
      by (auto simp: intern_key_def Let_def split: if_splits)
    from add_key_keys [OF this(2)] show ?thesis
      by (intro budget_inv_granted [OF inv s1(1) r _ reg]) (auto simp: make_key_def)
  next
    case False
    then have rk: "rk = region_keys s" using b refused by (auto split: if_splits)
    show ?thesis
    proof (cases "ht_lookup A (key_table s) (other_kbuf A r)")
      case (Some j)
      with res None b False rk inv show ?thesis by (auto simp: intern_key_def Let_def)
    next
      case N: None
      with res None b False rk have
        "add_key A (other_kbuf A r) (make_key r [] True par rt (length (keys s))) s = Some (i, s')"
        by (auto simp: intern_key_def Let_def)
      from add_key_keys [OF this] show ?thesis
        by (intro budget_inv_over [OF inv]) (auto simp: make_key_def)
    qed
  qed
qed

lemma get_key_budget:
  assumes inv: "budget_inv s" and r: "fits RNAME_MAX r"
    and res: "get_key A r sts par rt t s = Some (i, t', s')"
  shows "budget_inv s'"
  using res inv by (auto simp: get_key_def get_key_slow_def Let_def intro: intern_key_budget [OF inv r]
      split: option.splits)

text \<open>Through any sequence of calls.\<close>

lemma gets_budget:
  "budget_inv s \<Longrightarrow> list_all (\<lambda>(i, r, sts, par, rt). fits RNAME_MAX r) cs \<Longrightarrow>
     gets (get_at A) cs (s, ts) = Some (s', ts') \<Longrightarrow> budget_inv s'"
proof (induction cs arbitrary: s ts)
  case (Cons c cs)
  obtain i r sts par rt where c: "c = (i, r, sts, par, rt)" by (cases c)
  with Cons.prems(3) obtain k t1 s1 where g: "get_key A r sts par rt (ts i) s = Some (k, t1, s1)"
    "gets (get_at A) cs (s1, ts(i := t1)) = Some (s', ts')"
    by (simp add: get_at_def [of A i "(r, sts, par, rt)"] split: Option.bind_splits) auto
  have "fits RNAME_MAX r" using Cons.prems(2) c by simp
  then have "budget_inv s1" using get_key_budget [OF Cons.prems(1) _ g(1)] by simp
  then show ?case using Cons.IH [OF _ _ g(2)] Cons.prems(2) by simp
qed simp

lemma budget_inv_uses:
  assumes "budget_inv s" and "length (region_keys s) < NREGION_KEYS \<or> r \<in> fst ` set (region_keys s)"
  shows "region_uses (keys s) r \<le> KEYS_PER_REGION"
proof (cases "r \<in> fst ` set (region_keys s)")
  case True
  then obtain n where "(r, n) \<in> set (region_keys s)" by force
  with assms(1) show ?thesis by (auto simp: budget_inv_def)
next
  case False
  with assms have "filter (\<lambda>k. \<not> overflow k \<and> region k = r) (keys s) = []"
    by (auto simp: budget_inv_def filter_empty_conv)
  then show ?thesis by (simp add: region_uses_def)
qed

end
