(* ===== verification/Stats.thy ===== *)
theory Stats
  imports Prelude
begin

text \<open>
  Per-key statistics of \<open>client/drperf.c\<close>: the record \<open>kstats_t\<close> that every thread keeps for
  every key, the updates \<open>close_frame\<close> makes to it, and \<open>merge_stats\<close>, which folds the
  threads' records of a key into one at exit. The abstract side is the list of samples (one per
  closed region instance) and its summary, a commutative monoid.
\<close>

record kstats =
  count :: u64
  incl_sum :: u64
  incl_min :: u64
  incl_max :: u64
  self_sum :: u64
  self_min :: u64
  self_max :: u64
  sys_sum :: u64
  implicit_ends :: u64

definition kstats_zero :: kstats where
  "kstats_zero = \<lparr>count = 0, incl_sum = 0, incl_min = 0, incl_max = 0, self_sum = 0, self_min = 0,
     self_max = 0, sys_sum = 0, implicit_ends = 0\<rparr>"

text \<open>The lazy set-up of the minima in \<open>stats_for\<close>; the array itself starts zeroed.\<close>

definition stats_touch :: "kstats \<Rightarrow> kstats" where
  "stats_touch s = (if count s = 0 \<and> incl_min s = 0
     then s\<lparr>incl_min := - 1, self_min := - 1\<rparr> else s)"

text \<open>What one closed frame contributes.\<close>

record sample =
  s_incl :: u64
  s_self :: u64
  s_sys :: u64
  s_implicit :: bool

definition stats_add :: "sample \<Rightarrow> kstats \<Rightarrow> kstats" where
  "stats_add x s = \<lparr>
     count = count s + 1,
     incl_sum = incl_sum s + s_incl x,
     incl_min = (if s_incl x < incl_min s then s_incl x else incl_min s),
     incl_max = (if incl_max s < s_incl x then s_incl x else incl_max s),
     self_sum = self_sum s + s_self x,
     self_min = (if s_self x < self_min s then s_self x else self_min s),
     self_max = (if self_max s < s_self x then s_self x else self_max s),
     sys_sum = sys_sum s + s_sys x,
     implicit_ends = (if s_implicit x then implicit_ends s + 1 else implicit_ends s)\<rparr>"

subsection \<open>\<open>merge_stats\<close>\<close>

text \<open>The loop over the thread list; a thread without a statistics array, or with no closed
  instance of the key, is skipped.\<close>

definition merge_one :: "kstats \<Rightarrow> kstats option \<Rightarrow> kstats" where
  "merge_one out so = (case so of
     None \<Rightarrow> out
   | Some s \<Rightarrow> if count s = 0 then out else \<lparr>
       count = count out + count s,
       incl_sum = incl_sum out + incl_sum s,
       incl_min = (if incl_min s < incl_min out then incl_min s else incl_min out),
       incl_max = (if incl_max out < incl_max s then incl_max s else incl_max out),
       self_sum = self_sum out + self_sum s,
       self_min = (if self_min s < self_min out then self_min s else self_min out),
       self_max = (if self_max out < self_max s then self_max s else self_max out),
       sys_sum = sys_sum out + sys_sum s,
       implicit_ends = implicit_ends out + implicit_ends s\<rparr>)"

definition merge_stats :: "kstats option list \<Rightarrow> kstats" where
  "merge_stats ss =
     (let out = foldl merge_one (kstats_zero\<lparr>incl_min := - 1, self_min := - 1\<rparr>) ss in
      if count out = 0 then out\<lparr>incl_min := 0, self_min := 0\<rparr> else out)"

subsection \<open>The summary of a list of samples\<close>

definition kneutral :: kstats where
  "kneutral = kstats_zero\<lparr>incl_min := - 1, self_min := - 1\<rparr>"

definition kplus :: "kstats \<Rightarrow> kstats \<Rightarrow> kstats" where
  "kplus a b = \<lparr>
     count = count a + count b,
     incl_sum = incl_sum a + incl_sum b,
     incl_min = min (incl_min a) (incl_min b),
     incl_max = max (incl_max a) (incl_max b),
     self_sum = self_sum a + self_sum b,
     self_min = min (self_min a) (self_min b),
     self_max = max (self_max a) (self_max b),
     sys_sum = sys_sum a + sys_sum b,
     implicit_ends = implicit_ends a + implicit_ends b\<rparr>"

interpretation ksum: comm_monoid_set kplus kneutral
proof
  show "kplus (kplus a b) c = kplus a (kplus b c)" for a b c
    by (simp add: kplus_def add.assoc min.assoc max.assoc)
  show "kplus a b = kplus b a" for a b
    by (simp add: kplus_def add.commute min.commute max.commute)
  show "kplus a kneutral = a" for a
    by (cases a) (simp add: kplus_def kneutral_def kstats_zero_def min_def max_def)
qed

definition summary_of :: "sample \<Rightarrow> kstats" where
  "summary_of x = stats_add x kneutral"

lemma if_min: "(if a < b then a else b) = min a (b :: u64)"
  and if_max: "(if b < a then a else b) = max a (b :: u64)"
  by (simp_all add: min_def max_def not_less order.order_iff_strict) auto

lemma summary_of_eq: "summary_of x = \<lparr>count = 1, incl_sum = s_incl x, incl_min = s_incl x,
    incl_max = s_incl x, self_sum = s_self x, self_min = s_self x, self_max = s_self x,
    sys_sum = s_sys x, implicit_ends = (if s_implicit x then 1 else 0)\<rparr>"
proof -
  have "min y (- 1) = y" "max y 0 = y" for y :: u64
    by (simp_all add: min_absorb1 max_absorb1)
  then show ?thesis
    unfolding summary_of_def stats_add_def if_min if_max
    by (simp add: kneutral_def kstats_zero_def)
qed

lemma kplus_sel [simp]:
  "count (kplus a b) = count a + count b" "incl_sum (kplus a b) = incl_sum a + incl_sum b"
  "incl_min (kplus a b) = min (incl_min a) (incl_min b)"
  "incl_max (kplus a b) = max (incl_max a) (incl_max b)"
  "self_sum (kplus a b) = self_sum a + self_sum b"
  "self_min (kplus a b) = min (self_min a) (self_min b)"
  "self_max (kplus a b) = max (self_max a) (self_max b)"
  by (simp_all add: kplus_def)

lemma kneutral_sel [simp]:
  "count kneutral = 0" "incl_sum kneutral = 0" "self_sum kneutral = 0"
  "incl_min kneutral = - 1" "self_min kneutral = - 1" "incl_max kneutral = 0" "self_max kneutral = 0"
  by (simp_all add: kneutral_def kstats_zero_def)

definition summary :: "sample list \<Rightarrow> kstats" where
  "summary xs = foldr (\<lambda>x. kplus (summary_of x)) xs kneutral"

lemma summary_simps [simp]:
  "summary [] = kneutral" "summary (x # xs) = kplus (summary_of x) (summary xs)"
  by (simp_all add: summary_def)

lemma kplus_neutral [simp]: "kplus kneutral s = s" "kplus s kneutral = s"
  by (simp_all add: ksum.left_neutral ksum.right_neutral)

lemma summary_append: "summary (xs @ ys) = kplus (summary xs) (summary ys)"
  by (induction xs) (simp_all add: ksum.assoc)

lemma stats_add_kplus: "stats_add x s = kplus s (summary_of x)"
  by (simp add: stats_add_def kplus_def summary_of_eq if_min if_max min.commute max.commute)

lemma count_summary: "count (summary xs) = of_nat (length xs)"
  by (induction xs) (simp_all add: summary_of_eq)

lemma self_sum_summary: "self_sum (summary xs) = (\<Sum>x\<leftarrow>xs. s_self x)"
  by (induction xs) (simp_all add: summary_of_eq)

lemma incl_sum_summary: "incl_sum (summary xs) = (\<Sum>x\<leftarrow>xs. s_incl x)"
  by (induction xs) (simp_all add: summary_of_eq)

lemma minmax_summary:
  "x \<in> set xs \<Longrightarrow> incl_min (summary xs) \<le> s_incl x \<and> s_incl x \<le> incl_max (summary xs) \<and>
     self_min (summary xs) \<le> s_self x \<and> s_self x \<le> self_max (summary xs)"
  by (induction xs) (auto simp: summary_of_eq min_le_iff_disj le_max_iff_disj)

lemma incl_min_attained:
  "xs \<noteq> [] \<Longrightarrow> \<exists>x\<in>set xs. incl_min (summary xs) = s_incl x"
proof (induction xs)
  case (Cons x xs)
  then show ?case
    by (cases "xs = []") (auto simp: summary_of_eq min_def)
qed simp

subsection \<open>The stored record refines the summary\<close>

text \<open>A thread's record of a key stands for the samples it has taken: it is all zero while
  untouched, and the summary of the samples afterwards.\<close>

definition stats_rep :: "kstats \<Rightarrow> sample list \<Rightarrow> bool" where
  "stats_rep s xs \<longleftrightarrow> length xs < 2 ^ 64 \<and> (if xs = [] then s = kstats_zero \<or> s = kneutral else s = summary xs)"

lemma count_summary_zero: "length xs < 2 ^ 64 \<Longrightarrow> count (summary xs) = 0 \<longleftrightarrow> xs = []"
  by (simp add: count_summary word_of_nat_eq_0_iff) (auto dest: nat_dvd_not_less)

lemma count_zero_iff: "stats_rep s xs \<Longrightarrow> count s = 0 \<longleftrightarrow> xs = []"
  using count_summary_zero [of xs] by (auto simp: stats_rep_def kstats_zero_def split: if_splits)

lemma stats_touch_rep:
  assumes "stats_rep s xs"
  shows "stats_touch s = summary xs"
proof (cases "xs = []")
  case True
  with assms have "s = kstats_zero \<or> s = kneutral" by (simp add: stats_rep_def)
  with True show ?thesis by (auto simp: stats_touch_def kstats_zero_def kneutral_def)
next
  case False
  with assms have "count s \<noteq> 0" "s = summary xs" by (simp_all add: count_zero_iff) (simp add: stats_rep_def)
  then show ?thesis by (simp add: stats_touch_def)
qed

lemma summary_snoc: "summary (xs @ [x]) = kplus (summary xs) (summary_of x)"
  by (simp add: summary_append)

lemma stats_add_rep:
  assumes "stats_rep s xs" and "length xs + 1 < 2 ^ 64"
  shows "stats_rep (stats_add x (stats_touch s)) (xs @ [x])"
  using assms(2) stats_touch_rep [OF assms(1)]
  by (simp add: stats_rep_def stats_add_kplus summary_snoc del: summary_simps)

lemma merge_one_rep:
  assumes "stats_rep s xs"
  shows "merge_one out (Some s) = kplus out (summary xs)"
proof (cases "xs = []")
  case True
  then show ?thesis using assms by (simp add: merge_one_def count_zero_iff)
next
  case False
  with assms have "count s \<noteq> 0" "s = summary xs" by (simp_all add: count_zero_iff) (simp add: stats_rep_def)
  then show ?thesis
    by (simp add: merge_one_def kplus_def if_min if_max min.commute max.commute)
qed

definition opt_rep :: "kstats option \<Rightarrow> sample list \<Rightarrow> bool" where
  "opt_rep so xs \<longleftrightarrow> (case so of None \<Rightarrow> xs = [] | Some s \<Rightarrow> stats_rep s xs)"

lemma foldl_merge_one:
  "list_all2 opt_rep ss xss \<Longrightarrow> foldl merge_one out ss = kplus out (summary (concat xss))"
proof (induction ss xss arbitrary: out rule: list_all2_induct)
  case Nil
  then show ?case by simp
next
  case (Cons so ss xs xss)
  have "merge_one out so = kplus out (summary xs)"
    using Cons(1) by (cases so) (simp_all add: opt_rep_def merge_one_rep, simp add: merge_one_def)
  then show ?case using Cons(3) by (simp add: summary_append ksum.assoc)
qed

text \<open>Merging the threads' records gives the summary of all samples of all threads, as if one
  thread had taken them; with none at all the minima are reported as 0.\<close>

lemma merge_stats_summary:
  assumes "list_all2 opt_rep ss xss" and "length (concat xss) < 2 ^ 64"
  shows "merge_stats ss = (if concat xss = [] then kstats_zero else summary (concat xss))"
proof -
  have out: "foldl merge_one (kstats_zero\<lparr>incl_min := - 1, self_min := - 1\<rparr>) ss = summary (concat xss)"
    using foldl_merge_one [OF assms(1)] by (simp add: kneutral_def [symmetric])
  show ?thesis
  proof (cases "concat xss = []")
    case True
    then show ?thesis
      unfolding merge_stats_def Let_def out by (simp only: True) (simp add: kneutral_def kstats_zero_def)
  next
    case False
    then show ?thesis
      unfolding merge_stats_def Let_def out
      using count_summary_zero [OF assms(2)] by (simp only: if_False simp_thms)
  qed
qed

end
