(* ===== verification/Client.thy ===== *)
theory Client
  imports KeyContract Stats
begin

text \<open>
  The state of \<open>client/drperf.c\<close> that the marker, thread and system call handlers share:
  frames, trace records and threads as records after the code's structs, and the client state as
  an extension of the key state. A \<open>thread_t *\<close> is the position of the thread in \<open>threads\<close>,
  the order in which threads appeared; the code's linked list runs the other way. The stack of a
  thread is the list of its open frames, outermost first, so \<open>depth\<close> is its length.
\<close>

definition MAX_DEPTH :: nat where "MAX_DEPTH = 64"
definition MAX_STATES :: nat where "MAX_STATES = 40"
definition STATE_VAL_MAX :: nat where "STATE_VAL_MAX = 64"
definition TRACE_CHUNK :: nat where "TRACE_CHUNK = 256"

record state_t =
  st_name :: string
  st_val :: string

record frame =
  f_key :: nat
  f_cur :: carr
  total_at_begin :: u64
  sys_at_begin :: u64
  children_incl :: u64
  seq_begin :: int
  t_begin_us :: u64
  f_states :: "state_t list"

record trace_rec =
  r_key :: nat
  r_seq_begin :: int
  r_seq_end :: int
  r_t_begin_us :: u64
  r_t_end_us :: u64
  clock_begin :: u64
  r_incl :: u64
  r_self :: u64
  r_sys :: u64
  r_implicit :: bool
  r_states :: "state_t list"

record 'h thread = "'h caches" +
  total :: u64                               \<comment> \<open>TLS slot 0\<close>
  cur :: carr                                \<comment> \<open>TLS slot 1\<close>
  followed :: carr
  final_total :: u64
  sys :: u64
  tid :: int
  index :: nat
  alive :: bool
  bb_expanded :: bool
  stack :: "frame list"
  stats :: "(nat \<Rightarrow> kstats) option"
  trace :: "trace_rec list list"             \<comment> \<open>the chunks, oldest first\<close>

record 'h client = "'h keyst" +
  threads :: "'h thread list"
  nthreads_seen :: nat
  shared_key :: "nat option"
  leader :: "nat option"
  seq_counter :: int
  trace_records :: int
  trace_dropped :: int
  unmatched_ends :: int
  depth_overflows :: int
  state_overflows :: int
  marker_seen :: bool

abbreviation thr :: "('h, 'z) client_scheme \<Rightarrow> nat \<Rightarrow> 'h thread" where
  "thr c i \<equiv> threads c ! i"

definition upd_thr :: "nat \<Rightarrow> ('h thread \<Rightarrow> 'h thread) \<Rightarrow> ('h, 'z) client_scheme \<Rightarrow> ('h, 'z) client_scheme" where
  "upd_thr i f c = c\<lparr>threads := upd_nth i f (threads c)\<rparr>"

abbreviation depth :: "'h thread \<Rightarrow> nat" where
  "depth t \<equiv> length (stack t)"

definition upd_last :: "('a \<Rightarrow> 'a) \<Rightarrow> 'a list \<Rightarrow> 'a list" where
  "upd_last f xs = (if xs = [] then [] else butlast xs @ [f (last xs)])"

lemma length_upd_last [simp]: "length (upd_last f xs) = length xs"
  by (simp add: upd_last_def)

lemma upd_last_snoc [simp]: "upd_last f (xs @ [x]) = xs @ [f x]"
  by (simp add: upd_last_def)

lemma upd_last_Nil [simp]: "upd_last f [] = []"
  by (simp add: upd_last_def)

lemma upd_last_eq_Nil [simp]: "upd_last f xs = [] \<longleftrightarrow> xs = []"
  by (simp add: upd_last_def)

subsection \<open>Following the leader\<close>

text \<open>\<open>set_thread_cur\<close>: only the thread itself stores this way.\<close>

definition set_thread_cur :: "nat \<Rightarrow> carr \<Rightarrow> ('h, 'z) client_scheme \<Rightarrow> ('h, 'z) client_scheme" where
  "set_thread_cur i a = upd_thr i (\<lambda>t. t\<lparr>cur := a, followed := a\<rparr>)"

text \<open>\<open>steer_follower\<close>: the compare-and-swap of the leader.\<close>

definition steer_follower :: "nat \<Rightarrow> carr \<Rightarrow> ('h, 'z) client_scheme \<Rightarrow> ('h, 'z) client_scheme" where
  "steer_follower i a = upd_thr i (\<lambda>t. if cur t = followed t then t\<lparr>cur := a, followed := a\<rparr> else t)"

text \<open>The key of the innermost open region of a thread, if it has one.\<close>

definition top_key :: "'h thread \<Rightarrow> nat option" where
  "top_key t = (if stack t = [] then None else Some (f_key (last (stack t))))"

text \<open>The loop of \<open>update_shared\<close> over the thread list.\<close>

fun steer_all :: "('h, 'p) dr_api \<Rightarrow> nat option \<Rightarrow> nat list \<Rightarrow> ('h, 'z) client_scheme \<Rightarrow> ('h, 'z) client_scheme" where
  "steer_all A nk [] c = c"
| "steer_all A nk (i # is) c =
     steer_all A nk is
       (if alive (thr c i) \<and> depth (thr c i) = 0
        then (let (a, c') = slots_for A nk (index (thr c i)) c in steer_follower i a c')
        else c)"

definition update_shared :: "('h, 'p) dr_api \<Rightarrow> nat option \<Rightarrow> ('h, 'z) client_scheme \<Rightarrow> ('h, 'z) client_scheme" where
  "update_shared A self c =
     (if nthreads_seen c \<le> 1 then
        (let l = (case self of None \<Rightarrow> None | Some i \<Rightarrow> if 0 < depth (thr c i) then Some i else None);
             sk = (case l of None \<Rightarrow> None | Some i \<Rightarrow> top_key (thr c i));
             c1 = c\<lparr>leader := l, shared_key := sk\<rparr>
         in case self of
              None \<Rightarrow> c1
            | Some i \<Rightarrow> if depth (thr c i) = 0
                then (let (a, c2) = slots_for A sk (index (thr c i)) c1 in set_thread_cur i a c2)
                else c1)
      else
        (let l1 = (case leader c of None \<Rightarrow> None | Some i \<Rightarrow> if alive (thr c i) then Some i else None);
             l2 = (case l1 of
                     None \<Rightarrow> (case self of None \<Rightarrow> None | Some i \<Rightarrow> if 0 < depth (thr c i) then Some i else None)
                   | Some i \<Rightarrow> Some i);
             nk = (case l2 of None \<Rightarrow> None | Some i \<Rightarrow> top_key (thr c i));
             c1 = c\<lparr>leader := l2\<rparr>
         in if nk \<noteq> shared_key c
            then steer_all A nk (rev [0..<length (threads c)]) (c1\<lparr>shared_key := nk\<rparr>)
            else c1))"

end
