(* ===== verification/Markers.thy ===== *)
theory Markers
  imports Client
begin

text \<open>
  The marker, thread and system call handlers of \<open>client/drperf.c\<close>, each a definition over the
  client state: \<open>trace_append\<close>, \<open>stats_for\<close>, \<open>close_frame\<close>, \<open>begin_common\<close>, \<open>pre_begin\<close>,
  \<open>pre_begin_v\<close>, \<open>pre_end\<close>, \<open>pre_state\<close>, \<open>event_thread_init\<close>, \<open>event_thread_exit\<close>
  and \<open>event_pre_syscall\<close>. A handler runs on the thread \<open>i\<close>; the value of the time stamp
  counter it reads is the argument \<open>now\<close>. \<open>None\<close> is \<open>dr_abort\<close>.
\<close>

subsection \<open>Trace\<close>

definition push_trace :: "trace_rec \<Rightarrow> trace_rec list list \<Rightarrow> trace_rec list list" where
  "push_trace r cs =
     (if cs = [] \<or> length (last cs) = TRACE_CHUNK then cs @ [[r]] else upd_last (\<lambda>c. c @ [r]) cs)"

definition trace_append :: "nat \<Rightarrow> frame \<Rightarrow> int \<Rightarrow> u64 \<Rightarrow> u64 \<Rightarrow> u64 \<Rightarrow> u64 \<Rightarrow> bool
    \<Rightarrow> ('h, 'z) client_scheme \<Rightarrow> ('h, 'z) client_scheme" where
  "trace_append i f seq_end t_end incl self sy implicit c =
     (if opt_trace c \<le> 0 then c
      else if opt_trace c < trace_records c + 1
      then c\<lparr>trace_records := trace_records c + 1, trace_dropped := trace_dropped c + 1\<rparr>
      else upd_thr i (\<lambda>t. t\<lparr>trace := push_trace
             \<lparr>r_key = f_key f, r_seq_begin = seq_begin f, r_seq_end = seq_end,
              r_t_begin_us = t_begin_us f, r_t_end_us = t_end, clock_begin = total_at_begin f,
              r_incl = incl, r_self = self, r_sys = sy, r_implicit = implicit,
              r_states = f_states f\<rparr> (trace t)\<rparr>)
           (c\<lparr>trace_records := trace_records c + 1\<rparr>))"

subsection \<open>Closing a frame\<close>

text \<open>\<open>stats_for\<close>: the thread's statistics array, allocated zeroed at its first use, with the minima of
  the key set up. An index beyond the array is a write out of bounds.\<close>

definition stats_for :: "('h, 'p) dr_api \<Rightarrow> nat \<Rightarrow> nat \<Rightarrow> ('h, 'z) client_scheme \<Rightarrow> ('h, 'z) client_scheme option" where
  "stats_for A k i c =
     (case stats (thr c i) of
        None \<Rightarrow> if stats_alloc A i then Some (\<lambda>_. kstats_zero) else None
      | Some f \<Rightarrow> Some f) \<bind> (\<lambda>f.
     if k < MAX_KEYS
     then Some (upd_thr i (\<lambda>t. t\<lparr>stats := Some (f(k := stats_touch (f k)))\<rparr>) c)
     else None)"

definition stats_upd :: "nat \<Rightarrow> (kstats \<Rightarrow> kstats) \<Rightarrow> 'h thread \<Rightarrow> 'h thread" where
  "stats_upd k g t = t\<lparr>stats := map_option (\<lambda>f. f(k := g (f k))) (stats t)\<rparr>"

definition close_frame :: "('h, 'p) dr_api \<Rightarrow> nat \<Rightarrow> u64 \<Rightarrow> int \<Rightarrow> u64 \<Rightarrow> bool
    \<Rightarrow> ('h, 'z) client_scheme \<Rightarrow> ('h, 'z) client_scheme option" where
  "close_frame A i tot seq_end t_end implicit c =
     (let f = last (stack (thr c i));
          k = f_key f;
          incl = tot - total_at_begin f;
          self = incl - children_incl f;
          sy = sys (thr c i) - sys_at_begin f
      in do {
        c1 \<leftarrow> stats_for A k i c;
        let c2 = upd_thr i (stats_upd k (stats_add
                   \<lparr>s_incl = incl, s_self = self, s_sys = sy, s_implicit = implicit\<rparr>)) c1;
        let c3 = trace_append i f seq_end t_end incl self sy implicit c2;
        Some (upd_thr i (\<lambda>t. t\<lparr>stack := upd_last
                (\<lambda>p. p\<lparr>children_incl := children_incl p + incl\<rparr>) (butlast (stack t))\<rparr>) c3)
      })"

subsection \<open>Opening a region\<close>

definition region_name :: "string option \<Rightarrow> string" where
  "region_name r = (case r of None \<Rightarrow> ''<unnamed>'' | Some s \<Rightarrow> if s = [] then ''<unnamed>'' else s)"

definition begin_common :: "('h, 'p) dr_api \<Rightarrow> nat \<Rightarrow> string option \<Rightarrow> states \<Rightarrow> u64
    \<Rightarrow> ('h, 'z) client_scheme \<Rightarrow> ('h, 'z) client_scheme option" where
  "begin_common A i reg sts now c =
     (let r = region_name reg; c = c\<lparr>marker_seen := True\<rparr>; t = thr c i in
      if MAX_DEPTH \<le> depth t then Some (c\<lparr>depth_overflows := depth_overflows c + 1\<rparr>)
      else
        (let par = (if 0 < depth t then region (keys c ! f_key (last (stack t))) else []);
             rt = (if 0 < depth t then region (keys c ! f_key (hd (stack t))) else [])
         in do {
           (k, t', c1) \<leftarrow> get_key A r sts par rt t c;
           let c2 = upd_thr i (\<lambda>_. t') c1;
           let sq = (if 0 < opt_trace c2 then seq_counter c2 + 1 else 0);
           let c3 = (if 0 < opt_trace c2 then c2\<lparr>seq_counter := seq_counter c2 + 1\<rparr> else c2);
           let (a, c4) = slots_for A (Some k) (index t) c3;
           let f = \<lparr>f_key = k, f_cur = a, total_at_begin = total t, sys_at_begin = sys t,
                    children_incl = 0, seq_begin = sq,
                    t_begin_us = (if 0 < opt_trace c2 then now else 0), f_states = []\<rparr>;
           let c5 = upd_thr i (\<lambda>u. u\<lparr>stack := stack u @ [f]\<rparr>) c4;
           let c6 = set_thread_cur i a c5;
           Some (if leader c6 = None \<or> leader c6 = Some i then update_shared A (Some i) c6 else c6)
         }))"

definition pre_begin :: "('h, 'p) dr_api \<Rightarrow> nat \<Rightarrow> string option \<Rightarrow> string option \<Rightarrow> i64 \<Rightarrow> u64
    \<Rightarrow> ('h, 'z) client_scheme \<Rightarrow> ('h, 'z) client_scheme option" where
  "pre_begin A i reg sname sval now c =
     begin_common A i reg [((case sname of None \<Rightarrow> [] | Some s \<Rightarrow> s), sval)] now c"

text \<open>The arrays that \<open>perfmark_begin_v\<close> passes: \<open>None\<close> is a NULL array; reading an element may
  fault (\<open>None\<close>), and a name may be NULL (\<open>Some None\<close>). The loop stops at the first that
  cannot be read or has no name.\<close>

type_synonym name_array = "(nat \<Rightarrow> string option option) option"
type_synonym value_array = "(nat \<Rightarrow> i64 option) option"

fun read_states :: "name_array \<Rightarrow> value_array \<Rightarrow> nat \<Rightarrow> nat \<Rightarrow> states" where
  "read_states ns vs i 0 = []"
| "read_states ns vs i (Suc n) =
     (case (ns, vs) of
        (Some nf, Some vf) \<Rightarrow> (case (nf i, vf i) of
            (Some (Some nm), Some v) \<Rightarrow> (nm, v) # read_states ns vs (i + 1) n
          | _ \<Rightarrow> [])
      | _ \<Rightarrow> [])"

definition pre_begin_v :: "('h, 'p) dr_api \<Rightarrow> nat \<Rightarrow> string option \<Rightarrow> int \<Rightarrow> name_array \<Rightarrow> value_array \<Rightarrow> u64
    \<Rightarrow> ('h, 'z) client_scheme \<Rightarrow> ('h, 'z) client_scheme option" where
  "pre_begin_v A i reg n ns vs now c =
     (let c1 = (if int KEY_STATES < n then c\<lparr>state_overflows := state_overflows c + 1\<rparr> else c);
          n1 = (if int KEY_STATES < n then int KEY_STATES else n);
          sts = read_states ns vs 0 (nat n1)
      in begin_common A i reg (if sts = [] then [([], 0)] else sts) now c1)"

subsection \<open>Closing regions\<close>

text \<open>The search from the innermost frame outwards; \<open>n\<close> frames are still to be looked at.\<close>

fun find_frame :: "rkey list \<Rightarrow> frame list \<Rightarrow> string \<Rightarrow> nat \<Rightarrow> nat option" where
  "find_frame ks st r 0 = None"
| "find_frame ks st r (Suc i) = (if region (ks ! f_key (st ! i)) = r then Some i else find_frame ks st r i)"

lemma length_threads_upd_thr [simp]: "length (threads (upd_thr i f c)) = length (threads c)"
  by (simp add: upd_thr_def)

lemma upd_thr_beyond: "\<not> i < length (threads c) \<Longrightarrow> upd_thr i f c = c"
  by (simp add: upd_thr_def upd_nth_def list_update_beyond)

lemma thr_upd_thr [simp]: "i < length (threads c) \<Longrightarrow> thr (upd_thr i f c) i = f (thr c i)"
  by (simp add: upd_thr_def)

lemma thr_upd_thr_neq [simp]: "i \<noteq> j \<Longrightarrow> thr (upd_thr i f c) j = thr c j"
  by (simp add: upd_thr_def)

lemma upd_thr_upd_thr [simp]: "upd_thr i f (upd_thr i g c) = upd_thr i (f \<circ> g) c"
  by (simp add: upd_thr_def comp_def)

lemma thr_upd_thr_if:
  "thr (upd_thr i f c) j = (if j = i \<and> i < length (threads c) then f (thr c j) else thr c j)"
  by (cases "i < length (threads c)") (auto simp: upd_thr_beyond thr_upd_thr_neq)

lemma trace_append_threads:
  "length (threads (trace_append i f se te x y z b c)) = length (threads c)"
  "stack (thr (trace_append i f se te x y z b c) j) = stack (thr c j)"
  by (simp_all add: trace_append_def thr_upd_thr_if)

lemma stats_for_threads:
  assumes "stats_for A k i c = Some c1"
  shows "length (threads c1) = length (threads c)" "stack (thr c1 j) = stack (thr c j)"
  using assms by (auto simp: stats_for_def thr_upd_thr_if split: Option.bind_splits if_splits)

text \<open>Closing takes one frame off the stack of its thread, so both closing loops end.\<close>

lemma close_frame_depth:
  assumes "close_frame A i tot se te b c = Some c'" and "i < length (threads c)"
  shows "length (threads c') = length (threads c)" "depth (thr c' i) = depth (thr c i) - 1"
  using assms
  by (auto simp: close_frame_def Let_def trace_append_threads stats_for_threads stats_upd_def
      split: Option.bind_splits)

text \<open>\<open>while (t->depth - 1 > i) close_frame(...)\<close>; the bound is \<open>d = i + 1\<close>. With \<open>d = 0\<close> it
  is the loop of \<open>event_thread_exit\<close>.\<close>

function close_above :: "('h, 'p) dr_api \<Rightarrow> nat \<Rightarrow> u64 \<Rightarrow> int \<Rightarrow> u64 \<Rightarrow> nat
    \<Rightarrow> ('h, 'z) client_scheme \<Rightarrow> ('h, 'z) client_scheme option" where
  "close_above A i tot seq_end t_end d c =
     (if i < length (threads c) \<and> d < depth (thr c i)
      then close_frame A i tot seq_end t_end True c \<bind> close_above A i tot seq_end t_end d
      else Some c)"
  by pat_completeness auto
termination
  by (relation "measure (\<lambda>(A, i, tot, se, te, d, c). depth (thr c i))") (auto simp: close_frame_depth)

declare close_above.simps [simp del]

definition pre_end :: "('h, 'p) dr_api \<Rightarrow> nat \<Rightarrow> string option \<Rightarrow> u64
    \<Rightarrow> ('h, 'z) client_scheme \<Rightarrow> ('h, 'z) client_scheme option" where
  "pre_end A i reg now c =
     (let r = region_name reg; t = thr c i; tot = total t in
      case find_frame (keys c) (stack t) r (depth t) of
        None \<Rightarrow> Some (c\<lparr>unmatched_ends := unmatched_ends c + 1\<rparr>)
      | Some j \<Rightarrow> do {
          let se = (if 0 < opt_trace c then seq_counter c + 1 else 0);
          let te = (if 0 < opt_trace c then now else 0);
          let c1 = (if 0 < opt_trace c then c\<lparr>seq_counter := seq_counter c + 1\<rparr> else c);
          c2 \<leftarrow> close_above A i tot se te (j + 1) c1;
          c3 \<leftarrow> close_frame A i tot se te False c2;
          let c4 = (if 0 < depth (thr c3 i)
                    then set_thread_cur i (f_cur (last (stack (thr c3 i)))) c3
                    else (let (a, c') = slots_for A (shared_key c3) (index (thr c3 i)) c3
                          in set_thread_cur i a c'));
          Some (if leader c4 = Some i then update_shared A (Some i) c4 else c4)
        })"

definition pre_state :: "nat \<Rightarrow> string option \<Rightarrow> string option
    \<Rightarrow> ('h, 'z) client_scheme \<Rightarrow> ('h, 'z) client_scheme" where
  "pre_state i nm v c =
     (let t = thr c i in
      if depth t = 0 then c
      else if MAX_STATES \<le> length (f_states (last (stack t)))
      then c\<lparr>state_overflows := state_overflows c + 1\<rparr>
      else upd_thr i (\<lambda>t. t\<lparr>stack := upd_last (\<lambda>f. f\<lparr>f_states := f_states f @
             [\<lparr>st_name = safe_strcpy nm STATE_NAME_MAX, st_val = safe_strcpy v STATE_VAL_MAX\<rparr>]\<rparr>)
             (stack t)\<rparr>) c)"

subsection \<open>Threads and system calls\<close>

definition new_thread :: "('h, 'p) dr_api \<Rightarrow> int \<Rightarrow> nat \<Rightarrow> 'h thread" where
  "new_thread A tno n = \<lparr>key_cache = ht_new A, fast = (\<lambda>_. (0, None)),
     total = 0, cur = Dummy, followed = Dummy, final_total = 0, sys = 0, tid = tno,
     index = (if n < MAX_THREADS then n else MAX_THREADS - 1),
     alive = True, bb_expanded = False, stack = [], stats = None, trace = []\<rparr>"

definition event_thread_init :: "('h, 'p) dr_api \<Rightarrow> int
    \<Rightarrow> ('h, 'z) client_scheme \<Rightarrow> ('h, 'z) client_scheme option" where
  "event_thread_init A tno c =
     (if \<not> thread_alloc A (nthreads_seen c) then None
      else
        (let i = length (threads c);
             c1 = c\<lparr>threads := threads c @ [new_thread A tno (nthreads_seen c)],
                    nthreads_seen := nthreads_seen c + 1\<rparr>;
             (a, c2) = slots_for A (shared_key c1) (index (thr c1 i)) c1
         in Some (set_thread_cur i a c2)))"

definition event_thread_exit :: "('h, 'p) dr_api \<Rightarrow> nat \<Rightarrow> u64
    \<Rightarrow> ('h, 'z) client_scheme \<Rightarrow> ('h, 'z) client_scheme option" where
  "event_thread_exit A i now c =
     (let tot = total (thr c i); se = seq_counter c + 1 in do {
        c1 \<leftarrow> close_above A i tot se now 0 (c\<lparr>seq_counter := se\<rparr>);
        let c2 = upd_thr i (\<lambda>t. t\<lparr>final_total := tot, alive := False\<rparr>) c1;
        Some (if leader c2 = Some i then update_shared A None c2 else c2)
      })"

definition event_pre_syscall :: "nat \<Rightarrow> ('h, 'z) client_scheme \<Rightarrow> ('h, 'z) client_scheme" where
  "event_pre_syscall i = upd_thr i (\<lambda>t. t\<lparr>sys := sys t + 1\<rparr>)"

end
