(* ===== verification/Control.thy ===== *)
theory Control
  imports Markers
begin

text \<open>
  What every thread counts into. \<open>focus\<close> is the key a thread's blocks are charged to: the key of
  its innermost open region, else the key the leader shares. The control invariant says that
  the counter pointer of every live thread is the array of its focus (or \<open>dummy_slots\<close>, when
  there is no focus or counter memory was denied); this theory states it and the part of it that
  \<open>update_shared\<close> restores.
\<close>

subsection \<open>Counter memory seen from the handlers\<close>

text \<open>A step that is quiet keeps the memory invariant, all counts and every pointer.\<close>

definition quiet :: "'z mem_scheme \<Rightarrow> 'z mem_scheme \<Rightarrow> bool" where
  "quiet m m' \<longleftrightarrow> options.truncate m' = options.truncate m \<and>
     (mem_inv m \<longrightarrow> mem_inv m' \<and> key_count m' = key_count m \<and> all_counts m' = all_counts m) \<and>
     (\<forall>k i a. tslots m k i = Some a \<longrightarrow> tslots m' k i = Some a) \<and>
     counter_denied m \<le> counter_denied m'"

lemma quiet_refl [simp]: "quiet m m"
  by (simp add: quiet_def)

lemma quiet_trans [trans]: "quiet m m' \<Longrightarrow> quiet m' m'' \<Longrightarrow> quiet m m''"
  by (auto simp: quiet_def)

lemma options_slots_for: "options.truncate (snd (slots_for A ko i m)) = options.truncate m"
  by (cases rule: slots_for_cases [of ko A i m]) (simp_all add: options.defs)

lemma quiet_slots_for: "quiet m (snd (slots_for A ko i m))"
  by (auto simp: quiet_def options_slots_for slots_for_inv key_count_slots_for all_counts_slots_for fun_eq_iff
      slots_for_keeps slots_for_denied_mono)

lemma quiet_same:
  assumes "mem.truncate m' = mem.truncate m"
  shows "quiet m m'"
proof -
  have t: "tslots m' = tslots m" "arrays m' = arrays m" "dummy m' = dummy m" "narrays m' = narrays m"
    "counter_bytes m' = counter_bytes m" "counter_denied m' = counter_denied m"
    "opt_max_slots m' = opt_max_slots m" and o: "options.truncate m' = options.truncate m"
    using assms by (simp_all add: mem.defs options.defs)
  have "key_count m' = key_count m" by (intro ext) (simp add: key_count_def t cong: option.case_cong)
  then show ?thesis
    by (simp add: quiet_def o t mem_inv_def opts_ok_def all_counts_def)
qed

text \<open>The pointer \<open>a\<close> is right for the key \<open>ko\<close> and the thread index \<open>j\<close>.\<close>

definition carr_ok :: "'z mem_scheme \<Rightarrow> nat option \<Rightarrow> nat \<Rightarrow> carr \<Rightarrow> bool" where
  "carr_ok m ko j a \<longleftrightarrow> (case a of
     Arr n \<Rightarrow> (\<exists>k. ko = Some k \<and> tslots m k j = Some n)
   | Dummy \<Rightarrow> ko = None \<or> 0 < counter_denied m)"

lemma carr_ok_quiet: "carr_ok m ko j a \<Longrightarrow> quiet m m' \<Longrightarrow> carr_ok m' ko j a"
  by (auto simp: carr_ok_def quiet_def split: carr.splits)

lemma carr_ok_slots_for:
  assumes "slots_for A ko j m = (a, m')" and "0 \<le> counter_denied m"
  shows "carr_ok m' ko j a"
  using assms slots_for_Arr [of A ko j m _ m'] slots_for_denied [of A _ j m m']
  by (cases a; cases ko) (auto simp: carr_ok_def)

lemma carr_ok_None [simp]: "carr_ok m None j Dummy"
  by (simp add: carr_ok_def)

subsection \<open>Threads\<close>

definition focus :: "nat option \<Rightarrow> 'h thread \<Rightarrow> nat option" where
  "focus sk t = (case top_key t of Some k \<Rightarrow> Some k | None \<Rightarrow> sk)"

text \<open>The part of the frames that decides where counts go.\<close>

definition spine :: "'h thread \<Rightarrow> (nat \<times> carr) list" where
  "spine t = map (\<lambda>f. (f_key f, f_cur f)) (stack t)"

lemma length_spine [simp]: "length (spine t) = depth t"
  by (simp add: spine_def)

lemma spine_Nil [simp]: "spine t = [] \<longleftrightarrow> stack t = []"
  by (simp add: spine_def)

lemma top_key_spine: "top_key t = (if spine t = [] then None else Some (fst (last (spine t))))"
  by (simp add: top_key_def spine_def last_map)

lemma top_key_cong: "spine t = spine t' \<Longrightarrow> top_key t = top_key t'"
  by (simp add: top_key_spine)

lemma focus_cong: "spine t = spine t' \<Longrightarrow> focus sk t = focus sk t'"
  by (simp add: focus_def top_key_spine)

definition caches_below :: "('h, 'p) dr_api \<Rightarrow> nat \<Rightarrow> ('h, 'y) caches_scheme \<Rightarrow> bool" where
  "caches_below A n t \<longleftrightarrow> (\<forall>x k. ht_lookup A (key_cache t) x = Some k \<longrightarrow> k < n) \<and>
     (\<forall>h hv k. fast t h = (hv, Some k) \<longrightarrow> k < n)"

definition thr_base :: "('h, 'p) dr_api \<Rightarrow> ('h, 'z) client_scheme \<Rightarrow> 'h thread \<Rightarrow> bool" where
  "thr_base A c t \<longleftrightarrow> followed t = cur t \<and> depth t \<le> MAX_DEPTH \<and> index t < MAX_THREADS \<and>
     (\<not> alive t \<longrightarrow> spine t = []) \<and> caches_below A (length (keys c)) t \<and>
     (\<forall>(k, a) \<in> set (spine t). k < length (keys c) \<and> carr_ok c (Some k) (index t) a)"

definition thr_ok :: "('h, 'p) dr_api \<Rightarrow> ('h, 'z) client_scheme \<Rightarrow> nat option \<Rightarrow> 'h thread \<Rightarrow> bool" where
  "thr_ok A c sk t \<longleftrightarrow> thr_base A c t \<and> (alive t \<longrightarrow> carr_ok c (focus sk t) (index t) (cur t))"

text \<open>The client as a whole, before and after \<open>update_shared\<close>.\<close>

definition keys_below :: "('h, 'p) dr_api \<Rightarrow> ('h, 'z) keyst_scheme \<Rightarrow> bool" where
  "keys_below A s \<longleftrightarrow> (\<forall>x k. ht_lookup A (key_table s) x = Some k \<longrightarrow> k < length (keys s))"

definition base_inv :: "('h, 'p) dr_api \<Rightarrow> ('h, 'z) client_scheme \<Rightarrow> bool" where
  "base_inv A c \<longleftrightarrow> mem_inv c \<and> 0 \<le> counter_denied c \<and> keys_below A c \<and>
     nthreads_seen c = length (threads c) \<and>
     (\<forall>i<length (threads c). index (thr c i) = min i (MAX_THREADS - 1)) \<and>
     (\<forall>l. leader c = Some l \<longrightarrow> l < length (threads c))"

definition threads_ok :: "('h, 'p) dr_api \<Rightarrow> ('h, 'z) client_scheme \<Rightarrow> bool" where
  "threads_ok A c \<longleftrightarrow> (\<forall>t \<in> set (threads c). thr_ok A c (shared_key c) t)"

definition leader_ok :: "('h, 'z) client_scheme \<Rightarrow> bool" where
  "leader_ok c \<longleftrightarrow> (case leader c of
     None \<Rightarrow> shared_key c = None
   | Some l \<Rightarrow> alive (thr c l) \<and> shared_key c = top_key (thr c l))"

definition control_inv :: "('h, 'p) dr_api \<Rightarrow> ('h, 'z) client_scheme \<Rightarrow> bool" where
  "control_inv A c \<longleftrightarrow> base_inv A c \<and> threads_ok A c \<and> leader_ok c"

lemma threads_okI: "(\<And>j. j < length (threads c) \<Longrightarrow> thr_ok A c (shared_key c) (thr c j)) \<Longrightarrow> threads_ok A c"
  by (auto simp: threads_ok_def in_set_conv_nth)

lemma threads_okD: "threads_ok A c \<Longrightarrow> j < length (threads c) \<Longrightarrow> thr_ok A c (shared_key c) (thr c j)"
  by (simp add: threads_ok_def)

text \<open>Quiet growth keeps what is said of a thread.\<close>

lemma caches_below_mono: "caches_below A n t \<Longrightarrow> n \<le> n' \<Longrightarrow> caches_below A n' t"
  by (force simp: caches_below_def)

lemma thr_base_mono:
  assumes "thr_base A c t" "quiet c c'" "length (keys c) \<le> length (keys c')"
  shows "thr_base A c' t"
  using assms carr_ok_quiet [OF _ assms(2)] caches_below_mono [OF _ assms(3)]
  by (auto simp: thr_base_def)

lemma thr_ok_mono:
  "thr_ok A c sk t \<Longrightarrow> quiet c c' \<Longrightarrow> length (keys c) \<le> length (keys c') \<Longrightarrow> thr_ok A c' sk t"
  by (auto simp: thr_ok_def intro: thr_base_mono carr_ok_quiet)

text \<open>A thread with an open region does not look at the shared key.\<close>

lemma thr_ok_open: "thr_ok A c sk t \<Longrightarrow> stack t \<noteq> [] \<Longrightarrow> thr_ok A c sk' t"
  by (simp add: thr_ok_def focus_def top_key_def)

lemma thr_ok_dead: "thr_base A c t \<Longrightarrow> \<not> alive t \<Longrightarrow> thr_ok A c sk t"
  by (simp add: thr_ok_def)

text \<open>Setting the counter pointer to the array of the focus.\<close>

lemma thr_ok_set:
  assumes "thr_base A c t" "carr_ok c (focus sk t) (index t) a"
  shows "thr_ok A c sk (t\<lparr>cur := a, followed := a\<rparr>)"
  using assms
  by (simp add: thr_ok_def thr_base_def spine_def focus_def top_key_def caches_below_def split: if_splits)

end
