(* ===== verification/Sharing.thy ===== *)
theory Sharing
  imports Control
begin

text \<open>
  \<open>update_shared\<close> restores the control invariant: whatever change of the leader or of the leader's
  innermost region led to the call, afterwards every live thread counts into the array of its
  focus. The loop over the followers is \<open>steer_all\<close>, one thread at a time.
\<close>

lemma client_slots_for [simp]:
  fixes m :: "('h, 'z) client_scheme"
  shows "threads (snd (slots_for A ko i m)) = threads m"
    and "keys (snd (slots_for A ko i m)) = keys m"
    and "key_table (snd (slots_for A ko i m)) = key_table m"
    and "region_keys (snd (slots_for A ko i m)) = region_keys m"
    and "nthreads_seen (snd (slots_for A ko i m)) = nthreads_seen m"
    and "shared_key (snd (slots_for A ko i m)) = shared_key m"
    and "leader (snd (slots_for A ko i m)) = leader m"
    and "client.more (snd (slots_for A ko i m)) = client.more m"
  by (cases rule: slots_for_cases [of ko A i m]; simp)+

lemma client_upd_thr [simp]:
  "keys (upd_thr i f c) = keys c" "key_table (upd_thr i f c) = key_table c"
  "region_keys (upd_thr i f c) = region_keys c" "nthreads_seen (upd_thr i f c) = nthreads_seen c"
  "shared_key (upd_thr i f c) = shared_key c" "leader (upd_thr i f c) = leader c"
  "client.more (upd_thr i f c) = client.more c"
  "mem.truncate (upd_thr i f c) = mem.truncate c" "tslots (upd_thr i f c) = tslots c"
  "counter_denied (upd_thr i f c) = counter_denied c" "opt_trace (upd_thr i f c) = opt_trace c"
  by (simp_all add: upd_thr_def mem.defs)

lemma quiet_upd_thr [simp]: "quiet c (upd_thr i f c)"
  by (rule quiet_same) simp

lemma base_inv_slots_for:
  assumes "base_inv A c" and "snd (slots_for A ko i c) = c'"
  shows "base_inv A c' \<and> quiet c c'"
  using assms slots_for_inv [of c A ko i] slots_for_denied_mono [of c A ko i] quiet_slots_for [of c A ko i]
  by (auto simp: base_inv_def keys_below_def)

lemma mem_inv_upd_thr [simp]: "mem_inv (upd_thr i f c) = mem_inv c"
  by (simp add: mem_inv_def opts_ok_def upd_thr_def)

lemma base_inv_upd_thr:
  assumes "base_inv A c" and "\<And>t. index (f t) = index t"
  shows "base_inv A (upd_thr i f c)"
  using assms by (auto simp: base_inv_def keys_below_def thr_upd_thr_if)

text \<open>Setting a thread's own pointer: \<open>set_thread_cur i (slots_for key t)\<close>.\<close>

definition set_own :: "('h, 'p) dr_api \<Rightarrow> nat option \<Rightarrow> nat \<Rightarrow> ('h, 'z) client_scheme \<Rightarrow> ('h, 'z) client_scheme" where
  "set_own A ko i c = (let (a, c') = slots_for A ko (index (thr c i)) c in set_thread_cur i a c')"

lemma set_own_spec:
  assumes base: "base_inv A c" and i: "i < length (threads c)" and t: "thr_base A c (thr c i)"
    and f: "focus sk (thr c i) = ko"
  defines "c' \<equiv> set_own A ko i c"
  shows "base_inv A c'" "quiet c c'" "thr_ok A c' sk (thr c' i)"
    "\<exists>a. thr c' i = (thr c i)\<lparr>cur := a, followed := a\<rparr>" "j \<noteq> i \<Longrightarrow> thr c' j = thr c j"
    "length (threads c') = length (threads c)" "keys c' = keys c" "key_table c' = key_table c"
    "shared_key c' = shared_key c" "leader c' = leader c" "nthreads_seen c' = nthreads_seen c"
    "client.more c' = client.more c"
proof -
  obtain a c1 where s: "slots_for A ko (index (thr c i)) c = (a, c1)" by (cases "slots_for A ko (index (thr c i)) c")
  have c1: "c1 = snd (slots_for A ko (index (thr c i)) c)" by (simp add: s)
  have c': "c' = upd_thr i (\<lambda>t. t\<lparr>cur := a, followed := a\<rparr>) c1"
    by (simp add: c'_def set_own_def s set_thread_cur_def)
  note B = base_inv_slots_for [OF base c1 [symmetric]]
  show "base_inv A c'" using B by (simp add: c' base_inv_upd_thr)
  show q: "quiet c c'" unfolding c' by (rule quiet_trans [OF conjunct2 [OF B] quiet_upd_thr])
  have eqs: "threads c1 = threads c" "keys c1 = keys c" "key_table c1 = key_table c" "shared_key c1 = shared_key c"
    "leader c1 = leader c" "nthreads_seen c1 = nthreads_seen c" "client.more c1 = client.more c"
    by (simp_all add: c1)
  then show "length (threads c') = length (threads c)" "keys c' = keys c" "key_table c' = key_table c"
    "shared_key c' = shared_key c" "leader c' = leader c" "nthreads_seen c' = nthreads_seen c"
    "client.more c' = client.more c" "j \<noteq> i \<Longrightarrow> thr c' j = thr c j" by (simp_all add: c')
  have ti: "thr c' i = (thr c i)\<lparr>cur := a, followed := a\<rparr>" using i by (simp add: c' eqs)
  then show "\<exists>a. thr c' i = (thr c i)\<lparr>cur := a, followed := a\<rparr>" by blast
  have "carr_ok c1 ko (index (thr c i)) a" using carr_ok_slots_for [OF s] base by (simp add: base_inv_def)
  then have "carr_ok c' (focus sk (thr c i)) (index (thr c i)) a"
    unfolding f by (rule carr_ok_quiet) (simp add: c')
  then show "thr_ok A c' sk (thr c' i)"
    unfolding ti using thr_base_mono [OF t q] by (intro thr_ok_set) (simp_all add: c' eqs)
qed

subsection \<open>The loop over the followers\<close>

definition steer_one :: "('h, 'p) dr_api \<Rightarrow> nat option \<Rightarrow> nat \<Rightarrow> ('h, 'z) client_scheme \<Rightarrow> ('h, 'z) client_scheme" where
  "steer_one A nk i c = (if alive (thr c i) \<and> depth (thr c i) = 0
     then (let (a, c') = slots_for A nk (index (thr c i)) c in steer_follower i a c') else c)"

lemma steer_all_Cons: "steer_all A nk (i # is) c = steer_all A nk is (steer_one A nk i c)"
  by (simp add: steer_one_def)

text \<open>A thread whose pointer is the one the leader installed last is steered as if it set its
  pointer itself.\<close>

lemma steer_own:
  assumes "i < length (threads c)" and "followed (thr c i) = cur (thr c i)"
  shows "(let (a, c') = slots_for A nk (index (thr c i)) c in steer_follower i a c') = set_own A nk i c"
proof -
  obtain a c1 where s: "slots_for A nk (index (thr c i)) c = (a, c1)" by (cases "slots_for A nk (index (thr c i)) c")
  have "threads c1 = threads (snd (slots_for A nk (index (thr c i)) c))" by (simp add: s)
  then have "threads c1 = threads c" by simp
  then have "upd_nth i (\<lambda>t. if cur t = followed t then t\<lparr>cur := a, followed := a\<rparr> else t) (threads c1) =
      upd_nth i (\<lambda>t. t\<lparr>cur := a, followed := a\<rparr>) (threads c1)"
    using assms by (simp add: upd_nth_def)
  then show ?thesis by (simp add: set_own_def s steer_follower_def set_thread_cur_def upd_thr_def)
qed

lemma steer_one_spec:
  fixes nk :: "nat option"
  assumes base: "base_inv A c" and i: "i < length (threads c)" and t: "thr_ok A c sk (thr c i)"
  defines "c' \<equiv> steer_one A nk i c"
  shows "base_inv A c'" "quiet c c'" "thr_ok A c' nk (thr c' i)" "j \<noteq> i \<Longrightarrow> thr c' j = thr c j"
    "length (threads c') = length (threads c)" "keys c' = keys c"
    "shared_key c' = shared_key c" "leader c' = leader c"
    "stack (thr c' i) = stack (thr c i)" "alive (thr c' i) = alive (thr c i)"
    "client.more c' = client.more c"
proof -
  have tb: "thr_base A c (thr c i)" using t by (simp add: thr_ok_def)
  have fo: "followed (thr c i) = cur (thr c i)" using tb by (simp add: thr_base_def)
  note all_defs = c'_def steer_one_def
  have "base_inv A c' \<and> quiet c c' \<and> thr_ok A c' nk (thr c' i) \<and> (j \<noteq> i \<longrightarrow> thr c' j = thr c j) \<and>
      length (threads c') = length (threads c) \<and> keys c' = keys c \<and> shared_key c' = shared_key c \<and>
      leader c' = leader c \<and> stack (thr c' i) = stack (thr c i) \<and> alive (thr c' i) = alive (thr c i) \<and>
      client.more c' = client.more c"
  proof (cases "alive (thr c i) \<and> depth (thr c i) = 0")
    case True
    then have c': "c' = set_own A nk i c" by (simp add: all_defs steer_own [OF i fo])
    have f: "focus nk (thr c i) = nk" using True by (simp add: focus_def top_key_def)
    note S = set_own_spec [OF base i tb f, folded c']
    obtain a where "thr c' i = (thr c i)\<lparr>cur := a, followed := a\<rparr>" using S(4) by blast
    then have "stack (thr c' i) = stack (thr c i) \<and> alive (thr c' i) = alive (thr c i)" by simp
    with S(1-3,5-) show ?thesis by blast
  next
    case False
    then have "c' = c" by (auto simp: all_defs)
    with False t show ?thesis using base by (auto intro: thr_ok_open thr_ok_dead simp: tb)
  qed
  then show "base_inv A c'" "quiet c c'" "thr_ok A c' nk (thr c' i)" "j \<noteq> i \<Longrightarrow> thr c' j = thr c j"
    "length (threads c') = length (threads c)" "keys c' = keys c"
    "shared_key c' = shared_key c" "leader c' = leader c"
    "stack (thr c' i) = stack (thr c i)" "alive (thr c' i) = alive (thr c i)"
    "client.more c' = client.more c" by simp_all
qed

text \<open>After the loop every thread is right for the new key; until then the threads that are still to
  come are right for the old one.\<close>

lemma steer_all_spec:
  assumes "base_inv A c" and "distinct is" and "set is \<subseteq> {..<length (threads c)}"
    and "\<forall>j<length (threads c). thr_ok A c (if j \<in> set is then sk else nk) (thr c j)"
  shows "let c' = steer_all A nk is c in
    base_inv A c' \<and> quiet c c' \<and> length (threads c') = length (threads c) \<and> keys c' = keys c \<and>
    shared_key c' = shared_key c \<and> leader c' = leader c \<and> client.more c' = client.more c \<and>
    (\<forall>j<length (threads c). thr_ok A c' nk (thr c' j) \<and> stack (thr c' j) = stack (thr c j) \<and>
       alive (thr c' j) = alive (thr c j))"
  using assms
proof (induction "is" arbitrary: c)
  case Nil
  then show ?case by simp
next
  case (Cons i "is")
  let ?c = "steer_one A nk i c"
  have i: "i < length (threads c)" and t: "thr_ok A c sk (thr c i)" using Cons.prems by auto
  note S = steer_one_spec [OF Cons.prems(1) i t, where nk = nk]
  have "\<forall>j<length (threads ?c). thr_ok A ?c (if j \<in> set is then sk else nk) (thr ?c j)"
  proof (intro allI impI)
    fix j assume "j < length (threads ?c)"
    then have j: "j < length (threads c)" by (simp add: S)
    show "thr_ok A ?c (if j \<in> set is then sk else nk) (thr ?c j)"
    proof (cases "j = i")
      case True
      then show ?thesis using S(3) Cons.prems(2) by simp
    next
      case False
      then have "thr_ok A c (if j \<in> set is then sk else nk) (thr c j)" using Cons.prems(4) j by auto
      then show ?thesis using False S(2) by (auto simp: S(4,6) intro: thr_ok_mono)
    qed
  qed
  from Cons.IH [OF S(1) _ _ this] Cons.prems(2,3)
  have IH: "let c' = steer_all A nk is ?c in
    base_inv A c' \<and> quiet ?c c' \<and> length (threads c') = length (threads c) \<and> keys c' = keys c \<and>
    shared_key c' = shared_key c \<and> leader c' = leader c \<and> client.more c' = client.more c \<and>
    (\<forall>j<length (threads c). thr_ok A c' nk (thr c' j) \<and> stack (thr c' j) = stack (thr ?c j) \<and>
       alive (thr c' j) = alive (thr ?c j))" by (simp add: S)
  moreover have "stack (thr ?c j) = stack (thr c j) \<and> alive (thr ?c j) = alive (thr c j)" for j
    by (cases "j = i") (simp_all add: S)
  ultimately show ?case
    unfolding steer_all_Cons Let_def using quiet_trans [OF S(2)] by auto
qed

subsection \<open>\<open>update_shared\<close>\<close>

text \<open>What a call leaves alone.\<close>

definition shares :: "('h, 'z) client_scheme \<Rightarrow> ('h, 'z) client_scheme \<Rightarrow> bool" where
  "shares c c' \<longleftrightarrow> quiet c c' \<and> length (threads c') = length (threads c) \<and> keys c' = keys c \<and>
     client.more c' = client.more c \<and>
     (\<forall>j<length (threads c). stack (thr c' j) = stack (thr c j) \<and> alive (thr c' j) = alive (thr c j))"

lemma shares_trans: "shares c c' \<Longrightarrow> shares c' c'' \<Longrightarrow> shares c c''"
  by (auto simp: shares_def intro: quiet_trans)

lemma base_inv_leader:
  assumes "base_inv A c" and "\<And>i. l = Some i \<Longrightarrow> i < length (threads c)"
  shows "base_inv A (c\<lparr>leader := l, shared_key := sk\<rparr>)" "base_inv A (c\<lparr>leader := l\<rparr>)"
  using assms by (simp_all add: base_inv_def keys_below_def mem_inv_def opts_ok_def)

lemma quiet_leader [simp]: "quiet c (c\<lparr>leader := l, shared_key := sk\<rparr>)" "quiet c (c\<lparr>leader := l\<rparr>)"
  by (simp_all add: quiet_same mem.defs)

text \<open>While there is one thread only that thread matters.\<close>

lemma update_shared_alone:
  assumes base: "base_inv A c" and ok: "threads_ok A c" and one: "nthreads_seen c \<le> 1"
    and self: "\<And>i. self = Some i \<Longrightarrow> i < length (threads c) \<and> alive (thr c i)"
    and none: "self = None \<Longrightarrow> \<forall>t \<in> set (threads c). \<not> alive t"
  shows "control_inv A (update_shared A self c) \<and> shares c (update_shared A self c)"
proof -
  have len: "length (threads c) \<le> 1" using base one by (simp add: base_inv_def)
  define l where "l = (case self of None \<Rightarrow> None | Some i \<Rightarrow> if 0 < depth (thr c i) then Some i else None)"
  define sk where "sk = (case l of None \<Rightarrow> None | Some i \<Rightarrow> top_key (thr c i))"
  define c1 where "c1 = c\<lparr>leader := l, shared_key := sk\<rparr>"
  have ll: "\<And>i. l = Some i \<Longrightarrow> i < length (threads c)" using self by (auto simp: l_def split: option.splits if_splits)
  have b1: "base_inv A c1" unfolding c1_def by (rule base_inv_leader [OF base ll])
  have eqs: "threads c1 = threads c" "keys c1 = keys c" "leader c1 = l" "shared_key c1 = sk"
    and q1: "quiet c c1" and s1: "shares c c1"
    by (simp_all add: c1_def shares_def)
  have lead: "leader_ok c1" using self by (auto simp: leader_ok_def eqs l_def sk_def split: option.splits if_splits)
  have t1: "thr_base A c1 t" if "t \<in> set (threads c)" for t
    using ok that thr_base_mono [OF _ q1] by (auto simp: threads_ok_def thr_ok_def eqs)
  show ?thesis
  proof (cases self)
    case None
    then have u: "update_shared A self c = c1" using one by (simp add: update_shared_def c1_def sk_def l_def)
    have "threads_ok A c1" using t1 none None by (auto simp: threads_ok_def thr_ok_def eqs)
    with b1 lead s1 show ?thesis by (simp add: u control_inv_def)
  next
    case (Some i)
    then have i: "i < length (threads c)" "alive (thr c i)" using self by auto
    then have j: "j < length (threads c) \<Longrightarrow> j = i" for j using len by auto
    show ?thesis
    proof (cases "depth (thr c i) = 0")
      case False
      then have u: "update_shared A self c = c1"
        using one Some by (simp add: update_shared_def c1_def sk_def l_def)
      have "thr_ok A c1 (shared_key c) (thr c1 i)"
        using threads_okD [OF ok i(1)] thr_ok_mono [OF _ q1] by (simp add: eqs)
      then have "thr_ok A c1 (shared_key c1) (thr c1 i)" by (rule thr_ok_open) (use False in \<open>simp add: eqs\<close>)
      then have "threads_ok A c1" by (auto intro!: threads_okI dest: j simp: eqs)
      with b1 lead s1 show ?thesis by (simp add: u control_inv_def)
    next
      case True
      then have u: "update_shared A self c = set_own A sk i c1"
        using one Some by (simp add: update_shared_def c1_def sk_def l_def set_own_def)
      have i1: "i < length (threads c1)" "thr_base A c1 (thr c1 i)" "focus sk (thr c1 i) = sk"
        using i True t1 by (simp_all add: eqs focus_def top_key_def)
      note S = set_own_spec [OF b1 i1]
      have st: "stack (thr (set_own A sk i c1) m) = stack (thr c1 m) \<and>
          alive (thr (set_own A sk i c1) m) = alive (thr c1 m)" for m
        using S(4) by (cases "m = i") (auto simp: S(5))
      have "threads_ok A (set_own A sk i c1)"
      proof (rule threads_okI)
        fix m assume "m < length (threads (set_own A sk i c1))"
        then have "m = i" using j by (simp add: S eqs)
        then show "thr_ok A (set_own A sk i c1) (shared_key (set_own A sk i c1)) (thr (set_own A sk i c1) m)"
          using S(3) by (simp add: S(9) eqs)
      qed
      moreover have "leader_ok (set_own A sk i c1)"
        using lead st by (simp add: leader_ok_def S top_key_def split: option.splits)
      moreover have "shares c1 (set_own A sk i c1)" using st by (simp add: shares_def S)
      ultimately show ?thesis
        using S(1) shares_trans [OF s1] by (auto simp: u control_inv_def)
    qed
  qed
qed

lemma update_shared_spec:
  assumes base: "base_inv A c" and ok: "threads_ok A c"
    and self: "\<And>i. self = Some i \<Longrightarrow> i < length (threads c) \<and> alive (thr c i)"
    and none: "self = None \<Longrightarrow> length (threads c) \<le> 1 \<Longrightarrow> \<forall>t \<in> set (threads c). \<not> alive t"
  shows "control_inv A (update_shared A self c) \<and> shares c (update_shared A self c)"
proof (cases "nthreads_seen c \<le> 1")
  case True
  then have "length (threads c) \<le> 1" using base by (simp add: base_inv_def)
  then show ?thesis using update_shared_alone [OF base ok True self none] by blast
next
  case False
  define l1 where "l1 = (case leader c of None \<Rightarrow> None | Some i \<Rightarrow> if alive (thr c i) then Some i else None)"
  define l where "l = (case l1 of
    None \<Rightarrow> (case self of None \<Rightarrow> None | Some i \<Rightarrow> if 0 < depth (thr c i) then Some i else None)
  | Some i \<Rightarrow> Some i)"
  define nk where "nk = (case l of None \<Rightarrow> None | Some i \<Rightarrow> top_key (thr c i))"
  define c1 where "c1 = c\<lparr>leader := l\<rparr>"
  have ll: "i < length (threads c) \<and> alive (thr c i)" if "l = Some i" for i
    using that self base by (auto simp: l_def l1_def base_inv_def split: option.splits if_splits)
  have lead: "leader_ok c'" if "leader c' = l" "shared_key c' = nk" "shares c c'" for c' :: "('a, 'c) client_scheme"
    using that ll by (auto simp: leader_ok_def nk_def shares_def top_key_def split: option.splits)
  show ?thesis
  proof (cases "nk = shared_key c")
    case True
    then have u: "update_shared A self c = c1"
      using False by (simp add: update_shared_def c1_def nk_def l_def l1_def)
    have b1: "base_inv A c1" unfolding c1_def using base_inv_leader(2) [OF base] ll by blast
    have s1: "shares c c1" by (simp add: c1_def shares_def)
    have "threads_ok A c1"
      using ok thr_ok_mono [where c = c and c' = c1 and A = A] by (auto simp: threads_ok_def c1_def)
    with b1 s1 lead [of c1] show ?thesis by (simp add: u control_inv_def c1_def True)
  next
    case False': False
    define c2 where "c2 = c1\<lparr>shared_key := nk\<rparr>"
    define js where "js = rev [0..<length (threads c)]"
    have u: "update_shared A self c = steer_all A nk js c2"
      using False False' unfolding update_shared_def Let_def l1_def [symmetric]
      by (simp add: c1_def c2_def nk_def l_def js_def)
    have c2: "c2 = c\<lparr>leader := l, shared_key := nk\<rparr>" by (simp add: c2_def c1_def)
    have b2: "base_inv A c2" unfolding c2 using base_inv_leader(1) [OF base] ll by blast
    have s2: "shares c c2" by (simp add: c2 shares_def)
    have t2: "\<forall>j<length (threads c2). thr_ok A c2 (if j \<in> set js then shared_key c else nk) (thr c2 j)"
      using ok thr_ok_mono [where c = c and c' = c2 and A = A] by (auto simp: threads_ok_def c2 js_def)
    have "distinct js" "set js \<subseteq> {..<length (threads c2)}" by (auto simp: js_def c2)
    note S = steer_all_spec [OF b2 this t2, unfolded Let_def]
    have s3: "shares c (steer_all A nk js c2)"
      by (rule shares_trans [OF s2]) (use S in \<open>simp add: shares_def\<close>)
    moreover have "threads_ok A (steer_all A nk js c2)"
      using S by (intro threads_okI) (simp add: c2)
    ultimately show ?thesis
      using S lead [of "steer_all A nk js c2"] by (simp add: u control_inv_def c2)
  qed
qed

end
