(* ===== verification/Closing.thy ===== *)
theory Closing
  imports Attribution
begin

text \<open>
  Closing frames: the exact effect of \<open>close_frame\<close> on the closing thread and on the rest of the
  state, and what a run of \<open>close_above\<close> leaves of the stack.
\<close>

text \<open>The statistics array a thread writes to.\<close>

definition stats_base :: "'h thread \<Rightarrow> nat \<Rightarrow> kstats" where
  "stats_base t = (case stats t of None \<Rightarrow> (\<lambda>_. kstats_zero) | Some g \<Rightarrow> g)"

definition top_incl :: "u64 \<Rightarrow> 'h thread \<Rightarrow> u64" where
  "top_incl tot t = tot - total_at_begin (last (stack t))"

text \<open>The sample that closing the innermost frame contributes.\<close>

definition top_sample :: "u64 \<Rightarrow> bool \<Rightarrow> 'h thread \<Rightarrow> sample" where
  "top_sample tot implicit t =
     \<lparr>s_incl = top_incl tot t, s_self = top_incl tot t - children_incl (last (stack t)),
      s_sys = sys t - sys_at_begin (last (stack t)), s_implicit = implicit\<rparr>"

definition popped :: "u64 \<Rightarrow> 'h thread \<Rightarrow> frame list" where
  "popped tot t = upd_last (\<lambda>p. p\<lparr>children_incl := children_incl p + top_incl tot t\<rparr>) (butlast (stack t))"

definition closed_stats :: "u64 \<Rightarrow> bool \<Rightarrow> 'h thread \<Rightarrow> nat \<Rightarrow> kstats" where
  "closed_stats tot implicit t = (let k = f_key (last (stack t)) in
     (stats_base t)(k := stats_add (top_sample tot implicit t) (stats_touch (stats_base t k))))"

lemma stats_for_eq:
  assumes "stats_for A k i c = Some c1"
  shows "k < MAX_KEYS \<and> c1 = upd_thr i (\<lambda>t. t\<lparr>stats :=
    Some ((stats_base (thr c i))(k := stats_touch (stats_base (thr c i) k)))\<rparr>) c"
  using assms by (auto simp: stats_for_def stats_base_def split: option.splits if_splits)

lemma trace_append_eq:
  "\<exists>h a d. trace_append i f se te x y z b c =
     upd_thr i (\<lambda>t. t\<lparr>trace := h (trace t)\<rparr>) (c\<lparr>trace_records := a, trace_dropped := d\<rparr>)"
proof -
  have n: "c\<lparr>trace_records := a, trace_dropped := d\<rparr> =
      upd_thr i (\<lambda>t. t\<lparr>trace := id (trace t)\<rparr>) (c\<lparr>trace_records := a, trace_dropped := d\<rparr>)" for a d
    by (simp add: upd_thr_def upd_nth_def)
  consider "opt_trace c \<le> 0" | "0 < opt_trace c" "opt_trace c < trace_records c + 1"
    | "0 < opt_trace c" "\<not> opt_trace c < trace_records c + 1" by linarith
  then show ?thesis
  proof cases
    case 1
    then show ?thesis using n [where a = "trace_records c" and d = "trace_dropped c"]
      by (intro exI [where x = id] exI [where x = "trace_records c"] exI [where x = "trace_dropped c"])
        (simp add: trace_append_def)
  next
    case 2
    then show ?thesis using n [where a = "trace_records c + 1" and d = "trace_dropped c + 1"]
      by (intro exI [where x = id] exI [where x = "trace_records c + 1"] exI [where x = "trace_dropped c + 1"])
        (simp add: trace_append_def)
  next
    case 3
    then show ?thesis
      by (intro exI [where x = "push_trace
             \<lparr>r_key = f_key f, r_seq_begin = seq_begin f, r_seq_end = se,
              r_t_begin_us = t_begin_us f, r_t_end_us = te, clock_begin = total_at_begin f,
              r_incl = x, r_self = y, r_sys = z, r_implicit = b, r_states = f_states f\<rparr>"]
            exI [where x = "trace_records c + 1"] exI [where x = "trace_dropped c"])
        (simp add: trace_append_def)
  qed
qed

lemma upd_thr_cong: "f (thr c i) = g (thr c i) \<Longrightarrow> upd_thr i f c = upd_thr i g c"
  by (simp add: upd_thr_def upd_nth_def)

lemma upd_thr_trace_counts:
  "(upd_thr i f c)\<lparr>trace_records := a, trace_dropped := d\<rparr> =
   upd_thr i f (c\<lparr>trace_records := a, trace_dropped := d\<rparr>)"
  by (simp add: upd_thr_def)

lemma close_frame_eq:
  assumes res: "close_frame A i tot se te b c = Some c'"
  shows "f_key (last (stack (thr c i))) < MAX_KEYS \<and>
    (\<exists>h a d. c' = upd_thr i (\<lambda>t. t\<lparr>stats := Some (closed_stats tot b (thr c i)), trace := h (trace t),
       stack := upd_last (\<lambda>p. p\<lparr>children_incl := children_incl p + top_incl tot (thr c i)\<rparr>)
         (butlast (stack t))\<rparr>) (c\<lparr>trace_records := a, trace_dropped := d\<rparr>))"
proof -
  define f where "f = last (stack (thr c i))"
  define sf where "sf = (\<lambda>t :: 'a thread. t\<lparr>stats :=
    Some ((stats_base (thr c i))(f_key f := stats_touch (stats_base (thr c i) (f_key f))))\<rparr>)"
  define su where "su = stats_upd (f_key f) (stats_add (top_sample tot b (thr c i)) :: kstats \<Rightarrow> kstats) \<circ> sf"
  obtain c1 where c1: "stats_for A (f_key f) i c = Some c1"
    using res by (auto simp: close_frame_def f_def Let_def split: Option.bind_splits)
  note sf = stats_for_eq [OF this, folded sf_def]
  define ta where "ta = trace_append i f se te (top_incl tot (thr c i))
    (top_incl tot (thr c i) - children_incl f) (sys (thr c i) - sys_at_begin f) b (upd_thr i su c)"
  obtain h a d where ta: "ta = upd_thr i (\<lambda>t. t\<lparr>trace := h (trace t)\<rparr>)
      ((upd_thr i su c)\<lparr>trace_records := a, trace_dropped := d\<rparr>)"
    unfolding ta_def using trace_append_eq by blast
  have "c' = upd_thr i (\<lambda>t. t\<lparr>stack := upd_last
      (\<lambda>p. p\<lparr>children_incl := children_incl p + top_incl tot (thr c i)\<rparr>) (butlast (stack t))\<rparr>) ta"
    using res sf unfolding close_frame_def Let_def f_def [symmetric] c1
    by (simp add: ta_def su_def top_sample_def top_incl_def f_def)
  also have "\<dots> = upd_thr i (\<lambda>t. t\<lparr>stats := Some (closed_stats tot b (thr c i)), trace := h (trace t),
       stack := upd_last (\<lambda>p. p\<lparr>children_incl := children_incl p + top_incl tot (thr c i)\<rparr>)
         (butlast (stack t))\<rparr>) (c\<lparr>trace_records := a, trace_dropped := d\<rparr>)"
    unfolding ta upd_thr_trace_counts upd_thr_upd_thr
    by (rule upd_thr_cong) (simp add: su_def sf_def stats_upd_def closed_stats_def f_def Let_def)
  finally show ?thesis using sf by (auto simp: f_def)
qed

lemma close_frame_thr:
  assumes res: "close_frame A i tot se te b c = Some c'" and i: "i < length (threads c)"
  shows "f_key (last (stack (thr c i))) < MAX_KEYS \<and>
    (\<exists>tr. thr c' i = (thr c i)\<lparr>stats := Some (closed_stats tot b (thr c i)), trace := tr,
       stack := popped tot (thr c i)\<rparr>)"
  using close_frame_eq [OF res] i by (auto simp: popped_def upd_thr_def)

lemma spine_popped: "spine (t\<lparr>stack := popped tot u\<rparr>) = butlast (spine u)"
proof (cases "butlast (stack u)" rule: rev_cases)
  case Nil
  then show ?thesis by (simp add: spine_def popped_def map_butlast [symmetric])
next
  case (snoc ys y)
  then show ?thesis by (simp add: spine_def popped_def map_butlast [symmetric])
qed

lemma length_popped [simp]: "length (popped tot t) = depth t - 1"
  by (simp add: popped_def)

lemma close_frame_step:
  assumes res: "close_frame A i tot se te b c = Some c'" and i: "i < length (threads c)"
  shows "own_step i c c' \<and> keys c' = keys c \<and> key_table c' = key_table c \<and>
    ctl (thr c' i) = ctl (thr c i) \<and> spine (thr c' i) = butlast (spine (thr c i)) \<and>
    total (thr c' i) = total (thr c i)"
proof -
  obtain tr where t: "thr c' i = (thr c i)\<lparr>stats := Some (closed_stats tot b (thr c i)), trace := tr,
       stack := popped tot (thr c i)\<rparr>"
    using close_frame_thr [OF res i] by blast
  have sp: "spine (thr c' i) = butlast (spine (thr c i))"
    using spine_popped [where t = "(thr c i)\<lparr>stats := Some (closed_stats tot b (thr c i)), trace := tr\<rparr>"
      and tot = tot and u = "thr c i"]
    by (simp add: t)
  obtain f a d where c': "c' = upd_thr i f (c\<lparr>trace_records := a, trace_dropped := d\<rparr>)"
    using close_frame_eq [OF res] by blast
  have q: "quiet c c'" by (rule quiet_same) (simp add: c' mem.defs upd_thr_def)
  have "keys c' = keys c" "shared_key c' = shared_key c" "leader c' = leader c"
    "key_table c' = key_table c" "nthreads_seen c' = nthreads_seen c" "length (threads c') = length (threads c)"
    "client.more c' = client.more c" "\<forall>j. j \<noteq> i \<longrightarrow> thr c' j = thr c j"
    by (simp_all add: c')
  moreover have "ctl (thr c' i) = ctl (thr c i)" "total (thr c' i) = total (thr c i)"
    "index (thr c' i) = index (thr c i)" by (simp_all add: t ctl_def)
  ultimately show ?thesis
    using sp q by (simp add: own_step_def)
qed

text \<open>The loop: the frames that are left are the outermost \<open>d\<close>.\<close>

lemma close_above_step:
  assumes "close_above A i tot se te d c = Some c'" and "i < length (threads c)"
  shows "own_step i c c' \<and> keys c' = keys c \<and> key_table c' = key_table c \<and>
    ctl (thr c' i) = ctl (thr c i) \<and> spine (thr c' i) = take d (spine (thr c i)) \<and>
    total (thr c' i) = total (thr c i)"
  using assms
proof (induction A i tot se te d c arbitrary: c' rule: close_above.induct)
  case (1 A i tot se te d c)
  show ?case
  proof (cases "d < depth (thr c i)")
    case False
    with "1.prems" show ?thesis by (simp add: close_above.simps [of A i tot se te d c])
  next
    case True
    then obtain c1 where c1: "close_frame A i tot se te True c = Some c1" "close_above A i tot se te d c1 = Some c'"
      using "1.prems" by (subst (asm) close_above.simps) (auto split: Option.bind_splits)
    note S = close_frame_step [OF c1(1) "1.prems"(2)]
    have len: "i < length (threads c1)" using S "1.prems"(2) by (simp add: own_step_def)
    note IH = "1.IH" [OF conjI [OF "1.prems"(2) True] c1 len]
    have "take d (butlast (spine (thr c i))) = take d (spine (thr c i))"
      using True by (simp add: take_butlast)
    with IH S own_step_trans [of i c c1 c'] show ?thesis by auto
  qed
qed

end
