(* ===== verification/Handlers.thy ===== *)
theory Handlers
  imports Closing
begin

text \<open>
  The marker, thread and system call handlers keep the control invariant, change no count and only
  add keys (\<open>calm\<close>).
\<close>

definition calm :: "('h, 'z) client_scheme \<Rightarrow> ('h, 'z) client_scheme \<Rightarrow> bool" where
  "calm c c' \<longleftrightarrow> quiet c c' \<and> client.more c' = client.more c \<and> (\<exists>ks. keys c' = keys c @ ks)"

lemma calm_refl [simp]: "calm c c"
  by (simp add: calm_def)

lemma calm_trans: "calm c c' \<Longrightarrow> calm c' c'' \<Longrightarrow> calm c c''"
  by (auto simp: calm_def intro: quiet_trans)

lemma own_step_calm: "own_step i c c' \<Longrightarrow> calm c c'"
  by (simp add: own_step_def calm_def)

lemma shares_calm: "shares c c' \<Longrightarrow> calm c c'"
  by (simp add: shares_def calm_def)

text \<open>Fields that nothing of this reads.\<close>

lemma control_inv_cong:
  fixes c c' :: "('h, 'z) client_scheme"
  assumes "mem.truncate c' = mem.truncate c" "keys c' = keys c" "key_table c' = key_table c"
    "threads c' = threads c" "nthreads_seen c' = nthreads_seen c" "shared_key c' = shared_key c"
    "leader c' = leader c"
    and inv: "control_inv A c"
  shows "control_inv A c'"
proof -
  have q: "quiet c c'" by (rule quiet_same) (rule assms(1))
  have d: "counter_denied c' = counter_denied c" using assms(1) by (simp add: mem.defs)
  have "base_inv A c'"
    using inv q assms d by (simp add: control_inv_def base_inv_def quiet_def keys_below_def)
  moreover have "thr_ok A c' sk t" if "thr_ok A c sk t" for sk t
    using thr_ok_mono [OF that q] assms by simp
  then have "threads_ok A c'"
    using inv assms by (simp add: control_inv_def threads_ok_def)
  ultimately show ?thesis
    using inv assms by (simp add: control_inv_def leader_ok_def split: option.splits)
qed

lemma control_inv_marks [simp]:
  "control_inv A c \<Longrightarrow> control_inv A (c\<lparr>marker_seen := b\<rparr>)"
  "control_inv A c \<Longrightarrow> control_inv A (c\<lparr>seq_counter := n\<rparr>)"
  "control_inv A c \<Longrightarrow> control_inv A (c\<lparr>unmatched_ends := n\<rparr>)"
  "control_inv A c \<Longrightarrow> control_inv A (c\<lparr>depth_overflows := n\<rparr>)"
  "control_inv A c \<Longrightarrow> control_inv A (c\<lparr>state_overflows := n\<rparr>)"
  by (erule control_inv_cong [rotated -1]; simp add: mem.defs)+

lemma calm_from:
  assumes "mem.truncate c0 = mem.truncate c" "keys c0 = keys c" "client.more c0 = client.more c"
  shows "calm c0 c' = calm c c'"
proof -
  have "calm c c0" "calm c0 c" using assms by (simp_all add: calm_def quiet_same)
  then show ?thesis by (blast intro: calm_trans)
qed

lemma calm_marks [simp]:
  "calm (c\<lparr>marker_seen := b\<rparr>) c' = calm c c'" "calm (c\<lparr>seq_counter := n\<rparr>) c' = calm c c'"
  "calm c (c\<lparr>unmatched_ends := n\<rparr>)" "calm c (c\<lparr>depth_overflows := n\<rparr>)"
  "calm (c\<lparr>state_overflows := n\<rparr>) c' = calm c c'" "calm c (c\<lparr>state_overflows := n\<rparr>)"
  by (rule calm_from; simp add: mem.defs) (rule calm_from; simp add: mem.defs | simp add: calm_def quiet_same mem.defs)+

text \<open>The control invariant after a step of one thread that cannot have been the leader, or that
  \<open>update_shared\<close> follows.\<close>

lemma leader_ok_own:
  assumes "own_step i c c'" "leader_ok c" "leader c \<noteq> Some i"
  shows "leader_ok c'"
  using assms by (auto simp: leader_ok_def own_step_def split: option.splits)

lemma control_inv_then_share:
  assumes s: "own_step i c c'" and inv: "control_inv A c" and b: "keys_below A c'"
    and i: "i < length (threads c)" "alive (thr c' i)" and t: "thr_ok A c' (shared_key c) (thr c' i)"
    and p: "leader c' = Some i \<longrightarrow> P"
  shows "control_inv A (if P then update_shared A (Some i) c' else c') \<and>
    calm c (if P then update_shared A (Some i) c' else c')"
proof -
  have base: "base_inv A c'" using inv own_step_base [OF s _ b] by (simp add: control_inv_def)
  have ok: "threads_ok A c'" using inv own_step_threads_ok [OF s _ t] by (simp add: control_inv_def)
  show ?thesis
  proof (cases P)
    case True
    have len: "length (threads c') = length (threads c)" using s by (simp add: own_step_def)
    have "control_inv A (update_shared A (Some i) c') \<and> shares c' (update_shared A (Some i) c')"
      by (rule update_shared_spec [OF base ok]) (use i len in auto)
    then show ?thesis using True calm_trans [OF own_step_calm [OF s]] shares_calm by auto
  next
    case False
    then have "leader c \<noteq> Some i" using p s by (auto simp: own_step_def)
    then have "leader_ok c'" using inv leader_ok_own [OF s] by (simp add: control_inv_def)
    with False base ok own_step_calm [OF s] show ?thesis by (simp add: control_inv_def)
  qed
qed

subsection \<open>\<open>begin_common\<close>\<close>

text \<open>The state in which \<open>begin_common\<close> decides whether to call \<open>update_shared\<close>.\<close>

definition begun :: "('h, 'p) dr_api \<Rightarrow> nat \<Rightarrow> nat \<Rightarrow> u64 \<Rightarrow> 'h thread \<Rightarrow> ('h, 'z) client_scheme \<Rightarrow> ('h, 'z) client_scheme" where
  "begun A i k now t' c1 =
     (let c3 = (if 0 < opt_trace c1 then c1\<lparr>seq_counter := seq_counter c1 + 1\<rparr> else c1);
          (a, c4) = slots_for A (Some k) (index t') (upd_thr i (\<lambda>_. t') c3)
      in upd_thr i (\<lambda>u. t'\<lparr>stack := stack t' @ [\<lparr>f_key = k, f_cur = a, total_at_begin = total t',
             sys_at_begin = sys t', children_incl = 0,
             seq_begin = (if 0 < opt_trace c1 then seq_counter c1 + 1 else 0),
             t_begin_us = (if 0 < opt_trace c1 then now else 0), f_states = []\<rparr>],
           cur := a, followed := a\<rparr>) c4)"

definition begin_call :: "('h, 'z) client_scheme \<Rightarrow> nat \<Rightarrow> string \<times> string" where
  "begin_call c i =
     (if 0 < depth (thr c i) then region (keys c ! f_key (last (stack (thr c i)))) else [],
      if 0 < depth (thr c i) then region (keys c ! f_key (hd (stack (thr c i)))) else [])"

lemma same_keyst_client:
  assumes "same_keyst c c1"
  shows "threads c1 = threads c" "leader c1 = leader c" "shared_key c1 = shared_key c"
    "nthreads_seen c1 = nthreads_seen c" "opt_trace c1 = opt_trace c" "seq_counter c1 = seq_counter c"
    "mem.truncate c1 = mem.truncate c" "client.more c1 = client.more c"
proof -
  note h = assms [unfolded same_keyst_def]
  show "threads c1 = threads c" "leader c1 = leader c" "shared_key c1 = shared_key c"
    "nthreads_seen c1 = nthreads_seen c" "opt_trace c1 = opt_trace c" "seq_counter c1 = seq_counter c"
    "client.more c1 = client.more c"
    using arg_cong [OF h, of threads] arg_cong [OF h, of leader] arg_cong [OF h, of shared_key]
      arg_cong [OF h, of nthreads_seen] arg_cong [OF h, of opt_trace] arg_cong [OF h, of seq_counter]
      arg_cong [OF h, of client.more]
    by simp_all
  show "mem.truncate c1 = mem.truncate c"
    using arg_cong [OF h, of mem.truncate] by (simp add: mem.defs)
qed

lemma same_caches_thread:
  assumes "same_caches t t'"
  shows "stack t' = stack t" "index t' = index t" "total t' = total t" "sys t' = sys t"
    "alive t' = alive t" "cur t' = cur t" "followed t' = followed t" "stats t' = stats t"
proof -
  note h = assms [unfolded same_caches_def]
  show "stack t' = stack t" "index t' = index t" "total t' = total t" "sys t' = sys t"
    "alive t' = alive t" "cur t' = cur t" "followed t' = followed t" "stats t' = stats t"
    using arg_cong [OF h, of stack] arg_cong [OF h, of index] arg_cong [OF h, of total] arg_cong [OF h, of sys]
      arg_cong [OF h, of alive] arg_cong [OF h, of cur] arg_cong [OF h, of followed] arg_cong [OF h, of stats]
    by simp_all
qed

lemma begin_common_eq:
  assumes res: "begin_common A i reg sts now c = Some c'" and i: "i < length (threads c)"
    and d: "depth (thr c i) < MAX_DEPTH"
  obtains k t' c1 where
    "get_key A (region_name reg) sts (fst (begin_call c i)) (snd (begin_call c i)) (thr c i)
       (c\<lparr>marker_seen := True\<rparr>) = Some (k, t', c1)"
    "same_keyst (c\<lparr>marker_seen := True\<rparr>) c1" "same_caches (thr c i) t'"
    "c' = (let c6 = begun A i k now t' c1 in
       if leader c1 = None \<or> leader c1 = Some i then update_shared A (Some i) c6 else c6)"
proof -
  let ?c = "c\<lparr>marker_seen := True\<rparr>"
  have "\<not> MAX_DEPTH \<le> depth (thr c i)" using d by simp
  with res obtain k t' c1 where gk: "get_key A (region_name reg) sts (fst (begin_call c i)) (snd (begin_call c i))
      (thr c i) ?c = Some (k, t', c1)"
    unfolding begin_common_def Let_def by (auto simp: begin_call_def split: Option.bind_splits if_splits)
  note same = get_key_same [OF gk]
  then have ct: "leader c1 = leader c" "stack t' = stack (thr c i)" "index t' = index (thr c i)"
      "total t' = total (thr c i)" "sys t' = sys (thr c i)" "threads c1 = threads c"
    using same_keyst_client [OF conjunct1 [OF same]] same_caches_thread [OF conjunct2 [OF same]]
    by simp_all
  show thesis
  proof (rule that [OF gk conjunct1 [OF same] conjunct2 [OF same]])
    define c3 where "c3 = (if 0 < opt_trace c1 then c1\<lparr>seq_counter := seq_counter c1 + 1\<rparr> else c1)"
    have c3: "(if 0 < opt_trace c1 then (upd_thr i (\<lambda>_. t') c1)\<lparr>seq_counter := seq_counter c1 + 1\<rparr>
        else upd_thr i (\<lambda>_. t') c1) = upd_thr i (\<lambda>_. t') c3" by (simp add: c3_def upd_thr_def)
    obtain a c4 where s: "slots_for A (Some k) (index (thr c i)) (upd_thr i (\<lambda>_. t') c3) = (a, c4)"
      by (cases "slots_for A (Some k) (index (thr c i)) (upd_thr i (\<lambda>_. t') c3)")
    have sq: "seq_counter (upd_thr i (\<lambda>_. t') c1) = seq_counter c1" by (simp add: upd_thr_def)
    have c4: "c4 = snd (slots_for A (Some k) (index (thr c i)) (upd_thr i (\<lambda>_. t') c3))" by (simp add: s)
    then have t4: "thr c4 i = t'" "leader c4 = leader c" using i by (simp_all add: c3_def ct)
    define f where "f = \<lparr>f_key = k, f_cur = a, total_at_begin = total (thr c i),
      sys_at_begin = sys (thr c i), children_incl = 0,
      seq_begin = (if 0 < opt_trace c1 then seq_counter c1 + 1 else 0),
      t_begin_us = (if 0 < opt_trace c1 then now else 0), f_states = []\<rparr>"
    have b: "begun A i k now t' c1 =
        set_thread_cur i a (upd_thr i (\<lambda>u. u\<lparr>stack := stack u @ [f]\<rparr>) c4)"
      unfolding begun_def Let_def c3_def [symmetric] ct s prod.case set_thread_cur_def upd_thr_upd_thr f_def [symmetric]
      by (rule upd_thr_cong) (simp add: t4 ct)
    have lb: "leader (begun A i k now t' c1) = leader c1"
      by (simp add: b set_thread_cur_def t4 ct)
    show "c' = (let c6 = begun A i k now t' c1 in
       if leader c1 = None \<or> leader c1 = Some i then update_shared A (Some i) c6 else c6)"
      using res d gk
      unfolding begin_common_def Let_def begin_call_def fst_conv snd_conv lb [symmetric] b
      by (simp add: c3 sq s f_def cong: if_cong)
  qed
qed

text \<open>The steps of \<open>begun\<close>: the caches and the key list grow, counter memory may get an array, the
  frame is pushed and the pointer set.\<close>

lemma begun_spec:
  fixes now :: u64
  assumes inv: "control_inv A c" and laws: "ht_laws A" and i: "i < length (threads c)" "alive (thr c i)"
    and d: "depth (thr c i) < MAX_DEPTH"
    and gk: "get_key A r sts par rt (thr c i) c = Some (k, t', c1)"
  defines "c6 \<equiv> begun A i k now t' c1"
  shows "own_step i c c6 \<and> keys_below A c6 \<and> alive (thr c6 i) \<and> keys c6 = keys c1 \<and> k < length (keys c6) \<and>
    thr_ok A c6 (shared_key c) (thr c6 i) \<and> (\<exists>a. spine (thr c6 i) = spine (thr c i) @ [(k, a)]) \<and>
    (\<exists>f. thr c6 i = t'\<lparr>stack := stack (thr c i) @ [f], cur := f_cur f, followed := f_cur f\<rparr> \<and> f_key f = k \<and>
       total_at_begin f = total (thr c i) \<and> children_incl f = 0 \<and> f_states f = [])"
proof -
  have base: "base_inv A c" and tb: "thr_base A c (thr c i)"
    using inv i by (auto simp: control_inv_def thr_ok_def dest: threads_okD)
  have kb: "keys_below A c" "caches_below A (length (keys c)) (thr c i)"
    using base tb by (simp_all add: base_inv_def thr_base_def)
  note G = get_key_below [OF laws kb gk]
  note same = get_key_same [OF gk]
  note sc = same_keyst_client [OF conjunct1 [OF same]] and st = same_caches_thread [OF conjunct2 [OF same]]
  define c2 where "c2 = upd_thr i (\<lambda>_. t') (if 0 < opt_trace c1 then c1\<lparr>seq_counter := seq_counter c1 + 1\<rparr> else c1)"
  obtain a c4 where s: "slots_for A (Some k) (index t') c2 = (a, c4)" by (cases "slots_for A (Some k) (index t') c2")
  have c4: "c4 = snd (slots_for A (Some k) (index t') c2)" by (simp add: s)
  define f where "f = \<lparr>f_key = k, f_cur = a, total_at_begin = total t', sys_at_begin = sys t', children_incl = 0,
     seq_begin = (if 0 < opt_trace c1 then seq_counter c1 + 1 else 0),
     t_begin_us = (if 0 < opt_trace c1 then now else 0), f_states = []\<rparr>"
  define u where "u = t'\<lparr>stack := stack t' @ [f], cur := a, followed := a\<rparr>"
  have c6: "c6 = upd_thr i (\<lambda>_. u) c4"
    by (simp add: c6_def begun_def Let_def c2_def [symmetric] s f_def [symmetric] u_def)
  have th2: "threads c2 = upd_nth i (\<lambda>_. t') (threads c)" by (simp add: c2_def upd_thr_def sc)
  have e2: "keys c2 = keys c1" "key_table c2 = key_table c1" "shared_key c2 = shared_key c" "leader c2 = leader c"
    "nthreads_seen c2 = nthreads_seen c" "client.more c2 = client.more c" by (simp_all add: c2_def sc)
  have e6: "keys c6 = keys c1" "key_table c6 = key_table c1" "shared_key c6 = shared_key c" "leader c6 = leader c"
    "nthreads_seen c6 = nthreads_seen c" "length (threads c6) = length (threads c)" "thr c6 i = u"
    "client.more c6 = client.more c" "\<And>j. j \<noteq> i \<Longrightarrow> thr c6 j = thr c j"
    using i by (simp_all add: c6 c4 e2 th2)
  have "mem.truncate c2 = mem.truncate c1" by (simp add: c2_def upd_thr_def mem.defs)
  then have q2: "quiet c c2" by (intro quiet_same) (simp add: sc)
  have d2: "0 \<le> counter_denied c2" using q2 base by (simp add: quiet_def base_inv_def)
  have q24: "quiet c2 c4" unfolding c4 by (rule quiet_slots_for)
  have q4: "quiet c c4" by (rule quiet_trans [OF q2 q24])
  have q6: "quiet c c6" unfolding c6 by (rule quiet_trans [OF q4 quiet_upd_thr])
  have own: "own_step i c c6" using q6 e6 G by (simp add: own_step_def u_def st)
  have kb6: "keys_below A c6" using G by (simp add: keys_below_def e6)
  have lk: "length (keys c) \<le> length (keys c6)" using G by (auto simp: e6)
  have tb6: "thr_base A c6 (thr c i)" by (rule thr_base_mono [OF tb q6 lk])
  have a6: "carr_ok c6 (Some k) (index (thr c i)) a"
    using carr_ok_slots_for [OF s d2] by (auto simp: c6 st intro: carr_ok_quiet)
  have sp: "spine u = spine (thr c i) @ [(k, a)]" by (simp add: u_def spine_def st f_def)
  have "caches_below A (length (keys c6)) u" using G by (simp add: u_def caches_below_def e6)
  then have "thr_base A c6 u"
    using tb6 a6 sp d i G by (auto simp: thr_base_def u_def st e6)
  moreover have "focus (shared_key c) u = Some k" by (simp add: focus_def top_key_spine sp)
  ultimately have "thr_ok A c6 (shared_key c) u" using a6 by (simp add: thr_ok_def u_def st)
  moreover have "u = t'\<lparr>stack := stack (thr c i) @ [f], cur := f_cur f, followed := f_cur f\<rparr> \<and> f_key f = k \<and>
       total_at_begin f = total (thr c i) \<and> children_incl f = 0 \<and> f_states f = []"
    by (simp add: u_def st f_def)
  ultimately show ?thesis
    using own kb6 e6 sp i G by (auto simp: u_def st)
qed

lemma begin_common_control:
  assumes inv: "control_inv A c" and laws: "ht_laws A" and i: "i < length (threads c)" "alive (thr c i)"
    and res: "begin_common A i reg sts now c = Some c'"
  shows "control_inv A c' \<and> calm c c'"
proof (cases "depth (thr c i) < MAX_DEPTH")
  case False
  then have "c' = c\<lparr>marker_seen := True, depth_overflows := depth_overflows c + 1\<rparr>"
    using res by (simp add: begin_common_def Let_def)
  with inv show ?thesis by (simp add: calm_def quiet_same mem.defs)
next
  case True
  let ?c = "c\<lparr>marker_seen := True\<rparr>"
  obtain k t' c1 where
    gk: "get_key A (region_name reg) sts (fst (begin_call c i)) (snd (begin_call c i)) (thr c i) ?c = Some (k, t', c1)"
    and same: "same_keyst ?c c1" "same_caches (thr c i) t'"
    and c': "c' = (let c6 = begun A i k now t' c1 in
       if leader c1 = None \<or> leader c1 = Some i then update_shared A (Some i) c6 else c6)"
    by (rule begin_common_eq [OF res i(1) True])
  have "control_inv A ?c" "i < length (threads ?c)" "alive (thr ?c i)" "depth (thr ?c i) < MAX_DEPTH"
    using inv i True by simp_all
  note B = begun_spec [OF this(1) laws this(2-4), of "region_name reg" sts, simplified, OF gk, of now, simplified]
  have "control_inv A c' \<and> calm ?c c'"
    unfolding c' Let_def
    by (rule control_inv_then_share [of i]) (use B i inv same_keyst_client(2) [OF same(1)] in \<open>auto simp: own_step_def\<close>)
  then show ?thesis by simp
qed

subsection \<open>\<open>pre_end\<close>\<close>

lemma find_frame_Some:
  assumes "find_frame ks st r n = Some j"
  shows "j < n \<and> region (ks ! f_key (st ! j)) = r \<and> (\<forall>m. j < m \<longrightarrow> m < n \<longrightarrow> region (ks ! f_key (st ! m)) \<noteq> r)"
  using assms by (induction ks st r n rule: find_frame.induct) (auto simp: less_Suc_eq split: if_splits)

lemma find_frame_None: "find_frame ks st r n = None \<longleftrightarrow> (\<forall>m<n. region (ks ! f_key (st ! m)) \<noteq> r)"
  by (induction ks st r n rule: find_frame.induct) (auto simp: less_Suc_eq)

lemma set_own_step:
  assumes base: "base_inv A c" and i: "i < length (threads c)" and t: "thr_base A c (thr c i)"
    and f: "focus sk (thr c i) = ko"
  defines "c' \<equiv> set_own A ko i c"
  shows "own_step i c c' \<and> base_inv A c' \<and> thr_ok A c' sk (thr c' i) \<and> alive (thr c' i) = alive (thr c i) \<and>
    stack (thr c' i) = stack (thr c i)"
proof -
  note S = set_own_spec [OF base i t f, folded c'_def]
  obtain a where "thr c' i = (thr c i)\<lparr>cur := a, followed := a\<rparr>" using S(4) by blast
  then have "index (thr c' i) = index (thr c i) \<and> alive (thr c' i) = alive (thr c i) \<and>
    stack (thr c' i) = stack (thr c i)" by simp
  with S show ?thesis by (simp add: own_step_def)
qed

text \<open>The pointer a thread installs when frames were closed: the one of the frame that is innermost
  now, or the one of the shared key.\<close>

definition reinstall :: "('h, 'p) dr_api \<Rightarrow> nat \<Rightarrow> ('h, 'z) client_scheme \<Rightarrow> ('h, 'z) client_scheme" where
  "reinstall A i c = (if 0 < depth (thr c i) then set_thread_cur i (f_cur (last (stack (thr c i)))) c
     else set_own A (shared_key c) i c)"

lemma reinstall_step:
  assumes base: "base_inv A c" and i: "i < length (threads c)" and t: "thr_base A c (thr c i)"
  defines "c' \<equiv> reinstall A i c"
  shows "own_step i c c' \<and> base_inv A c' \<and> thr_ok A c' (shared_key c) (thr c' i) \<and>
    alive (thr c' i) = alive (thr c i) \<and> stack (thr c' i) = stack (thr c i)"
proof (cases "stack (thr c i) = []")
  case True
  then have f: "focus (shared_key c) (thr c i) = shared_key c" by (simp add: focus_def top_key_def)
  have "c' = set_own A (shared_key c) i c" using True by (simp add: c'_def reinstall_def)
  with set_own_step [OF base i t f] show ?thesis by simp
next
  case False
  define a where "a = f_cur (last (stack (thr c i)))"
  have c': "c' = upd_thr i (\<lambda>t. t\<lparr>cur := a, followed := a\<rparr>) c"
    using False by (simp add: c'_def reinstall_def a_def set_thread_cur_def)
  have "last (spine (thr c i)) \<in> set (spine (thr c i))" using False by (intro last_in_set) simp
  moreover have "last (spine (thr c i)) = (f_key (last (stack (thr c i))), a)"
    using False by (simp add: spine_def a_def last_map)
  ultimately have "carr_ok c (focus (shared_key c) (thr c i)) (index (thr c i)) a"
    using t False by (auto simp: thr_base_def focus_def top_key_def)
  then have "thr_ok A c (shared_key c) (thr c' i)" using i thr_ok_set [OF t] by (simp add: c')
  then have "thr_ok A c' (shared_key c) (thr c' i)" by (rule thr_ok_mono) (simp_all add: c')
  moreover have "own_step i c c'" unfolding c' using i by (intro own_step_upd_thr) simp
  ultimately show ?thesis using base i by (simp add: c' base_inv_upd_thr)
qed

text \<open>What \<open>pre_end\<close> does when the region is open: \<open>j\<close> is the position of its frame.\<close>

lemma pre_end_eq:
  assumes res: "pre_end A i reg now c = Some c'" and i: "i < length (threads c)"
    and j: "find_frame (keys c) (stack (thr c i)) (region_name reg) (depth (thr c i)) = Some j"
  obtains c0 c2 c3 se te where
    "c0 = c\<lparr>seq_counter := seq_counter c0\<rparr>"
    "close_above A i (total (thr c i)) se te (j + 1) c0 = Some c2"
    "close_frame A i (total (thr c i)) se te False c2 = Some c3"
    "c' = (let c4 = reinstall A i c3 in if leader c4 = Some i then update_shared A (Some i) c4 else c4)"
proof -
  define se where "se = (if 0 < opt_trace c then seq_counter c + 1 else 0)"
  define te where "te = (if 0 < opt_trace c then now else 0)"
  define c0 where "c0 = (if 0 < opt_trace c then c\<lparr>seq_counter := seq_counter c + 1\<rparr> else c)"
  from res j obtain c2 c3 where "close_above A i (total (thr c i)) se te (j + 1) c0 = Some c2"
      "close_frame A i (total (thr c i)) se te False c2 = Some c3"
      "c' = (let c4 = (if 0 < depth (thr c3 i)
                    then set_thread_cur i (f_cur (last (stack (thr c3 i)))) c3
                    else (let (a, c') = slots_for A (shared_key c3) (index (thr c3 i)) c3
                          in set_thread_cur i a c'))
             in if leader c4 = Some i then update_shared A (Some i) c4 else c4)"
    unfolding pre_end_def by (auto simp: Let_def se_def te_def c0_def split: Option.bind_splits)
  then show thesis
    by (intro that [of c0 se te c2 c3]) (simp_all add: c0_def reinstall_def set_own_def)
qed

lemma pre_end_control:
  assumes inv: "control_inv A c" and i: "i < length (threads c)" "alive (thr c i)"
    and res: "pre_end A i reg now c = Some c'"
  shows "control_inv A c' \<and> calm c c'"
proof (cases "find_frame (keys c) (stack (thr c i)) (region_name reg) (depth (thr c i))")
  case None
  then have "c' = c\<lparr>unmatched_ends := unmatched_ends c + 1\<rparr>"
    using res by (simp add: pre_end_def Let_def)
  with inv show ?thesis by simp
next
  case (Some j)
  obtain c0 c2 c3 se te where c0: "c0 = c\<lparr>seq_counter := seq_counter c0\<rparr>"
    and c2: "close_above A i (total (thr c i)) se te (j + 1) c0 = Some c2"
    and c3: "close_frame A i (total (thr c i)) se te False c2 = Some c3"
    and c': "c' = (let c4 = reinstall A i c3 in if leader c4 = Some i then update_shared A (Some i) c4 else c4)"
    by (rule pre_end_eq [OF res i(1) Some])
  have inv0: "control_inv A c0" by (subst c0) (use inv in simp)
  have calm0: "calm c0 d = calm c d" for d by (subst c0) simp
  have t0: "threads c0 = threads c" by (subst c0) simp
  have i0: "i < length (threads c0)" "alive (thr c0 i)" using i by (simp_all add: t0)
  note S2 = close_above_step [OF c2 i0(1)]
  have i2: "i < length (threads c2)" using S2 i0 by (simp add: own_step_def)
  note S3 = close_frame_step [OF c3 i2]
  have own: "own_step i c0 c3" using S2 S3 own_step_trans by blast
  have k3: "keys c3 = keys c0" "key_table c3 = key_table c0" "ctl (thr c3 i) = ctl (thr c0 i)" using S2 S3 by auto
  have sp3: "spine (thr c3 i) = butlast (take (j + 1) (spine (thr c0 i)))" using S2 S3 by auto
  have base0: "base_inv A c0" and t0: "thr_base A c0 (thr c0 i)"
    using inv0 i0 by (auto simp: control_inv_def thr_ok_def dest: threads_okD)
  have base3: "base_inv A c3"
    using base0 by (intro own_step_base [OF own base0]) (simp add: k3 base_inv_def keys_below_def)
  have i3: "i < length (threads c3)" "alive (thr c3 i)" "shared_key c3 = shared_key c0"
    using own i0 k3(3) by (auto simp: own_step_def ctl_def)
  have "thr_base A c3 (thr c0 i)" using own by (intro thr_base_mono [OF t0]) (auto simp: own_step_def)
  then have t3: "thr_base A c3 (thr c3 i)"
  proof (rule thr_base_part [OF _ k3(3)])
    show "set (spine (thr c3 i)) \<subseteq> set (spine (thr c0 i))"
      unfolding sp3 by (meson in_set_butlastD in_set_takeD subsetI)
    show "depth (thr c3 i) \<le> depth (thr c0 i)"
      using arg_cong [OF sp3, of length] by simp
  qed
  note R = reinstall_step [OF base3 i3(1) t3]
  have "control_inv A c' \<and> calm c0 c'"
    unfolding c' Let_def
    by (rule control_inv_then_share [OF own_step_trans [OF own conjunct1 [OF R]] inv0])
      (use R i0 i3 in \<open>auto simp: base_inv_def\<close>)
  then show ?thesis by (simp add: calm0)
qed

subsection \<open>The other handlers\<close>

lemma calm_upd_thr [simp]: "calm c (upd_thr i f c)"
  by (simp add: calm_def)

lemma pre_begin_control:
  assumes "control_inv A c" "ht_laws A" "i < length (threads c)" "alive (thr c i)"
    and "pre_begin A i reg sn sv now c = Some c'"
  shows "control_inv A c' \<and> calm c c'"
  using assms(5) unfolding pre_begin_def by (rule begin_common_control [OF assms(1-4)])

lemma pre_begin_v_control:
  assumes inv: "control_inv A c" and laws: "ht_laws A" and i: "i < length (threads c)" "alive (thr c i)"
    and res: "pre_begin_v A i reg n ns vs now c = Some c'"
  shows "control_inv A c' \<and> calm c c'"
proof -
  define c1 where "c1 = (if int KEY_STATES < n then c\<lparr>state_overflows := state_overflows c + 1\<rparr> else c)"
  obtain sts where "begin_common A i reg sts now c1 = Some c'"
    using res unfolding pre_begin_v_def Let_def c1_def by blast
  moreover have "control_inv A c1" "i < length (threads c1)" "alive (thr c1 i)" "calm c1 c' = calm c c'"
    using inv i by (simp_all add: c1_def)
  ultimately show ?thesis using begin_common_control [of A c1 i] laws by blast
qed

lemma spine_f_states:
  "spine (t\<lparr>stack := upd_last (\<lambda>f. f\<lparr>f_states := h f\<rparr>) (stack t)\<rparr>) = spine t"
  by (cases "stack t" rule: rev_cases) (simp_all add: spine_def)

lemma pre_state_control:
  assumes inv: "control_inv A c" and i: "i < length (threads c)"
  shows "control_inv A (pre_state i nm v c) \<and> calm c (pre_state i nm v c)"
proof -
  have "control_inv A (upd_thr i (\<lambda>t. t\<lparr>stack := upd_last (\<lambda>f. f\<lparr>f_states := h f\<rparr>) (stack t)\<rparr>) c)" for h
    by (rule control_inv_local [OF inv i]) (simp_all add: spine_f_states, simp add: ctl_def)
  with inv show ?thesis by (simp add: pre_state_def Let_def)
qed

lemma event_pre_syscall_control:
  assumes inv: "control_inv A c" and i: "i < length (threads c)"
  shows "control_inv A (event_pre_syscall i c) \<and> calm c (event_pre_syscall i c)"
proof -
  have "control_inv A (event_pre_syscall i c)"
    unfolding event_pre_syscall_def by (rule control_inv_local [OF inv i]) (simp_all add: ctl_def spine_def)
  then show ?thesis by (simp add: event_pre_syscall_def)
qed

text \<open>A new thread starts on the array of the shared key.\<close>

lemma event_thread_init_control:
  assumes inv: "control_inv A c" and laws: "ht_laws A"
    and res: "event_thread_init A tno c = Some c'"
  shows "control_inv A c' \<and> calm c c'"
proof -
  define t where "t = new_thread A tno (nthreads_seen c)"
  define i where "i = length (threads c)"
  define c1 where "c1 = c\<lparr>threads := threads c @ [t], nthreads_seen := nthreads_seen c + 1\<rparr>"
  have t1: "thr c1 i = t" "i < length (threads c1)" "\<And>j. j < i \<Longrightarrow> thr c1 j = thr c j"
    "length (threads c1) = Suc i" by (simp_all add: c1_def i_def nth_append)
  have e1: "shared_key c1 = shared_key c" "leader c1 = leader c" "keys c1 = keys c"
    "client.more c1 = client.more c" by (simp_all add: c1_def)
  have c': "c' = set_own A (shared_key c1) i c1"
    using res by (simp add: event_thread_init_def Let_def set_own_def c1_def i_def t_def split: if_splits prod.splits)
  have base: "base_inv A c" and lead: "leader_ok c" using inv by (simp_all add: control_inv_def)
  have q1: "quiet c c1" by (rule quiet_same) (simp add: c1_def mem.defs)
  have "index t = min i (MAX_THREADS - 1)"
    using base by (auto simp: t_def new_thread_def base_inv_def i_def MAX_THREADS_def)
  then have base1: "base_inv A c1"
    using base by (auto simp: base_inv_def c1_def nth_append less_Suc_eq i_def keys_below_def mem_inv_def opts_ok_def)
  have "caches_below A n t" for n
    using laws by (simp add: t_def new_thread_def caches_below_def ht_lookup_new)
  then have tb: "thr_base A c1 t"
    by (simp add: thr_base_def) (simp add: t_def new_thread_def spine_def MAX_THREADS_def)
  have al: "alive t" "stack t = []" by (simp_all add: t_def new_thread_def)
  have f: "focus (shared_key c1) (thr c1 i) = shared_key c1" by (simp add: t1 al focus_def top_key_def)
  have S: "own_step i c1 c'" "base_inv A c'" "thr_ok A c' (shared_key c1) (thr c' i)"
    using set_own_step [OF base1 t1(2) _ f] tb by (simp_all add: c' t1)
  have "threads_ok A c'"
  proof (rule threads_okI)
    fix j assume j: "j < length (threads c')"
    show "thr_ok A c' (shared_key c') (thr c' j)"
    proof (cases "j = i")
      case True
      then show ?thesis using S by (simp add: own_step_def)
    next
      case False
      then have ji: "j < i" "thr c' j = thr c j" using j S(1) t1 by (auto simp: own_step_def)
      then have "thr_ok A c (shared_key c) (thr c j)" using inv by (simp add: control_inv_def threads_okD i_def)
      moreover have "quiet c c'" "length (keys c) \<le> length (keys c')" "shared_key c' = shared_key c"
        using S(1) quiet_trans [OF q1] by (auto simp: own_step_def e1)
      ultimately show ?thesis using thr_ok_mono by (simp add: ji)
    qed
  qed
  moreover have "leader_ok c'"
  proof -
    have "thr c' l = thr c l" if "leader c = Some l" for l
      using that base S(1) t1(3) by (auto simp: base_inv_def own_step_def i_def)
    with lead S(1) show ?thesis by (auto simp: leader_ok_def own_step_def e1 split: option.splits)
  qed
  moreover have "calm c c'" using S(1) quiet_trans [OF q1] by (auto simp: calm_def own_step_def e1)
  ultimately show ?thesis using S(2) by (simp add: control_inv_def)
qed

lemma event_thread_exit_control:
  assumes inv: "control_inv A c" and i: "i < length (threads c)" "alive (thr c i)"
    and res: "event_thread_exit A i now c = Some c'"
  shows "control_inv A c' \<and> calm c c' \<and> \<not> alive (thr c' i)"
proof -
  let ?c0 = "c\<lparr>seq_counter := seq_counter c + 1\<rparr>"
  have inv0: "control_inv A ?c0" using inv by simp
  obtain c1 where c1: "close_above A i (total (thr c i)) (seq_counter c + 1) now 0 ?c0 = Some c1"
    and c': "c' = (let c2 = upd_thr i (\<lambda>t. t\<lparr>final_total := total (thr c i), alive := False\<rparr>) c1
      in if leader c2 = Some i then update_shared A None c2 else c2)"
    using res by (auto simp: event_thread_exit_def Let_def split: Option.bind_splits)
  have i0: "i < length (threads ?c0)" using i by simp
  note S = close_above_step [OF c1 i0]
  define c2 where "c2 = upd_thr i (\<lambda>t. t\<lparr>final_total := total (thr c i), alive := False\<rparr>) c1"
  have i1: "i < length (threads c1)" using S i0 by (simp add: own_step_def)
  have own: "own_step i ?c0 c2"
    unfolding c2_def by (rule own_step_trans [OF conjunct1 [OF S] own_step_upd_thr]) simp
  have base2: "base_inv A c2"
    using inv0 S by (intro own_step_base [OF own]) (auto simp: control_inv_def base_inv_def keys_below_def c2_def)
  have st: "spine (thr c1 i) = []" using S by simp
  have tb0: "thr_base A ?c0 (thr c i)" using inv0 i0 by (auto simp: control_inv_def thr_ok_def dest: threads_okD)
  have "thr_base A c2 (thr c i)" using own by (intro thr_base_mono [OF tb0]) (auto simp: own_step_def)
  then have "thr_base A c2 (thr c1 i)" by (rule thr_base_part) (use S st in \<open>simp_all add: spine_def\<close>)
  then have tb2: "thr_base A c2 (thr c2 i)"
    using i1 st by (simp add: c2_def thr_base_def caches_below_def spine_def)
  have d2: "\<not> alive (thr c2 i)" using i1 by (simp add: c2_def)
  have ok2: "threads_ok A c2"
    using inv0 thr_ok_dead [OF tb2 d2] by (intro own_step_threads_ok [OF own]) (simp_all add: control_inv_def)
  have calm2: "calm c c2" using own_step_calm [OF own] by simp
  show ?thesis
  proof (cases "leader c2 = Some i")
    case True
    have "\<forall>t \<in> set (threads c2). \<not> alive t" if "length (threads c2) \<le> 1"
    proof -
      have "length (threads c2) = 1" using that i1 by (simp add: c2_def)
      then obtain u where "threads c2 = [u]" by (auto simp: length_Suc_conv)
      moreover have "i = 0" using that i1 by (simp add: c2_def)
      ultimately show ?thesis using d2 by simp
    qed
    then have "control_inv A (update_shared A None c2) \<and> shares c2 (update_shared A None c2)"
      by (intro update_shared_spec [OF base2 ok2]) auto
    with True d2 i1 calm_trans [OF calm2] show ?thesis
      by (auto simp: c' c2_def [symmetric] shares_calm shares_def) (simp add: c2_def)
  next
    case False
    have "leader_ok c2" using inv0 False own leader_ok_own [OF own] by (simp add: control_inv_def own_step_def)
    with False base2 ok2 calm2 d2 show ?thesis by (simp add: c' c2_def [symmetric] control_inv_def)
  qed
qed

end
