(* ===== verification/Blocks.thy ===== *)
theory Blocks
  imports Markers
begin

text \<open>
  Modules and instrumentation of \<open>client/drperf.c\<close>: \<open>event_module_load\<close> and
  \<open>module_index_for_pc\<close>, the slot that \<open>event_analysis\<close> gives a basic block, the packed word it
  hands to \<open>event_insert\<close>, and the instructions \<open>event_insert\<close> puts in front of the block, with
  their effect when a thread runs the block. What DynamoRIO reports about a module or a block
  (names, addresses, instruction counts, whether a string operation was expanded) is an argument.
\<close>

definition MAX_MODULES :: nat where "MAX_MODULES = 4096"

record module_t =
  m_name :: string
  m_path :: string
  m_start :: addr
  m_end :: addr

datatype hook = Pre_begin | Pre_end | Pre_state | Pre_begin_v

record ('h, 'p) world = "'h client" +
  slot_table :: 'p
  next_slot :: u64
  slot_pc :: "nat \<Rightarrow> addr"
  slot_mod :: "nat \<Rightarrow> int"
  slot_sym :: "nat \<Rightarrow> int"
  slots_overflow :: u64
  mod_table :: 'p
  modules :: "module_t list"                  \<comment> \<open>\<open>nmodules\<close> is the length\<close>
  main_module_start :: addr
  wrapped :: "(addr \<times> hook) list"             \<comment> \<open>the calls of \<open>drwrap_wrap\<close>, latest first\<close>
  code :: "u64 set"                           \<comment> \<open>the words of the blocks that have been instrumented\<close>

subsection \<open>Modules\<close>

text \<open>\<open>strrchr(path, '/')\<close>: what follows the last slash, if there is one.\<close>

definition after_slash :: "string \<Rightarrow> string option" where
  "after_slash p = (if CHR ''/'' \<in> set p then Some (rev (takeWhile (\<lambda>c. c \<noteq> CHR ''/'') (rev p))) else None)"

text \<open>\<open>strstr(s, pat) != NULL\<close>\<close>

fun contains :: "string \<Rightarrow> string \<Rightarrow> bool" where
  "contains pat [] = (pat = [])"
| "contains pat (c # s) = (take (length pat) (c # s) = pat \<or> contains pat s)"

text \<open>What DynamoRIO says about a module, and where \<open>dr_get_proc_address\<close> finds the markers in it.\<close>

record module_data =
  d_name :: "string option"
  d_path :: "string option"
  d_start :: addr
  d_end :: addr
  d_begin :: "addr option"
  d_endm :: "addr option"
  d_state :: "addr option"
  d_begin_v :: "addr option"

definition mod_name :: "module_data \<Rightarrow> string option" where
  "mod_name d = (case d_path d of
     Some (c # p) \<Rightarrow> if c = CHR ''/'' then (case after_slash (c # p) of
         Some (x # xs) \<Rightarrow> Some (x # xs) | _ \<Rightarrow> d_name d) else d_name d
   | _ \<Rightarrow> d_name d)"

definition wrap_in :: "addr option \<Rightarrow> hook \<Rightarrow> (addr \<times> hook) list \<Rightarrow> (addr \<times> hook) list" where
  "wrap_in ao hk ws = (case ao of None \<Rightarrow> ws | Some a \<Rightarrow> (a, hk) # ws)"

definition event_module_load :: "('h, 'p) dr_api \<Rightarrow> module_data \<Rightarrow> ('h, 'p) world \<Rightarrow> ('h, 'p) world" where
  "event_module_load A d w =
     (let name = mod_name d;
          w1 = (if length (modules w) < MAX_MODULES \<and> pt_lookup A (mod_table w) (d_start d) = None
                then w\<lparr>modules := modules w @ [\<lparr>
                         m_name = safe_strcpy (Some (case name of None \<Rightarrow> ''?'' | Some s \<Rightarrow> s)) RNAME_MAX,
                         m_path = safe_strcpy (d_path d) 512,
                         m_start = d_start d, m_end = d_end d\<rparr>],
                       mod_table := pt_add A (mod_table w) (d_start d) (length (modules w) + 1)\<rparr>
                else w)
      in if \<not> (case name of None \<Rightarrow> False | Some s \<Rightarrow> contains ''perfmark'' s) \<and>
            d_start d \<noteq> main_module_start w
         then w1
         else w1\<lparr>wrapped := wrap_in (d_begin_v d) Pre_begin_v (wrap_in (d_state d) Pre_state
                  (wrap_in (d_endm d) Pre_end (wrap_in (d_begin d) Pre_begin (wrapped w1))))\<rparr>)"

text \<open>\<open>dr_lookup_module(pc)\<close> is the argument: the start of the module around the address.\<close>

definition module_index_for_pc :: "('h, 'p) dr_api \<Rightarrow> 'p \<Rightarrow> addr option \<Rightarrow> int" where
  "module_index_for_pc A mt mo = (case mo of
     None \<Rightarrow> -1
   | Some st \<Rightarrow> (case pt_lookup A mt st of None \<Rightarrow> -1 | Some v \<Rightarrow> int v - 1))"

subsection \<open>Building a block\<close>

definition event_app2app :: "bool \<Rightarrow> nat \<Rightarrow> ('h, 'p) world \<Rightarrow> ('h, 'p) world" where
  "event_app2app expanded i w =
     upd_thr i (\<lambda>t. t\<lparr>bb_expanded := opt_rep_expand w \<and> expanded\<rparr>) w"

text \<open>The word a block of slot \<open>slot\<close> and \<open>n\<close> instructions carries.\<close>

definition packed_word :: "u64 \<Rightarrow> u64 \<Rightarrow> u64" where
  "packed_word slot n = push_bit 32 slot OR (n AND 0xffffffff)"

definition event_analysis :: "('h, 'p) dr_api \<Rightarrow> nat \<Rightarrow> addr \<Rightarrow> u64 \<Rightarrow> addr option
    \<Rightarrow> ('h, 'p) world \<Rightarrow> u64 \<times> ('h, 'p) world" where
  "event_analysis A i pc sz mo w =
     (let n = (if bb_expanded (thr w i) then 1 else sz);
          (slot, w1) = (case pt_lookup A (slot_table w) pc of
             Some v \<Rightarrow> (of_nat v - 1, w)
           | None \<Rightarrow>
               (if opt_max_slots w \<le> next_slot w
                then (opt_max_slots w - 1, w\<lparr>slots_overflow := slots_overflow w + 1\<rparr>)
                else (next_slot w, w\<lparr>
                   slot_pc := (slot_pc w)(unat (next_slot w) := pc),
                   slot_mod := (slot_mod w)(unat (next_slot w) := module_index_for_pc A (mod_table w) mo),
                   slot_sym := (slot_sym w)(unat (next_slot w) := -1),
                   slot_table := pt_add A (slot_table w) pc (unat (next_slot w) + 1),
                   next_slot := next_slot w + 1\<rparr>)))
      in (packed_word slot n, w1))"

subsection \<open>The inserted instructions\<close>

text \<open>Immediate operands and displacements are 32-bit integers that the processor sign-extends.\<close>

datatype meta =
    Add_total "32 word"             \<comment> \<open>add imm32 to TLS slot 0\<close>
  | Read_cur                        \<comment> \<open>load TLS slot 1 into the scratch register\<close>
  | Add_counter "32 word" "32 word" \<comment> \<open>add imm32 at displacement disp32 from that register\<close>

definition event_insert :: "bool \<Rightarrow> bool \<Rightarrow> u64 \<Rightarrow> meta list" where
  "event_insert block_counters first packed =
     (let slot = drop_bit 32 packed; n = (ucast (packed AND 0xffffffff) :: 32 word) in
      if \<not> first then []
      else if n = 0 then []
      else Add_total n # (if block_counters then [Read_cur, Add_counter (ucast (slot * 8)) n] else []))"

text \<open>Their effect on the thread that runs the block. The register starts with no counter pointer; a
  negative displacement writes in front of the array.\<close>

definition exec_meta :: "nat \<Rightarrow> meta \<Rightarrow> carr option \<times> ('h, 'p) world \<Rightarrow> (carr option \<times> ('h, 'p) world) option" where
  "exec_meta i m s = (let (reg, w) = s in case m of
     Add_total n \<Rightarrow> Some (reg, upd_thr i (\<lambda>t. t\<lparr>total := total t + scast n\<rparr>) w)
   | Read_cur \<Rightarrow> Some (Some (cur (thr w i)), w)
   | Add_counter disp n \<Rightarrow> (case reg of
       None \<Rightarrow> None
     | Some a \<Rightarrow> if sint disp < 0 then None
                 else Some (reg, bump a (nat (sint disp div 8)) (scast n) w)))"

fun exec_metas :: "nat \<Rightarrow> meta list \<Rightarrow> carr option \<times> ('h, 'p) world \<Rightarrow> (carr option \<times> ('h, 'p) world) option" where
  "exec_metas i [] s = Some s"
| "exec_metas i (m # ms) s = exec_meta i m s \<bind> exec_metas i ms"

text \<open>Running a block whose analysis left the word \<open>packed\<close>.\<close>

definition exec_block :: "nat \<Rightarrow> u64 \<Rightarrow> ('h, 'p) world \<Rightarrow> ('h, 'p) world option" where
  "exec_block i packed w =
     map_option snd (exec_metas i (event_insert (opt_block_counters w) True packed) (None, w))"

subsection \<open>Packing is lossless\<close>

lemma take_bit_below:
  fixes x :: u64
  assumes "unat x < 2 ^ k"
  shows "take_bit k x = x"
proof -
  have "unat (take_bit k x) = take_bit k (unat x)" by (rule unsigned_take_bit_eq)
  also have "\<dots> = unat x" using assms by (rule take_bit_nat_eq_self)
  finally show ?thesis by (rule unsigned_word_eqI)
qed

lemma low_word: "(x AND 0xffffffff :: u64) = take_bit 32 x"
  by (simp add: take_bit_eq_mask mask_eq_exp_minus_1)

lemma packed_slot:
  assumes "slot < 2 ^ 32"
  shows "drop_bit 32 (push_bit 32 slot OR (n AND 0xffffffff)) = (slot :: u64)"
proof -
  have "slot = take_bit 32 slot" using assms by (simp add: take_bit_below word_less_nat_alt)
  then have b: "bit slot j \<Longrightarrow> j < 32" for j by (metis bit_take_bit_iff)
  show ?thesis
    unfolding low_word
    by (rule bit_word_eqI) (use b in \<open>auto simp: bit_simps\<close>)
qed

lemma packed_count: "(push_bit 32 slot OR (n AND 0xffffffff)) AND 0xffffffff = (n AND 0xffffffff :: u64)"
  unfolding low_word by (rule bit_word_eqI) (auto simp: bit_simps)

text \<open>For a slot below \<open>2 ^ 28\<close> and a count below \<open>2 ^ 31\<close> the inserted instructions do what they are
  meant to: the count is added to the thread's total and to the slot of its current array.\<close>

lemma scast_count:
  assumes "n < 2 ^ 31"
  shows "scast (ucast (n AND 0xffffffff :: u64) :: 32 word) = (n :: u64)"
proof -
  have "n = take_bit 31 n" using assms by (simp add: take_bit_below word_less_nat_alt)
  then have b: "bit n j \<Longrightarrow> j < 31" for j by (metis bit_take_bit_iff)
  have b': "\<not> bit n j" if "31 \<le> j" for j using b [of j] that by auto
  show ?thesis
    unfolding low_word
    by (rule bit_word_eqI) (use b b' in \<open>auto simp: bit_simps min_def\<close>)
qed

lemma sint_32: "sint (x :: 32 word) = (if uint x < 2 ^ 31 then uint x else uint x - 2 ^ 32)"
proof -
  have b: "0 \<le> uint x" "uint x < 2 ^ 32" using uint_lt2p [of x] by simp_all
  have "(uint x + 2147483648) mod 4294967296 = uint x - 2147483648" if "2147483648 \<le> uint x"
  proof -
    have "(uint x + 2147483648) mod 4294967296 = (uint x - 2147483648 + 4294967296) mod 4294967296"
      by (simp add: add.commute)
    also have "\<dots> = (uint x - 2147483648) mod 4294967296" by (rule mod_add_self2)
    finally show ?thesis using b that by simp
  qed
  with b show ?thesis
    by (auto simp: sint_uint signed_take_bit_eq_take_bit_shift take_bit_eq_mod)
qed

lemma disp_ok:
  assumes "slot < 2 ^ 28"
  shows "sint (ucast (slot * 8 :: u64) :: 32 word) = int (unat slot) * 8"
proof -
  have u: "unat slot < 2 ^ 28" using assms by (simp add: word_less_nat_alt)
  then have "unat (slot * 8) = unat slot * 8" by (simp add: unat_word_ariths)
  moreover have "unat (ucast (slot * 8) :: 32 word) = unat (slot * 8) mod 2 ^ 32"
    by (simp add: unsigned_ucast_eq take_bit_eq_mod)
  ultimately have v: "unat (ucast (slot * 8) :: 32 word) = unat slot * 8"
    using u by simp
  then have "uint (ucast (slot * 8) :: 32 word) = int (unat slot * 8)" by (metis uint_nat)
  moreover have "int (unat slot * 8) < int (2 ^ 31)" unfolding of_nat_less_iff using u by simp
  ultimately show ?thesis
    by (simp add: sint_32)
qed

text \<open>What running that block is meant to do.\<close>

definition counted :: "nat \<Rightarrow> u64 \<Rightarrow> u64 \<Rightarrow> ('h, 'p) world \<Rightarrow> ('h, 'p) world" where
  "counted i slot n w =
     (let w' = upd_thr i (\<lambda>t. t\<lparr>total := total t + n\<rparr>) w
      in if opt_block_counters w then bump (cur (thr w i)) (unat slot) n w' else w')"

lemma ucast_low_eq_0: "n < 2 ^ 31 \<Longrightarrow> (ucast (n AND 0xffffffff :: u64) :: 32 word) = 0 \<longleftrightarrow> n = 0"
  using scast_count [of n] by (cases "n = 0") (auto simp: signed_eq_0_iff)

lemma exec_block_counted:
  assumes "slot < 2 ^ 28" "0 < n" "n < 2 ^ 31" and i: "i < length (threads w)"
  shows "exec_block i (packed_word slot n) w = Some (counted i slot n w)"
proof -
  have "slot < 2 ^ 32" using assms(1) by (simp add: word_less_nat_alt)
  note P = packed_slot [OF this, of n, folded packed_word_def]
    packed_count [of slot n, folded packed_word_def]
  have n0: "n \<noteq> 0" using assms(2) by auto
  have opts: "opt_block_counters (upd_thr i f w) = opt_block_counters w" for f
    by (simp add: upd_thr_def)
  show ?thesis
    by (simp add: exec_block_def event_insert_def P ucast_low_eq_0 [OF assms(3)] n0 exec_meta_def
        scast_count [OF assms(3)] disp_ok [OF assms(1)] i counted_def Let_def)
qed

text \<open>Past \<open>2 ^ 28\<close> slots the displacement turns negative.\<close>

lemma disp_negative:
  assumes "2 ^ 28 \<le> slot" "slot < 2 ^ 29"
  shows "sint (ucast (slot * 8 :: u64) :: 32 word) < 0"
proof -
  have u: "2 ^ 28 \<le> unat slot" "unat slot < 2 ^ 29"
    using assms by (simp_all add: word_less_nat_alt word_le_nat_alt)
  then have "unat (slot * 8) = unat slot * 8" by (simp add: unat_word_ariths)
  moreover have "unat (ucast (slot * 8) :: 32 word) = unat (slot * 8) mod 2 ^ 32"
    by (simp add: unsigned_ucast_eq take_bit_eq_mod)
  ultimately have "unat (ucast (slot * 8) :: 32 word) = unat slot * 8"
    using u by simp
  then have "uint (ucast (slot * 8) :: 32 word) = int (unat slot * 8)" by (metis uint_nat)
  moreover have "int (2 ^ 31) \<le> int (unat slot * 8)" "int (unat slot * 8) < int (2 ^ 32)"
    unfolding of_nat_less_iff of_nat_le_iff using u by simp_all
  ultimately show ?thesis
    by (simp add: sint_32)
qed

end
