(* ===== verification/System.thy ===== *)
theory System
  imports Handlers Blocks
begin

text \<open>
  The client as one machine: its events are the callbacks that DynamoRIO makes (threads, markers,
  system calls, modules, the building of a block) and the running of an instrumented block. A
  step is the handler of the code; \<open>enabled\<close> is what DynamoRIO guarantees about when it calls
  it. The world invariant joins the control invariant with that of the block slots.
\<close>

datatype event =
    Thread_init int
  | Thread_exit nat u64
  | Begin nat "string option" "string option" i64 u64
  | Begin_v nat "string option" int name_array value_array u64
  | End nat "string option" u64
  | State nat "string option" "string option"
  | Syscall nat
  | Load module_data
  | Build nat bool addr u64 "addr option"
  | Exec nat u64

fun actor :: "event \<Rightarrow> nat option" where
  "actor (Thread_init _) = None"
| "actor (Thread_exit i _) = Some i"
| "actor (Begin i _ _ _ _) = Some i"
| "actor (Begin_v i _ _ _ _ _) = Some i"
| "actor (End i _ _) = Some i"
| "actor (State i _ _) = Some i"
| "actor (Syscall i) = Some i"
| "actor (Load _) = None"
| "actor (Build i _ _ _ _) = Some i"
| "actor (Exec i _) = Some i"

text \<open>A callback of a thread comes between its start and its exit, and only blocks that have been
  built run.\<close>

definition enabled :: "('h, 'p) world \<Rightarrow> event \<Rightarrow> bool" where
  "enabled w e \<longleftrightarrow> (case actor e of None \<Rightarrow> True | Some i \<Rightarrow> i < length (threads w) \<and> alive (thr w i)) \<and>
     (case e of Exec i p \<Rightarrow> p \<in> code w | _ \<Rightarrow> True)"

definition build_block :: "('h, 'p) dr_api \<Rightarrow> nat \<Rightarrow> bool \<Rightarrow> addr \<Rightarrow> u64 \<Rightarrow> addr option
    \<Rightarrow> ('h, 'p) world \<Rightarrow> ('h, 'p) world" where
  "build_block A i expanded pc n mo w =
     (let (p, w') = event_analysis A i pc n mo (event_app2app expanded i w)
      in w'\<lparr>code := insert p (code w')\<rparr>)"

fun handle :: "('h, 'p) dr_api \<Rightarrow> ('h, 'p) world \<Rightarrow> event \<Rightarrow> ('h, 'p) world option" where
  "handle A w (Thread_init tno) = event_thread_init A tno w"
| "handle A w (Thread_exit i now) = event_thread_exit A i now w"
| "handle A w (Begin i r sn sv now) = pre_begin A i r sn sv now w"
| "handle A w (Begin_v i r n ns vs now) = pre_begin_v A i r n ns vs now w"
| "handle A w (End i r now) = pre_end A i r now w"
| "handle A w (State i nm v) = Some (pre_state i nm v w)"
| "handle A w (Syscall i) = Some (event_pre_syscall i w)"
| "handle A w (Load d) = Some (event_module_load A d w)"
| "handle A w (Build i x pc n mo) = Some (build_block A i x pc n mo w)"
| "handle A w (Exec i p) = exec_block i p w"

definition step :: "('h, 'p) dr_api \<Rightarrow> ('h, 'p) world \<Rightarrow> event \<Rightarrow> ('h, 'p) world option" where
  "step A w e = (if enabled w e then handle A w e else None)"

text \<open>A block has fewer than \<open>2 ^ 31\<close> instructions.\<close>

fun event_ok :: "event \<Rightarrow> bool" where
  "event_ok (Build i x pc n mo) = (n < 2 ^ 31)"
| "event_ok _ = True"

subsection \<open>The world invariant\<close>

definition slots_inv :: "('h, 'p) dr_api \<Rightarrow> ('h, 'p) world \<Rightarrow> bool" where
  "slots_inv A w \<longleftrightarrow> next_slot w \<le> opt_max_slots w \<and>
     (\<forall>pc v. pt_lookup A (slot_table w) pc = Some v \<longrightarrow>
        1 \<le> v \<and> v \<le> unat (next_slot w) \<and> slot_pc w (v - 1) = pc) \<and>
     (\<forall>p \<in> code w. \<exists>slot n. p = packed_word slot n \<and> slot < opt_max_slots w \<and> n < 2 ^ 31)"

text \<open>The displacement of a slot is a 32-bit integer, so \<open>-max_slots\<close> is taken to be at most
  \<open>2 ^ 28\<close>; its default is \<open>2 ^ 20\<close>.\<close>

definition world_inv :: "('h, 'p) dr_api \<Rightarrow> ('h, 'p) world \<Rightarrow> bool" where
  "world_inv A w \<longleftrightarrow> ht_laws A \<and> pt_laws A \<and> control_inv A w \<and> slots_inv A w \<and> opt_max_slots w \<le> 2 ^ 28"

lemma opts_of_quiet: "options.truncate m' = options.truncate m \<Longrightarrow>
    opt_max_slots m' = opt_max_slots m \<and> opt_block_counters m' = opt_block_counters m \<and> opt_trace m' = opt_trace m"
  by (simp add: options.defs)

text \<open>The marker handlers do not touch the slots.\<close>

lemma world_extend:
  "next_slot (client.extend c m) = next_slot (client.extend d m)"
  "slot_table (client.extend c m) = slot_table (client.extend d m)"
  "slot_pc (client.extend c m) = slot_pc (client.extend d m)"
  "code (client.extend c m) = code (client.extend d m)"
  by (induct m rule: world.ext_induct, simp only: client.defs world.select_convs)+

lemma world_more:
  fixes w w' :: "('h, 'p) world"
  assumes "client.more w' = client.more w"
  shows "next_slot w' = next_slot w" "slot_table w' = slot_table w" "slot_pc w' = slot_pc w" "code w' = code w"
proof -
  have s: "v = client.extend (client.truncate v) (client.more v)" for v :: "('h, 'p) world"
    by (simp add: client.defs) (rule client.surjective)
  show "next_slot w' = next_slot w" "slot_table w' = slot_table w" "slot_pc w' = slot_pc w" "code w' = code w"
    using world_extend [of "client.truncate w'" "client.more w'" "client.truncate w"] s [of w] s [of w'] assms
    by metis+
qed

lemma world_inv_calm:
  assumes inv: "world_inv A w" and "control_inv A w'" and calm: "calm w w'"
  shows "world_inv A w'"
proof -
  have m: "client.more w' = client.more w" using calm by (simp add: calm_def)
  have "opt_max_slots w' = opt_max_slots w" using calm opts_of_quiet [of w' w] by (simp add: calm_def quiet_def)
  moreover have "next_slot w' = next_slot w" "slot_table w' = slot_table w" "slot_pc w' = slot_pc w" "code w' = code w"
    by (rule world_more [OF m])+
  ultimately show ?thesis using assms(1,2) by (simp add: world_inv_def slots_inv_def)
qed

subsection \<open>Modules and blocks\<close>

lemma event_module_load_same:
  "mem.truncate (event_module_load A d w) = mem.truncate w" "keys (event_module_load A d w) = keys w"
  "key_table (event_module_load A d w) = key_table w" "threads (event_module_load A d w) = threads w"
  "nthreads_seen (event_module_load A d w) = nthreads_seen w" "shared_key (event_module_load A d w) = shared_key w"
  "leader (event_module_load A d w) = leader w"
  "slot_table (event_module_load A d w) = slot_table w" "next_slot (event_module_load A d w) = next_slot w"
  "slot_pc (event_module_load A d w) = slot_pc w" "code (event_module_load A d w) = code w"
  "opt_max_slots (event_module_load A d w) = opt_max_slots w"
  by (simp_all add: event_module_load_def Let_def mem.defs)

lemma event_module_load_inv: "world_inv A w \<Longrightarrow> world_inv A (event_module_load A d w)"
  using control_inv_cong [OF event_module_load_same(1-7)]
  by (auto simp: world_inv_def slots_inv_def event_module_load_same)

lemma event_app2app_inv:
  assumes "world_inv A w" "i < length (threads w)"
  shows "world_inv A (event_app2app x i w)"
proof -
  have "control_inv A (event_app2app x i w)"
    unfolding event_app2app_def
    by (rule control_inv_local) (use assms in \<open>simp_all add: world_inv_def ctl_def spine_def\<close>)
  then show ?thesis by (rule world_inv_calm [OF assms(1)]) (simp add: event_app2app_def)
qed

text \<open>The slot of a block: the one its address has, else the next one, else the last, which all
  blocks that come too late share.\<close>

definition block_count :: "nat \<Rightarrow> u64 \<Rightarrow> ('h, 'p) world \<Rightarrow> u64" where
  "block_count i n w = (if bb_expanded (thr w i) then 1 else n)"

definition assign_slot :: "('h, 'p) dr_api \<Rightarrow> addr \<Rightarrow> addr option \<Rightarrow> ('h, 'p) world \<Rightarrow> ('h, 'p) world" where
  "assign_slot A pc mo w = w\<lparr>slot_pc := (slot_pc w)(unat (next_slot w) := pc),
     slot_mod := (slot_mod w)(unat (next_slot w) := module_index_for_pc A (mod_table w) mo),
     slot_sym := (slot_sym w)(unat (next_slot w) := -1),
     slot_table := pt_add A (slot_table w) pc (unat (next_slot w) + 1), next_slot := next_slot w + 1\<rparr>"

lemma event_analysis_cases:
  obtains (known) v where "pt_lookup A (slot_table w) pc = Some v"
      "event_analysis A i pc n mo w = (packed_word (of_nat v - 1) (block_count i n w), w)"
  | (full) "pt_lookup A (slot_table w) pc = None" "opt_max_slots w \<le> next_slot w"
      "event_analysis A i pc n mo w =
         (packed_word (opt_max_slots w - 1) (block_count i n w), w\<lparr>slots_overflow := slots_overflow w + 1\<rparr>)"
  | (fresh) "pt_lookup A (slot_table w) pc = None" "next_slot w < opt_max_slots w"
      "event_analysis A i pc n mo w =
         (packed_word (next_slot w) (block_count i n w), assign_slot A pc mo w)"
proof (cases "pt_lookup A (slot_table w) pc")
  case (Some v)
  then show ?thesis by (rule known) (simp add: event_analysis_def block_count_def Some)
next
  case None
  show ?thesis
  proof (cases "opt_max_slots w \<le> next_slot w")
    case True
    from None True show ?thesis
      by (rule full) (simp only: event_analysis_def block_count_def None True Let_def option.case prod.case if_True)
  next
    case False
    then have "next_slot w < opt_max_slots w" by simp
    with None show ?thesis
      by (rule fresh) (simp only: event_analysis_def block_count_def assign_slot_def None False Let_def
          option.case prod.case if_False)
  qed
qed

lemma slot_of_entry:
  assumes "slots_inv A w" "pt_lookup A (slot_table w) pc = Some v" "unat (opt_max_slots w) < 2 ^ 31"
  shows "unat (of_nat v - 1 :: u64) = v - 1" "(of_nat v - 1 :: u64) < opt_max_slots w"
proof -
  have v: "1 \<le> v" "v \<le> unat (next_slot w)" using assms by (auto simp: slots_inv_def)
  have nx: "unat (next_slot w) \<le> unat (opt_max_slots w)" using assms by (simp add: slots_inv_def word_le_nat_alt)
  have "of_nat v - 1 = (of_nat (v - 1) :: u64)" using v by (simp add: of_nat_diff)
  moreover have "unat (of_nat (v - 1) :: u64) = v - 1"
    using v nx assms(3) by (intro unat_small) simp
  ultimately show e: "unat (of_nat v - 1 :: u64) = v - 1" by simp
  then show "(of_nat v - 1 :: u64) < opt_max_slots w"
    unfolding word_less_nat_alt using v nx by linarith
qed

lemma control_inv_slots:
  "control_inv A (w\<lparr>slot_pc := a, slot_mod := b, slot_sym := c, slot_table := d, next_slot := e\<rparr>) = control_inv A w"
  "control_inv A (w\<lparr>slots_overflow := o'\<rparr>) = control_inv A w"
  "control_inv A (w\<lparr>code := s\<rparr>) = control_inv A w"
  by (rule iffI; erule control_inv_cong [rotated -1]; simp add: mem.defs)+

lemma slots_inv_add_code:
  "slots_inv A w \<Longrightarrow> slot < opt_max_slots w \<Longrightarrow> n < 2 ^ 31 \<Longrightarrow>
     slots_inv A (w\<lparr>code := insert (packed_word slot n) (code w)\<rparr>)"
  by (auto simp: slots_inv_def)

lemma assign_slot_inv:
  assumes inv: "slots_inv A w" and laws: "pt_laws A" and new: "pt_lookup A (slot_table w) pc = None"
    and room: "next_slot w < opt_max_slots w"
  shows "slots_inv A (assign_slot A pc mo w)"
proof -
  let ?w = "assign_slot A pc mo w"
  have sel: "next_slot ?w = next_slot w + 1" "opt_max_slots ?w = opt_max_slots w" "code ?w = code w"
    "slot_table ?w = pt_add A (slot_table w) pc (unat (next_slot w) + 1)"
    "slot_pc ?w = (slot_pc w)(unat (next_slot w) := pc)"
    by (simp_all add: assign_slot_def)
  note u = unat_plus_one [OF room]
  have "next_slot ?w \<le> opt_max_slots ?w" using room u by (simp add: sel word_less_nat_alt word_le_nat_alt)
  moreover have "1 \<le> v \<and> v \<le> unat (next_slot ?w) \<and> slot_pc ?w (v - 1) = pc'"
    if "pt_lookup A (slot_table ?w) pc' = Some v" for pc' v
  proof (cases "pc' = pc")
    case True
    with that new have "v = unat (next_slot w) + 1" by (simp add: sel pt_lookup_add [OF laws])
    with True show ?thesis by (simp add: sel u)
  next
    case False
    with that have "pt_lookup A (slot_table w) pc' = Some v" by (simp add: sel pt_lookup_add [OF laws])
    with inv have "1 \<le> v" "v \<le> unat (next_slot w)" "slot_pc w (v - 1) = pc'" by (auto simp: slots_inv_def)
    then show ?thesis by (auto simp: sel u)
  qed
  ultimately show ?thesis using inv unfolding slots_inv_def by (simp add: sel)
qed

lemma build_block_inv:
  assumes inv: "world_inv A w" and n: "n < 2 ^ 31" and i: "i < length (threads w)"
  shows "world_inv A (build_block A i x pc n mo w)"
proof -
  define u where "u = event_app2app x i w"
  have invu: "world_inv A u" unfolding u_def by (rule event_app2app_inv [OF inv i])
  have laws: "pt_laws A" and mx: "0 < opt_max_slots u" "unat (opt_max_slots u) < 2 ^ 31" and sl: "slots_inv A u"
    using invu by (auto simp: world_inv_def control_inv_def base_inv_def mem_inv_def opts_ok_def word_less_nat_alt)
  have m: "block_count i n u < 2 ^ 31" using n by (simp add: block_count_def)
  show ?thesis
  proof (cases rule: event_analysis_cases [of A u pc i n mo])
    case (known v)
    with slots_inv_add_code [OF sl slot_of_entry(2) [OF sl known(1) mx(2)] m] invu show ?thesis
      by (simp add: build_block_def u_def [symmetric] world_inv_def control_inv_slots)
  next
    case full
    have "opt_max_slots u - 1 < opt_max_slots u" using mx(1) by (intro max_minus_one) auto
    from slots_inv_add_code [OF sl this m] invu full show ?thesis
      by (simp add: build_block_def u_def [symmetric] world_inv_def slots_inv_def)
        (metis control_inv_slots(2,3) world.simps)
  next
    case fresh
    have "slots_inv A (assign_slot A pc mo u)" by (rule assign_slot_inv [OF sl laws fresh(1,2)])
    then have "slots_inv A ((assign_slot A pc mo u)\<lparr>code := insert (packed_word (next_slot u) (block_count i n u))
        (code (assign_slot A pc mo u))\<rparr>)"
      by (rule slots_inv_add_code) (use fresh m in \<open>simp_all add: assign_slot_def\<close>)
    with invu fresh(3) show ?thesis
      by (simp add: build_block_def u_def [symmetric] world_inv_def control_inv_slots)
        (simp add: assign_slot_def control_inv_slots)
  qed
qed

subsection \<open>Running a block\<close>

definition slot_of :: "u64 \<Rightarrow> nat" where
  "slot_of p = unat (drop_bit 32 p)"

definition count_of :: "u64 \<Rightarrow> u64" where
  "count_of p = p AND 0xffffffff"

lemma packed_parts:
  assumes "slot < 2 ^ 32" "n < 2 ^ 31"
  shows "slot_of (packed_word slot n) = unat slot" "count_of (packed_word slot n) = n"
proof -
  have "n < 2 ^ 32" using assms(2) by (simp add: word_less_nat_alt)
  then have "take_bit 32 n = n" by (simp add: take_bit_below word_less_nat_alt)
  then show "slot_of (packed_word slot n) = unat slot" "count_of (packed_word slot n) = n"
    using packed_slot [OF assms(1), of n] packed_count [of slot n]
    by (simp_all add: slot_of_def count_of_def packed_word_def low_word)
qed

text \<open>A block in the code cache counts its instructions on its slot; the empty block does nothing.\<close>

lemma exec_block_spec:
  assumes inv: "world_inv A w" and p: "p \<in> code w" and i: "i < length (threads w)"
  shows "exec_block i p w = Some (if count_of p = 0 then w else counted i (of_nat (slot_of p)) (count_of p) w) \<and>
    slot_of p < unat (opt_max_slots w)"
proof -
  obtain slot n where sn: "p = packed_word slot n" "slot < opt_max_slots w" "n < 2 ^ 31"
    using inv p by (auto simp: world_inv_def slots_inv_def)
  have s28: "slot < 2 ^ 28" using sn(2) inv by (auto simp: world_inv_def)
  then have s32: "slot < 2 ^ 32" by (simp add: word_less_nat_alt)
  note P = packed_parts [OF s32 sn(3)]
  have e: "exec_block i p w = Some (if n = 0 then w else counted i slot n w)"
  proof (cases "n = 0")
    case True
    have "exec_block i (packed_word slot 0) w = Some w"
      using packed_count [of slot 0] by (simp add: exec_block_def event_insert_def packed_word_def Let_def)
    with True show ?thesis by (simp add: sn(1))
  next
    case False
    then have "0 < n" by (simp add: word_gt_0)
    with exec_block_counted [OF s28 _ sn(3) i] False show ?thesis by (simp add: sn(1))
  qed
  have "(of_nat (slot_of p) :: u64) = slot" by (simp add: sn(1) P)
  with e sn(2) show ?thesis by (simp add: sn(1) P word_less_nat_alt)
qed

lemma client_bump [simp]:
  fixes m :: "('h, 'z) client_scheme"
  shows "threads (bump a s n m) = threads m" "keys (bump a s n m) = keys m"
    "key_table (bump a s n m) = key_table m" "nthreads_seen (bump a s n m) = nthreads_seen m"
    "shared_key (bump a s n m) = shared_key m" "leader (bump a s n m) = leader m"
    "client.more (bump a s n m) = client.more m" "opt_block_counters (bump a s n m) = opt_block_counters m"
  by (simp_all add: bump_def split: carr.split)

lemma control_inv_bump [simp]: "control_inv A (bump a s n c) = control_inv A c"
proof -
  have "carr_ok (bump a s n c) = carr_ok c"
    by (intro ext) (simp add: carr_ok_def split: carr.split)
  then have "thr_ok A (bump a s n c) sk t = thr_ok A c sk t" for sk t
    by (simp add: thr_ok_def thr_base_def)
  then show ?thesis
    by (simp add: control_inv_def base_inv_def keys_below_def threads_ok_def leader_ok_def cong: option.case_cong)
qed

lemma counted_inv:
  assumes inv: "world_inv A w" and i: "i < length (threads w)"
  shows "world_inv A (counted i s n w)"
proof -
  define u where "u = upd_thr i (\<lambda>t. t\<lparr>total := total t + n\<rparr>) w"
  have "control_inv A u"
    unfolding u_def by (rule control_inv_local) (use inv i in \<open>simp_all add: world_inv_def ctl_def spine_def\<close>)
  then have U: "world_inv A u" by (rule world_inv_calm [OF inv]) (simp add: u_def)
  have "next_slot (bump a m n u) = next_slot u" "slot_table (bump a m n u) = slot_table u"
    "slot_pc (bump a m n u) = slot_pc u" "code (bump a m n u) = code u" for a m
    by (rule world_more, simp)+
  then have "world_inv A (bump a m n u)" for a m
    using U by (simp add: world_inv_def slots_inv_def)
  with U show ?thesis by (simp add: counted_def u_def [symmetric] Let_def)
qed

subsection \<open>The invariant is kept by every step\<close>

lemma handle_calm:
  assumes inv: "world_inv A w" and en: "enabled w e" and res: "handle A w e = Some w'"
    and e: "\<And>d. e \<noteq> Load d" "\<And>i x pc n mo. e \<noteq> Build i x pc n mo" "\<And>i p. e \<noteq> Exec i p"
  shows "world_inv A w' \<and> calm w w'"
proof -
  have C: "control_inv A w" "ht_laws A" using inv by (simp_all add: world_inv_def)
  have "control_inv A w' \<and> calm w w'"
  proof (cases e)
    case (Thread_init tno)
    with res event_thread_init_control [OF C] show ?thesis by simp
  next
    case (Thread_exit i now)
    with res en event_thread_exit_control [OF C(1), of i] show ?thesis by (simp add: enabled_def)
  next
    case (Begin i r sn sv now)
    with res en pre_begin_control [OF C, of i] show ?thesis by (simp add: enabled_def)
  next
    case (Begin_v i r n ns vs now)
    with res en pre_begin_v_control [OF C, of i] show ?thesis by (simp add: enabled_def)
  next
    case (End i r now)
    with res en pre_end_control [OF C(1), of i] show ?thesis by (simp add: enabled_def)
  next
    case (State i nm v)
    with res en pre_state_control [OF C(1), of i nm v] show ?thesis by (auto simp: enabled_def)
  next
    case (Syscall i)
    with res en event_pre_syscall_control [OF C(1), of i] show ?thesis by (auto simp: enabled_def)
  qed (use e in auto)
  with world_inv_calm [OF inv] show ?thesis by blast
qed

lemma step_inv:
  assumes inv: "world_inv A w" and ok: "event_ok e" and res: "step A w e = Some w'"
  shows "world_inv A w'"
proof -
  have en: "enabled w e" and h: "handle A w e = Some w'" using res by (auto simp: step_def split: if_splits)
  show ?thesis
  proof (cases e)
    case (Load d)
    with h event_module_load_inv [OF inv] show ?thesis by auto
  next
    case (Build i x pc n mo)
    with h ok en build_block_inv [OF inv] show ?thesis by (auto simp: enabled_def)
  next
    case (Exec i p)
    with h en exec_block_spec [OF inv, of p i] counted_inv [OF inv, of i] inv show ?thesis
      by (auto simp: enabled_def split: if_splits)
  qed (use handle_calm [OF inv en h] in auto)
qed

interpretation callbacks: machine "step A" event_ok "world_inv A" for A
  by unfold_locales (rule step_inv)

end
