(* ===== verification/Counting.thy ===== *)
theory Counting
  imports System
begin

text \<open>
  Where the counts go. \<open>tally\<close> is the specification: it replays a run of events and charges every
  executed block to the focus of the thread that ran it, with no counter arrays, no threads'
  pointers and no sharing. The counts that \<open>write_key\<close> adds up are that tally as long as no
  request for counter memory was denied, and the sum of all counts (\<open>dummy_slots\<close> included) is the
  number of instructions executed, denied or not.
\<close>

text \<open>The state when the client has been initialised (the end of \<open>dr_client_main\<close>).\<close>

definition init_world :: "('h, 'p) dr_api \<Rightarrow> options \<Rightarrow> addr \<Rightarrow> ('h, 'p) world" where
  "init_world A oc main = \<lparr>opt_out = opt_out oc, opt_top = opt_top oc, opt_max_slots = opt_max_slots oc,
     opt_trace = opt_trace oc, opt_rep_expand = opt_rep_expand oc, opt_symbols = opt_symbols oc,
     opt_verbose = opt_verbose oc, opt_block_counters = opt_block_counters oc, opt_blocks = opt_blocks oc,
     counter_bytes = 0, counter_denied = 0, nallocs = 0, tslots = (\<lambda>_ _. None), narrays = 0,
     arrays = (\<lambda>_ _. 0), dummy = (\<lambda>_. 0),
     keys = [], key_table = ht_new A, region_keys = [],
     threads = [], nthreads_seen = 0, shared_key = None, leader = None, seq_counter = 0,
     trace_records = 0, trace_dropped = 0, unmatched_ends = 0, depth_overflows = 0,
     state_overflows = 0, marker_seen = False,
     slot_table = pt_new A, next_slot = 0, slot_pc = (\<lambda>_. 0), slot_mod = (\<lambda>_. 0), slot_sym = (\<lambda>_. 0),
     slots_overflow = 0, mod_table = pt_new A, modules = [], main_module_start = main, wrapped = [],
     code = {}\<rparr>"

lemma init_world_inv:
  assumes "ht_laws A" "pt_laws A" "1024 \<le> unat (opt_max_slots oc)" "opt_max_slots oc \<le> 2 ^ 28"
  shows "world_inv A (init_world A oc main)"
proof -
  have "unat (opt_max_slots oc) \<le> 2 ^ 28" using assms(4) by (simp add: word_le_nat_alt)
  then have "mem_inv (init_world A oc main)"
    using assms(3) by (simp add: mem_inv_def opts_ok_def init_world_def COUNTER_BUDGET_def)
  then have "control_inv A (init_world A oc main)"
    using assms(1)
    by (simp add: control_inv_def base_inv_def threads_ok_def leader_ok_def keys_below_def)
      (simp add: init_world_def ht_lookup_new)
  moreover have "slots_inv A (init_world A oc main)"
    using assms(2) by (simp add: slots_inv_def init_world_def pt_lookup_new)
  ultimately show ?thesis using assms by (simp add: world_inv_def) (simp add: init_world_def)
qed

subsection \<open>The specification\<close>

fun charge :: "('h, 'p) world \<Rightarrow> event \<Rightarrow> nat \<Rightarrow> nat \<Rightarrow> u64" where
  "charge w (Exec i p) k s =
     (if opt_block_counters w \<and> focus (shared_key w) (thr w i) = Some k \<and> slot_of p = s then count_of p else 0)"
| "charge w _ k s = 0"

fun tally :: "('h, 'p) dr_api \<Rightarrow> ('h, 'p) world \<Rightarrow> event list \<Rightarrow> nat \<Rightarrow> nat \<Rightarrow> u64" where
  "tally A w [] k s = 0"
| "tally A w (e # es) k s = charge w e k s +
     (case step A w e of None \<Rightarrow> 0 | Some w' \<Rightarrow> tally A w' es k s)"

text \<open>All instructions executed in a run.\<close>

fun executed :: "event list \<Rightarrow> u64" where
  "executed [] = 0"
| "executed (Exec i p # es) = count_of p + executed es"
| "executed (e # es) = executed es"

subsection \<open>One step\<close>

lemma key_count_upd_thr [simp]: "key_count (upd_thr i f w) = key_count w"
  and all_counts_upd_thr [simp]: "all_counts (upd_thr i f w) = all_counts w"
  by (simp_all add: key_count_def [abs_def] all_counts_def upd_thr_def cong: option.case_cong)

lemma same_mem_counts:
  assumes "mem.truncate w' = mem.truncate w"
  shows "key_count w' = key_count w" "all_counts w' = all_counts w" "counter_denied w' = counter_denied w"
proof -
  have t: "tslots w' = tslots w" "arrays w' = arrays w" "dummy w' = dummy w" "narrays w' = narrays w"
    "opt_max_slots w' = opt_max_slots w" using assms by (simp_all add: mem.defs)
  show "key_count w' = key_count w" by (intro ext) (simp add: key_count_def t cong: option.case_cong)
  show "all_counts w' = all_counts w" by (simp add: all_counts_def t)
  show "counter_denied w' = counter_denied w" using assms by (simp add: mem.defs)
qed

lemma build_block_mem: "mem.truncate (build_block A i x pc n mo w) = mem.truncate w"
  by (cases rule: event_analysis_cases [of A "event_app2app x i w" pc i n mo])
    (simp_all add: build_block_def assign_slot_def event_app2app_def mem.defs upd_thr_def)

text \<open>What the control invariant gives when a block runs.\<close>

lemma focus_array:
  assumes inv: "world_inv A w" and i: "i < length (threads w)" "alive (thr w i)"
  shows "carr_ok w (focus (shared_key w) (thr w i)) (index (thr w i)) (cur (thr w i)) \<and> index (thr w i) < MAX_THREADS"
  using threads_okD [of A w i] inv i by (auto simp: world_inv_def control_inv_def thr_ok_def thr_base_def)

lemma counted_key_count:
  assumes inv: "world_inv A w" and i: "i < length (threads w)" "alive (thr w i)"
    and d: "counter_denied w \<le> 0 \<or> cur (thr w i) \<noteq> Dummy"
  shows "key_count (counted i (of_nat s) n w) k s' = key_count w k s' +
    (if opt_block_counters w \<and> focus (shared_key w) (thr w i) = Some k \<and> unat (of_nat s :: u64) = s' then n else 0)"
proof -
  note F = focus_array [OF inv i]
  have mi: "mem_inv w" using inv by (simp add: world_inv_def control_inv_def base_inv_def)
  show ?thesis
  proof (cases "cur (thr w i)")
    case Dummy
    then have "focus (shared_key w) (thr w i) = None" using F d by (simp add: carr_ok_def)
    with Dummy show ?thesis by (simp add: counted_def Let_def)
  next
    case (Arr a)
    with F obtain k' where k': "focus (shared_key w) (thr w i) = Some k'" "tslots w k' (index (thr w i)) = Some a"
      by (auto simp: carr_ok_def)
    have "key_count (bump (Arr a) m n (upd_thr i f w)) k s' = key_count w k s' + (if k = k' \<and> s' = m then n else 0)"
      for m f
      using key_count_bump [of "upd_thr i f w" k' "index (thr w i)" a m n k s'] mi k' F by simp
    with Arr k' show ?thesis by (auto simp: counted_def Let_def)
  qed
qed

lemma counted_all:
  assumes inv: "world_inv A w" and i: "i < length (threads w)" "alive (thr w i)" and s: "s < unat (opt_max_slots w)"
    and b: "opt_block_counters w"
  shows "all_counts (counted i (of_nat s) n w) = all_counts w + n"
proof -
  let ?u = "upd_thr i (\<lambda>t. t\<lparr>total := total t + n\<rparr>) w"
  have mi: "mem_inv w" using inv by (simp add: world_inv_def control_inv_def base_inv_def)
  have u: "opt_max_slots ?u = opt_max_slots w" "narrays ?u = narrays w" by (simp_all add: upd_thr_def)
  have "unat (of_nat s :: u64) = s" by (rule unat_small) (use s unsigned_less [of "opt_max_slots w", where ?'a = nat] in simp)
  moreover have "a < narrays w" if "cur (thr w i) = Arr a" for a
    using focus_array [OF inv i] that mem_inv_bound [OF mi] by (auto simp: carr_ok_def)
  ultimately have "all_counts (bump (cur (thr w i)) (unat (of_nat s :: u64)) n ?u) = all_counts w + n"
    using s by (subst all_counts_bump) (simp_all add: u)
  with b show ?thesis by (simp add: counted_def Let_def)
qed

subsection \<open>Runs\<close>

lemma step_denied_mono:
  assumes inv: "world_inv A w" and res: "step A w e = Some w'"
  shows "counter_denied w \<le> counter_denied w' \<and> opt_block_counters w' = opt_block_counters w"
proof -
  have en: "enabled w e" and h: "handle A w e = Some w'" using res by (auto simp: step_def split: if_splits)
  consider (load) d where "e = Load d" | (build) i x pc n mo where "e = Build i x pc n mo"
    | (exec) i p where "e = Exec i p"
    | (other) "\<And>d. e \<noteq> Load d" "\<And>i x pc n mo. e \<noteq> Build i x pc n mo" "\<And>i p. e \<noteq> Exec i p"
    by (cases e) auto
  then show ?thesis
  proof cases
    case load
    with h event_module_load_same(1) [of A d w] show ?thesis by (auto simp: mem.defs)
  next
    case build
    with h build_block_mem [of A i x pc n mo w] show ?thesis by (auto simp: mem.defs)
  next
    case exec
    with h en exec_block_spec [OF inv, of p i] show ?thesis
      by (auto simp: enabled_def counted_def Let_def upd_thr_def split: if_splits)
  next
    case other
    with handle_calm [OF inv en h] opts_of_quiet [of w' w] show ?thesis by (simp add: calm_def quiet_def)
  qed
qed

lemma step_counts:
  assumes inv: "world_inv A w" and res: "step A w e = Some w'"
  shows "counter_denied w' \<le> 0 \<Longrightarrow> key_count w' k s = key_count w k s + charge w e k s"
    and "opt_block_counters w \<Longrightarrow> all_counts w' = all_counts w + executed [e]"
proof -
  have en: "enabled w e" and h: "handle A w e = Some w'" using res by (auto simp: step_def split: if_splits)
  have mi: "mem_inv w" using inv by (simp add: world_inv_def control_inv_def base_inv_def)
  note mono = conjunct1 [OF step_denied_mono [OF inv res]]
  have "(counter_denied w' \<le> 0 \<longrightarrow> key_count w' k s = key_count w k s + charge w e k s) \<and>
      (opt_block_counters w \<longrightarrow> all_counts w' = all_counts w + executed [e])"
  proof -
    consider (load) d where "e = Load d" | (build) i x pc n mo where "e = Build i x pc n mo"
      | (exec) i p where "e = Exec i p"
      | (other) "\<And>d. e \<noteq> Load d" "\<And>i x pc n mo. e \<noteq> Build i x pc n mo" "\<And>i p. e \<noteq> Exec i p"
      by (cases e) auto
    then show ?thesis
    proof cases
      case load
      with h same_mem_counts [OF event_module_load_same(1) [of A d w]] show ?thesis by auto
    next
      case build
      with h same_mem_counts [OF build_block_mem [of A i x pc n mo w]] show ?thesis by auto
    next
      case exec
      then have i: "i < length (threads w)" "alive (thr w i)" "p \<in> code w" using en by (auto simp: enabled_def)
      note X = exec_block_spec [OF inv i(3,1)]
      have sl: "unat (of_nat (slot_of p) :: u64) = slot_of p" by (simp add: slot_of_def)
      show ?thesis
      proof (cases "count_of p = 0")
        case True
        with X h exec show ?thesis by auto
      next
        case False
        then have "w' = counted i (of_nat (slot_of p)) (count_of p) w" using X h exec by simp
        with exec mono counted_key_count [OF inv i(1,2), of "slot_of p"] counted_all [OF inv i(1,2)] X
        show ?thesis by (auto simp: sl)
      qed
    next
      case other
      have "quiet w w'" using handle_calm [OF inv en h] other by (simp add: calm_def)
      moreover have "charge w e k s = 0" "executed [e] = 0" using other by (cases e; simp)+
      ultimately show ?thesis using mi by (simp add: quiet_def)
    qed
  qed
  then show "counter_denied w' \<le> 0 \<Longrightarrow> key_count w' k s = key_count w k s + charge w e k s"
    and "opt_block_counters w \<Longrightarrow> all_counts w' = all_counts w + executed [e]" by blast+
qed

lemma executed_Cons: "executed (e # es) = executed [e] + executed es"
  by (cases e) simp_all

lemma run_counts:
  assumes "world_inv A w" "list_all event_ok es" "run (step A) w es = Some w'"
  shows "counter_denied w \<le> counter_denied w' \<and> opt_block_counters w' = opt_block_counters w \<and>
    (counter_denied w' \<le> 0 \<longrightarrow> key_count w' k s = key_count w k s + tally A w es k s) \<and>
    (opt_block_counters w \<longrightarrow> all_counts w' = all_counts w + executed es)"
  using assms
proof (induction es arbitrary: w)
  case Nil
  then show ?case by simp
next
  case (Cons e es)
  from Cons.prems(3) obtain u where u: "step A w e = Some u" "run (step A) u es = Some w'"
    by (auto split: Option.bind_splits)
  have iu: "world_inv A u" using Cons.prems u(1) callbacks.step_inv by auto
  note IH = Cons.IH [OF iu _ u(2)]
  note S = step_counts [OF Cons.prems(1) u(1)] and M = step_denied_mono [OF Cons.prems(1) u(1)]
  have "counter_denied u \<le> counter_denied w'" using IH Cons.prems(2) by simp
  with IH Cons.prems(2) S M show ?case
    by (auto simp: u(1) executed_Cons [of e es] simp del: executed.simps)
qed

end
