(* ===== verification/SelfCost.thy ===== *)
theory SelfCost
  imports Counting
begin

text \<open>
  Self costs partition the instructions that a thread executes inside regions. \<open>account t\<close> is what the
  thread has charged as self cost so far, corrected by what its open frames still owe; opening,
  closing (explicitly or implicitly, in any nesting) and every other handler leave it as it is, and
  an executed block adds its instructions exactly when a region is open. All sums are modulo
  \<open>2 ^ 64\<close>, as in the code.
\<close>

definition self_total :: "'h thread \<Rightarrow> u64" where
  "self_total t = (\<Sum>k<MAX_KEYS. self_sum (stats_base t k))"

definition account :: "'h thread \<Rightarrow> u64" where
  "account t = self_total t - (\<Sum>f\<leftarrow>stack t. children_incl f) +
     (if stack t = [] then 0 else total t - total_at_begin (hd (stack t)))"

text \<open>What the account depends on.\<close>

definition books :: "'h thread \<Rightarrow> frame list \<times> u64 \<times> (nat \<Rightarrow> kstats) option" where
  "books t = (stack t, total t, stats t)"

lemma account_books: "books t = books t' \<Longrightarrow> account t = account t'"
  by (simp add: books_def account_def self_total_def stats_base_def)

subsection \<open>Handing out pointers\<close>

lemma books_upd_thr:
  "(\<And>t. books (f t) = books t) \<Longrightarrow> books (thr (upd_thr i f c) j) = books (thr c j)"
  by (simp add: thr_upd_thr_if)

lemma books_set_thread_cur [simp]: "books (thr (set_thread_cur i a c) j) = books (thr c j)"
  unfolding set_thread_cur_def by (rule books_upd_thr) (simp add: books_def)

lemma books_steer_follower [simp]: "books (thr (steer_follower i a c) j) = books (thr c j)"
  unfolding steer_follower_def by (rule books_upd_thr) (simp add: books_def)

lemma threads_slots_for: "slots_for A k m c = (a, c') \<Longrightarrow> threads c' = threads (c :: ('h, 'z) client_scheme)"
  using client_slots_for(1) [of A k m c] by simp

lemma books_steer_all: "books (thr (steer_all A nk js c) j) = books (thr c j)"
proof (induction js arbitrary: c)
  case (Cons i js)
  have "books (thr (steer_one A nk i c) j) = books (thr c j)"
    by (auto simp: steer_one_def threads_slots_for split: prod.split)
  then show ?case using Cons.IH [of "steer_one A nk i c"] by (simp only: steer_all_Cons)
qed simp

lemma books_update_shared [simp]: "books (thr (update_shared A self c) j) = books (thr c j)"
  by (auto simp: update_shared_def Let_def books_steer_all threads_slots_for split: option.splits prod.splits)

lemma books_reinstall [simp]: "books (thr (reinstall A i c) j) = books (thr c j)"
  by (auto simp: reinstall_def set_own_def threads_slots_for split: prod.split)

subsection \<open>Closing\<close>

lemma self_sum_touch [simp]: "self_sum (stats_touch s) = self_sum s"
  by (simp add: stats_touch_def)

lemma self_sum_add [simp]: "self_sum (stats_add x s) = self_sum s + s_self x"
  by (simp add: stats_add_def)

lemma self_sum_closed:
  assumes "f_key (last (stack t)) < MAX_KEYS"
  shows "(\<Sum>k<MAX_KEYS. self_sum (closed_stats tot b t k)) = self_total t + s_self (top_sample tot b t)"
proof -
  let ?k = "f_key (last (stack t))"
  have "self_sum (closed_stats tot b t k) =
      ((\<lambda>k. self_sum (stats_base t k))(?k := self_sum (stats_base t ?k) + s_self (top_sample tot b t))) k" for k
    by (simp add: closed_stats_def Let_def)
  then show ?thesis
    using sum_fun_upd_add [of "{..<MAX_KEYS}" ?k "\<lambda>k. self_sum (stats_base t k)"] assms
    by (simp add: self_total_def)
qed

lemma account_closed:
  assumes k: "f_key (last (stack t)) < MAX_KEYS" and ne: "stack t \<noteq> []"
  shows "account (t\<lparr>stats := Some (closed_stats (total t) b t), trace := tr, stack := popped (total t) t\<rparr>) = account t"
proof -
  obtain fs f where st: "stack t = fs @ [f]" using ne by (cases "stack t" rule: rev_cases) auto
  have S: "self_total (t\<lparr>stats := Some (closed_stats (total t) b t), trace := tr, stack := popped (total t) t\<rparr>) =
      self_total t + (total t - total_at_begin f - children_incl f)"
    using self_sum_closed [OF k, of "total t" b] by (simp add: self_total_def stats_base_def top_sample_def top_incl_def st)
  show ?thesis
  proof (cases fs rule: rev_cases)
    case Nil
    with S st show ?thesis by (simp add: account_def popped_def)
  next
    case (snoc gs g)
    have h: "total_at_begin (hd (gs @ [g\<lparr>children_incl := x\<rparr>])) = total_at_begin (hd (gs @ [g, f]))" for x
      by (cases gs) simp_all
    have p: "popped (total t) t = gs @ [g\<lparr>children_incl := children_incl g + (total t - total_at_begin f)\<rparr>]"
      by (simp add: popped_def st snoc top_incl_def butlast_append)
    show ?thesis
      using S by (simp add: account_def p h) (simp add: st snoc algebra_simps)
  qed
qed

lemma account_close_frame:
  assumes res: "close_frame A i (total (thr c i)) se te b c = Some c'" and i: "i < length (threads c)"
    and ne: "stack (thr c i) \<noteq> []"
  shows "account (thr c' i) = account (thr c i)"
  using close_frame_thr [OF res i] account_closed [OF _ ne] by auto

lemma account_close_above:
  assumes "close_above A i tot se te d c = Some c'" and "i < length (threads c)" and "tot = total (thr c i)"
  shows "account (thr c' i) = account (thr c i)"
  using assms
proof (induction A i tot se te d c arbitrary: c' rule: close_above.induct)
  case (1 A i tot se te d c)
  show ?case
  proof (cases "d < depth (thr c i)")
    case False
    with "1.prems"(1) have "c' = c" by (subst (asm) close_above.simps) simp
    then show ?thesis by simp
  next
    case True
    then obtain c1 where c1: "close_frame A i tot se te True c = Some c1" "close_above A i tot se te d c1 = Some c'"
      using "1.prems" by (subst (asm) close_above.simps) (auto split: Option.bind_splits)
    note S = close_frame_step [OF c1(1) "1.prems"(2)]
    have len: "i < length (threads c1)" "tot = total (thr c1 i)" using S "1.prems"(2,3) by (simp_all add: own_step_def)
    have "stack (thr c i) \<noteq> []" using True by auto
    with "1.IH" [OF conjI [OF "1.prems"(2) True] c1 len] account_close_frame c1(1) "1.prems"(2,3) show ?thesis by metis
  qed
qed

subsection \<open>The handlers\<close>

definition account_of :: "('h, 'z) client_scheme \<Rightarrow> nat \<Rightarrow> u64" where
  "account_of c j = (if j < length (threads c) then account (thr c j) else 0)"

lemma account_of_own:
  assumes "own_step i c c'" and "account (thr c' i) = account (thr c i)"
  shows "account_of c' j = account_of c j"
  using assms by (cases "j = i") (auto simp: account_of_def own_step_def)

lemma length_steer_all: "length (threads (steer_all A nk js c)) = length (threads c)"
proof (induction js arbitrary: c)
  case (Cons i js)
  have "length (threads (steer_one A nk i c)) = length (threads c)"
    by (auto simp: steer_one_def steer_follower_def threads_slots_for split: prod.split)
  with Cons.IH [of "steer_one A nk i c"] show ?case by (simp only: steer_all_Cons)
qed simp

lemma length_update_shared: "length (threads (update_shared A self c)) = length (threads c)"
  by (auto simp: update_shared_def Let_def set_thread_cur_def threads_slots_for length_steer_all
      split: option.splits prod.splits)

lemma account_of_update_shared [simp]: "account_of (update_shared A self c) j = account_of c j"
  using account_books [OF books_update_shared, of A self c j] by (simp add: account_of_def length_update_shared)

lemma account_of_same_threads: "threads c' = threads c \<Longrightarrow> account_of c' j = account_of c j"
  by (simp add: account_of_def)

lemma account_begin_common:
  assumes inv: "control_inv A c" and laws: "ht_laws A" and i: "i < length (threads c)" "alive (thr c i)"
    and res: "begin_common A i reg sts now c = Some c'"
  shows "account_of c' j = account_of c j"
proof (cases "depth (thr c i) < MAX_DEPTH")
  case False
  with res show ?thesis by (auto simp: begin_common_def Let_def intro: account_of_same_threads)
next
  case True
  let ?c = "c\<lparr>marker_seen := True\<rparr>"
  obtain k t' c1 where
    gk: "get_key A (region_name reg) sts (fst (begin_call c i)) (snd (begin_call c i)) (thr c i) ?c = Some (k, t', c1)"
    and same: "same_keyst ?c c1" "same_caches (thr c i) t'"
    and c': "c' = (let c6 = begun A i k now t' c1 in
       if leader c1 = None \<or> leader c1 = Some i then update_shared A (Some i) c6 else c6)"
    by (rule begin_common_eq [OF res i(1) True])
  have "control_inv A ?c" "i < length (threads ?c)" "alive (thr ?c i)" "depth (thr ?c i) < MAX_DEPTH"
    using inv i True by simp_all
  note B = begun_spec [OF this(1) laws this(2-4), of "region_name reg" sts, simplified, OF gk, of now, simplified]
  obtain f where f: "thr (begun A i k now t' c1) i = t'\<lparr>stack := stack (thr c i) @ [f], cur := f_cur f, followed := f_cur f\<rparr>"
    "total_at_begin f = total (thr c i)" "children_incl f = 0" using B by blast
  have "account (thr (begun A i k now t' c1) i) = account (thr ?c i)"
    using f same_caches_thread [OF same(2)]
    by (cases "stack (thr c i)") (simp_all add: account_def self_total_def stats_base_def)
  then have "account_of (begun A i k now t' c1) j = account_of ?c j" using B by (intro account_of_own) auto
  then show ?thesis using account_of_same_threads [of ?c c] by (simp add: c' Let_def)
qed

lemma account_pre_end:
  assumes i: "i < length (threads c)" and res: "pre_end A i reg now c = Some c'"
  shows "account_of c' j = account_of c j"
proof (cases "find_frame (keys c) (stack (thr c i)) (region_name reg) (depth (thr c i))")
  case None
  with res show ?thesis by (auto simp: pre_end_def Let_def intro: account_of_same_threads)
next
  case (Some m)
  obtain c0 c2 c3 se te where c0: "c0 = c\<lparr>seq_counter := seq_counter c0\<rparr>"
    and c2: "close_above A i (total (thr c i)) se te (m + 1) c0 = Some c2"
    and c3: "close_frame A i (total (thr c i)) se te False c2 = Some c3"
    and c': "c' = (let c4 = reinstall A i c3 in if leader c4 = Some i then update_shared A (Some i) c4 else c4)"
    by (rule pre_end_eq [OF res i Some])
  have t0: "threads c0 = threads c" by (subst c0) simp
  have i0: "i < length (threads c0)" using i by (simp add: t0)
  note S2 = close_above_step [OF c2 i0]
  have i2: "i < length (threads c2)" using S2 i0 by (simp add: own_step_def)
  have tot: "total (thr c i) = total (thr c2 i)" using S2 by (simp add: t0)
  have "m < depth (thr c i)" using find_frame_Some [OF Some] by blast
  moreover have "spine (thr c2 i) = take (m + 1) (spine (thr c i))" using S2 by (simp add: t0)
  ultimately have ne: "stack (thr c2 i) \<noteq> []" by (metis Zero_not_Suc add.commute length_0_conv
        length_spine length_take list.size(3) min_def not_less_eq_eq not_less_zero plus_1_eq_Suc spine_Nil take_eq_Nil)
  have "account (thr c3 i) = account (thr c2 i)"
    by (rule account_close_frame [OF c3 [unfolded tot] i2 ne])
  moreover have "account (thr c2 i) = account (thr c0 i)"
    by (rule account_close_above [OF c2 i0]) (simp add: t0)
  moreover have "own_step i c0 c3" using S2 close_frame_step [OF c3 i2] own_step_trans by blast
  ultimately have "account_of c3 j = account_of c0 j" by (intro account_of_own) auto
  moreover have "account_of (reinstall A i c3) j = account_of c3 j"
    using account_books [OF books_reinstall, of A i c3 j]
    by (auto simp: account_of_def reinstall_def set_thread_cur_def set_own_def threads_slots_for split: prod.split)
  ultimately show ?thesis using account_of_same_threads [OF t0] by (simp add: c' Let_def)
qed

lemma account_thread_exit:
  assumes i: "i < length (threads c)" and res: "event_thread_exit A i now c = Some c'"
  shows "account_of c' j = account_of c j"
proof -
  let ?c0 = "c\<lparr>seq_counter := seq_counter c + 1\<rparr>"
  obtain c1 where c1: "close_above A i (total (thr c i)) (seq_counter c + 1) now 0 ?c0 = Some c1"
    and c': "c' = (let c2 = upd_thr i (\<lambda>t. t\<lparr>final_total := total (thr c i), alive := False\<rparr>) c1
      in if leader c2 = Some i then update_shared A None c2 else c2)"
    using res by (auto simp: event_thread_exit_def Let_def split: Option.bind_splits)
  have i0: "i < length (threads ?c0)" using i by simp
  have "account (thr c1 i) = account (thr ?c0 i)" by (rule account_close_above [OF c1 i0]) simp
  then have "account_of c1 j = account_of ?c0 j"
    using close_above_step [OF c1 i0] by (intro account_of_own) auto
  also have "\<dots> = account_of c j" by (simp add: account_of_def)
  finally have "account_of c1 j = account_of c j" .
  moreover have "account_of (upd_thr i (\<lambda>t. t\<lparr>final_total := total (thr c i), alive := False\<rparr>) c1) j = account_of c1 j"
    using account_books [OF books_upd_thr, of "\<lambda>t. t\<lparr>final_total := total (thr c i), alive := False\<rparr>" i c1 j]
    by (simp add: account_of_def books_def)
  ultimately show ?thesis by (simp add: c' Let_def)
qed

lemma account_of_upd_thr:
  "(\<And>t. account (f t) = account t) \<Longrightarrow> account_of (upd_thr i f c) j = account_of c j"
  by (simp add: account_of_def thr_upd_thr_if)

lemma account_pre_state: "account_of (pre_state i nm v c) j = account_of c j"
proof -
  have "account (t\<lparr>stack := upd_last (\<lambda>f. f\<lparr>f_states := h f\<rparr>) (stack t)\<rparr>) = account t" for h t
    by (cases "stack t" rule: rev_cases)
      (simp_all add: account_def self_total_def stats_base_def hd_append)
  from account_of_upd_thr [OF this, of i _ c j] show ?thesis
    by (auto simp: pre_state_def Let_def intro: account_of_same_threads)
qed

lemma account_thread_init:
  assumes "event_thread_init A tno c = Some c'"
  shows "account_of c' j = account_of c j"
proof -
  define c1 where "c1 = c\<lparr>threads := threads c @ [new_thread A tno (nthreads_seen c)], nthreads_seen := nthreads_seen c + 1\<rparr>"
  obtain a c2 where s: "slots_for A (shared_key c1) (index (thr c1 (length (threads c)))) c1 = (a, c2)"
    by (cases "slots_for A (shared_key c1) (index (thr c1 (length (threads c)))) c1")
  have c': "c' = set_thread_cur (length (threads c)) a c2"
    using assms s by (simp add: event_thread_init_def Let_def c1_def split: if_splits)
  have "account (new_thread A tno n) = 0" for n
    by (simp add: account_def self_total_def stats_base_def new_thread_def kstats_zero_def)
  then have "account_of c1 j = account_of c j"
    by (auto simp: account_of_def c1_def nth_append less_Suc_eq)
  moreover have "account_of c' j = account_of c1 j"
    using account_books [OF books_set_thread_cur, of "length (threads c)" a c2 j] threads_slots_for [OF s]
    by (simp add: account_of_def c' set_thread_cur_def)
  ultimately show ?thesis by simp
qed

subsection \<open>Steps and runs\<close>

text \<open>The specification: what thread \<open>j\<close> executes while it has an open region.\<close>

fun inside1 :: "('h, 'p) world \<Rightarrow> event \<Rightarrow> nat \<Rightarrow> u64" where
  "inside1 w (Exec i p) j = (if i = j \<and> stack (thr w i) \<noteq> [] then count_of p else 0)"
| "inside1 w _ j = 0"

fun inside :: "('h, 'p) dr_api \<Rightarrow> ('h, 'p) world \<Rightarrow> event list \<Rightarrow> nat \<Rightarrow> u64" where
  "inside A w [] j = 0"
| "inside A w (e # es) j = inside1 w e j + (case step A w e of None \<Rightarrow> 0 | Some w' \<Rightarrow> inside A w' es j)"

lemma account_counted:
  assumes i: "i < length (threads w)"
  shows "account_of (counted i s n w) j = account_of w j + (if i = j \<and> stack (thr w i) \<noteq> [] then n else 0)"
proof -
  have "threads (counted i s n w) = threads (upd_thr i (\<lambda>t. t\<lparr>total := total t + n\<rparr>) w)"
    by (simp add: counted_def Let_def)
  moreover have "account (t\<lparr>total := total t + n\<rparr>) = account t + (if stack t \<noteq> [] then n else 0)" for t :: "'a thread"
    by (simp add: account_def self_total_def stats_base_def)
  ultimately show ?thesis using i
    by (cases "i = j") (auto simp: account_of_def)
qed

lemma account_build_block: "account_of (build_block A i x pc n mo w) j = account_of w j"
proof -
  have "account_of (event_app2app x i w) j = account_of w j"
    unfolding event_app2app_def by (rule account_of_upd_thr) (simp add: account_def self_total_def stats_base_def)
  moreover have "threads (build_block A i x pc n mo w) = threads (event_app2app x i w)"
    by (cases rule: event_analysis_cases [of A "event_app2app x i w" pc i n mo])
      (simp_all add: build_block_def assign_slot_def)
  ultimately show ?thesis using account_of_same_threads by metis
qed

lemma step_account:
  assumes inv: "world_inv A w" and res: "step A w e = Some w'"
  shows "account_of w' j = account_of w j + inside1 w e j"
proof -
  have en: "enabled w e" and h: "handle A w e = Some w'" using res by (auto simp: step_def split: if_splits)
  have C: "control_inv A w" "ht_laws A" using inv by (simp_all add: world_inv_def)
  show ?thesis
  proof (cases e)
    case (Thread_init tno)
    with h account_thread_init show ?thesis by auto
  next
    case (Thread_exit i now)
    with h en account_thread_exit [of i w] show ?thesis by (simp add: enabled_def)
  next
    case (Begin i r sn sv now)
    with h en account_begin_common [OF C, of i] show ?thesis by (simp add: enabled_def pre_begin_def)
  next
    case (Begin_v i r n ns vs now)
    define c1 where "c1 = (if int KEY_STATES < n then w\<lparr>state_overflows := state_overflows w + 1\<rparr> else w)"
    have "pre_begin_v A i r n ns vs now w = Some w'" using h Begin_v by simp
    then obtain sts where "begin_common A i r sts now c1 = Some w'"
      unfolding pre_begin_v_def Let_def c1_def by blast
    moreover have "control_inv A c1" "threads c1 = threads w" using C by (simp_all add: c1_def)
    ultimately have "account_of w' j = account_of c1 j"
      using account_begin_common [of A c1 i] C en Begin_v by (simp add: enabled_def)
    with \<open>threads c1 = threads w\<close> Begin_v show ?thesis by (simp add: account_of_def)
  next
    case (End i r now)
    with h en account_pre_end [of i w] show ?thesis by (simp add: enabled_def)
  next
    case (State i nm v)
    with h account_pre_state show ?thesis by auto
  next
    case (Syscall i)
    have "account_of (event_pre_syscall i w) j = account_of w j"
      unfolding event_pre_syscall_def by (rule account_of_upd_thr) (simp add: account_def self_total_def stats_base_def)
    with Syscall h show ?thesis by auto
  next
    case (Load d)
    with h account_of_same_threads [OF event_module_load_same(4) [of A d w]] show ?thesis by auto
  next
    case (Build i x pc n mo)
    with h account_build_block show ?thesis by auto
  next
    case (Exec i p)
    with h en exec_block_spec [OF inv, of p i] account_counted [of i w] show ?thesis
      by (auto simp: enabled_def split: if_splits)
  qed
qed

lemma run_account:
  assumes "world_inv A w" "list_all event_ok es" "run (step A) w es = Some w'"
  shows "account_of w' j = account_of w j + inside A w es j"
  using assms
proof (induction es arbitrary: w)
  case Nil
  then show ?case by simp
next
  case (Cons e es)
  from Cons.prems(3) obtain u where u: "step A w e = Some u" "run (step A) u es = Some w'"
    by (auto split: Option.bind_splits)
  have iu: "world_inv A u" using Cons.prems u(1) callbacks.step_inv by auto
  with Cons.IH [OF iu _ u(2)] Cons.prems(2) step_account [OF Cons.prems(1) u(1)] show ?case by (simp add: u(1))
qed

text \<open>A thread with no open region: its self costs add up to what it executed inside regions.\<close>

lemma account_of_init [simp]: "account_of (init_world A oc main) j = 0"
  by (simp add: account_of_def init_world_def)

lemma account_closed_thread: "stack t = [] \<Longrightarrow> account t = self_total t"
  by (simp add: account_def)

end
