(* ===== verification/Effects.thy ===== *)
theory Effects
  imports Handlers
begin

text \<open>
  What the marker handlers do, in terms of the stack of the thread that runs them: opening pushes one
  frame for the region that was named, closing leaves the frames outside the one it found and
  takes one sample per frame closed. \<open>inert\<close> is the part of the state that handing out counter
  pointers never touches; from it follows which handlers can change the keys, the caches and the
  trace at all.
\<close>

subsection \<open>What handing out pointers leaves alone\<close>

definition rest :: "'h thread \<Rightarrow> 'h thread" where
  "rest t = t\<lparr>cur := Dummy, followed := Dummy\<rparr>"

definition inert :: "('h, 'z) client_scheme \<Rightarrow> 'h keyst \<times> 'h thread list \<times> int list \<times> bool" where
  "inert c = (\<lparr>opt_out = opt_out c, opt_top = opt_top c, opt_max_slots = 0, opt_trace = opt_trace c,
       opt_rep_expand = opt_rep_expand c, opt_symbols = opt_symbols c, opt_verbose = opt_verbose c,
       opt_block_counters = opt_block_counters c, opt_blocks = opt_blocks c,
       counter_bytes = 0, counter_denied = 0, nallocs = 0, tslots = (\<lambda>_ _. None), narrays = 0,
       arrays = (\<lambda>_ _. 0), dummy = (\<lambda>_. 0),
       keys = keys c, key_table = key_table c, region_keys = region_keys c\<rparr>,
     map rest (threads c),
     [seq_counter c, trace_records c, trace_dropped c, unmatched_ends c, depth_overflows c, state_overflows c],
     marker_seen c)"

lemma inertD:
  assumes "inert c' = inert c"
  shows "keys c' = keys c" "key_table c' = key_table c" "region_keys c' = region_keys c"
    "opt_trace c' = opt_trace c" "map rest (threads c') = map rest (threads c)"
    "length (threads c') = length (threads c)"
    "seq_counter c' = seq_counter c" "trace_records c' = trace_records c" "trace_dropped c' = trace_dropped c"
    "unmatched_ends c' = unmatched_ends c" "depth_overflows c' = depth_overflows c"
    "state_overflows c' = state_overflows c" "marker_seen c' = marker_seen c"
  using assms by (auto simp: inert_def dest: map_eq_imp_length_eq)

lemma inert_thread:
  assumes "inert c' = inert c" and "j < length (threads c)"
  shows "rest (thr c' j) = rest (thr c j)"
  using inertD(5,6) [OF assms(1)] assms(2) nth_map by metis

lemma restD:
  assumes "rest t = rest t'"
  shows "stack t = stack t'" "total t = total t'" "stats t = stats t'" "trace t = trace t'" "sys t = sys t'"
    "key_cache t = key_cache t'" "fast t = fast t'" "alive t = alive t'" "index t = index t'" "tid t = tid t'"
    "final_total t = final_total t'" "bb_expanded t = bb_expanded t'"
  using assms by (cases t; cases t'; simp add: rest_def)+

lemma inert_slots_for [simp]:
  fixes c :: "('h, 'z) client_scheme"
  shows "inert (snd (slots_for A k i c)) = inert c"
  by (cases rule: slots_for_cases [of k A i c]) (simp_all add: inert_def)

lemma inert_slots_for_eq: "slots_for A k i c = (a, c') \<Longrightarrow> inert c' = inert (c :: ('h, 'z) client_scheme)"
  using inert_slots_for [of A k i c] by simp

lemma inert_upd_thr: "(\<And>t. rest (f t) = rest t) \<Longrightarrow> inert (upd_thr i f c) = inert c"
  by (simp add: inert_def upd_thr_def map_upd_nth_same)

lemma inert_set_thread_cur [simp]: "inert (set_thread_cur i a c) = inert c"
  unfolding set_thread_cur_def by (rule inert_upd_thr) (simp add: rest_def)

lemma inert_steer_follower [simp]: "inert (steer_follower i a c) = inert c"
  unfolding steer_follower_def by (rule inert_upd_thr) (simp add: rest_def)

lemma inert_leader [simp]:
  "inert (c\<lparr>leader := l\<rparr>) = inert c" "inert (c\<lparr>shared_key := sk\<rparr>) = inert c"
  by (simp_all add: inert_def)

lemma inert_steer_all [simp]: "inert (steer_all A nk js c) = inert c"
proof (induction js arbitrary: c)
  case (Cons i js)
  have "inert (steer_one A nk i c) = inert c"
    by (auto simp: steer_one_def dest: inert_slots_for_eq split: prod.split)
  then show ?case using Cons.IH [of "steer_one A nk i c"] by (simp only: steer_all_Cons)
qed simp

lemma inert_update_shared [simp]: "inert (update_shared A self c) = inert c"
proof (cases "nthreads_seen c \<le> 1")
  case True
  then show ?thesis
    by (auto simp: update_shared_def Let_def dest!: inert_slots_for_eq split: option.split prod.split)
next
  case False
  then show ?thesis by (simp add: update_shared_def Let_def)
qed

lemma inert_reinstall [simp]: "inert (reinstall A i c) = inert c"
  by (auto simp: reinstall_def set_own_def dest: inert_slots_for_eq split: prod.split)

subsection \<open>Opening\<close>

lemma inert_begun:
  fixes c1 :: "('h, 'z) client_scheme"
  assumes "i < length (threads c1)"
  shows "\<exists>f sq. inert (begun A i k now t' c1) =
    inert (upd_thr i (\<lambda>_. t'\<lparr>stack := stack t' @ [f]\<rparr>) (c1\<lparr>seq_counter := sq\<rparr>)) \<and>
    f_key f = k \<and> total_at_begin f = total t' \<and> sys_at_begin f = sys t' \<and> children_incl f = 0 \<and> f_states f = []"
proof -
  define c3 where "c3 = (if 0 < opt_trace c1 then c1\<lparr>seq_counter := seq_counter c1 + 1\<rparr> else c1)"
  obtain a c4 where s: "slots_for A (Some k) (index t') (upd_thr i (\<lambda>_. t') c3) = (a, c4)"
    by (cases "slots_for A (Some k) (index t') (upd_thr i (\<lambda>_. t') c3)")
  define f where "f = \<lparr>f_key = k, f_cur = a, total_at_begin = total t', sys_at_begin = sys t', children_incl = 0,
             seq_begin = (if 0 < opt_trace c1 then seq_counter c1 + 1 else 0),
             t_begin_us = (if 0 < opt_trace c1 then now else 0), f_states = []\<rparr>"
  have p4: "inert c4 = inert (upd_thr i (\<lambda>_. t') c3)" by (rule inert_slots_for_eq [OF s])
  have t4: "threads c4 = threads (upd_thr i (\<lambda>_. t') c3)"
    using client_slots_for(1) [of A "Some k" "index t'" "upd_thr i (\<lambda>_. t') c3"] by (simp add: s)
  have b: "begun A i k now t' c1 = upd_thr i (\<lambda>u. t'\<lparr>stack := stack t' @ [f], cur := a, followed := a\<rparr>) c4"
    by (simp add: begun_def c3_def [symmetric] s f_def [symmetric] Let_def)
  define sq where "sq = (if 0 < opt_trace c1 then seq_counter c1 + 1 else seq_counter c1)"
  have c3: "c3 = c1\<lparr>seq_counter := sq\<rparr>" by (simp add: c3_def sq_def)
  have "map rest (threads (begun A i k now t' c1)) =
      map rest (threads (upd_thr i (\<lambda>_. t'\<lparr>stack := stack t' @ [f]\<rparr>) (c1\<lparr>seq_counter := sq\<rparr>)))"
    using assms by (simp add: b upd_thr_def t4 c3 upd_nth_def map_update rest_def)
  moreover have "inert (begun A i k now t' c1) = (let (x, ts, r) = inert c4 in (x, map rest (threads (begun A i k now t' c1)), r))"
    by (simp add: b inert_def upd_thr_def)
  ultimately show ?thesis
    using p4 by (intro exI [of _ f] exI [of _ sq]) (simp add: c3 inert_def upd_thr_def f_def)
qed

text \<open>A begin either only counts an overflow, or interns its call and pushes one frame; nothing else of
  the inert part changes.\<close>

lemma begin_common_inert:
  assumes res: "begin_common A i reg sts now c = Some c'" and i: "i < length (threads c)"
  obtains (overflow) "depth (thr c i) = MAX_DEPTH \<or> MAX_DEPTH < depth (thr c i)"
      "c' = c\<lparr>marker_seen := True, depth_overflows := depth_overflows c + 1\<rparr>"
  | (opened) k t' c1 f sq where
    "get_key A (region_name reg) sts (fst (begin_call c i)) (snd (begin_call c i)) (thr c i)
       (c\<lparr>marker_seen := True\<rparr>) = Some (k, t', c1)"
    "same_keyst (c\<lparr>marker_seen := True\<rparr>) c1" "same_caches (thr c i) t'"
    "inert c' = inert (upd_thr i (\<lambda>_. t'\<lparr>stack := stack t' @ [f]\<rparr>) (c1\<lparr>seq_counter := sq\<rparr>))"
    "f_key f = k" "total_at_begin f = total (thr c i)" "sys_at_begin f = sys (thr c i)"
    "children_incl f = 0" "f_states f = []" "depth (thr c i) < MAX_DEPTH"
proof (cases "depth (thr c i) < MAX_DEPTH")
  case False
  then have "c' = c\<lparr>marker_seen := True, depth_overflows := depth_overflows c + 1\<rparr>"
    using res by (simp add: begin_common_def Let_def)
  with overflow False show ?thesis by linarith
next
  case True
  obtain k t' c1 where
    gk: "get_key A (region_name reg) sts (fst (begin_call c i)) (snd (begin_call c i)) (thr c i)
      (c\<lparr>marker_seen := True\<rparr>) = Some (k, t', c1)"
    and same: "same_keyst (c\<lparr>marker_seen := True\<rparr>) c1" "same_caches (thr c i) t'"
    and c': "c' = (let c6 = begun A i k now t' c1 in
       if leader c1 = None \<or> leader c1 = Some i then update_shared A (Some i) c6 else c6)"
    by (rule begin_common_eq [OF res i True])
  have "i < length (threads c1)" using same_keyst_client(1) [OF same(1)] i by simp
  from inert_begun [OF this, of A k now t'] obtain f sq where
    p: "inert (begun A i k now t' c1) =
      inert (upd_thr i (\<lambda>_. t'\<lparr>stack := stack t' @ [f]\<rparr>) (c1\<lparr>seq_counter := sq\<rparr>))"
    and f: "f_key f = k" "total_at_begin f = total t'" "sys_at_begin f = sys t'" "children_incl f = 0" "f_states f = []"
    by blast
  have "inert c' = inert (begun A i k now t' c1)" by (simp add: c' Let_def)
  from opened [OF gk same this [unfolded p] f(1)] f same_caches_thread [OF same(2)] True show ?thesis by simp
qed

lemma begin_pushes:
  assumes res: "begin_common A i reg sts now c = Some c'" and i: "i < length (threads c)"
    and d: "depth (thr c i) < MAX_DEPTH"
  obtains f where "stack (thr c' i) = stack (thr c i) @ [f]" "total_at_begin f = total (thr c i)"
    "sys_at_begin f = sys (thr c i)" "children_incl f = 0" "f_states f = []"
    "\<exists>t' c1. get_key A (region_name reg) sts (fst (begin_call c i)) (snd (begin_call c i)) (thr c i)
       (c\<lparr>marker_seen := True\<rparr>) = Some (f_key f, t', c1) \<and> keys c' = keys c1"
    "\<And>j. j < length (threads c) \<Longrightarrow> j \<noteq> i \<Longrightarrow> stack (thr c' j) = stack (thr c j)"
  using res i
proof (cases rule: begin_common_inert)
  case overflow
  with d show ?thesis by simp
next
  case (opened k t' c1 f sq)
  let ?d = "upd_thr i (\<lambda>_. t'\<lparr>stack := stack t' @ [f]\<rparr>) (c1\<lparr>seq_counter := sq\<rparr>)"
  have len: "threads c1 = threads c" using same_keyst_client(1) [OF opened(2)] by simp
  then have "length (threads ?d) = length (threads c)" by simp
  then have R: "stack (thr c' j) = stack (thr ?d j)" if "j < length (threads c)" for j
    using restD(1) [OF inert_thread [OF opened(4), of j]] that by simp
  have t: "threads (c1\<lparr>seq_counter := sq\<rparr>) = threads c" by (simp add: len)
  have own: "stack (thr c' i) = stack (thr c i) @ [f]"
    unfolding R [OF i] using i same_caches_thread(1) [OF opened(3)] by (simp add: t)
  have others: "stack (thr c' j) = stack (thr c j)" if "j < length (threads c)" "j \<noteq> i" for j
    unfolding R [OF that(1)] using that(2) by (simp add: t)
  have "keys c' = keys c1" using inertD(1) [OF opened(4)] by simp
  with opened(1,5) have key: "\<exists>t' c1. get_key A (region_name reg) sts (fst (begin_call c i)) (snd (begin_call c i)) (thr c i)
       (c\<lparr>marker_seen := True\<rparr>) = Some (f_key f, t', c1) \<and> keys c' = keys c1" by blast
  show ?thesis by (rule that [OF own opened(6-9) key others])
qed

subsection \<open>Closing\<close>

text \<open>Instances and implicit ends of each key, when the frames outside the outermost \<open>d\<close> are closed.\<close>

lemma stats_add_counts [simp]:
  "count (stats_add x s) = count s + 1"
  "implicit_ends (stats_add x s) = implicit_ends s + (if s_implicit x then 1 else 0)"
  "count (stats_touch s) = count s" "implicit_ends (stats_touch s) = implicit_ends s"
  by (simp_all add: stats_add_def stats_touch_def)

definition keyed :: "nat \<Rightarrow> (nat \<times> carr) list \<Rightarrow> u64" where
  "keyed k sp = (\<Sum>(k', a)\<leftarrow>sp. if k' = k then 1 else 0)"

lemma keyed_simps [simp]: "keyed k [] = 0" "keyed k (x # xs) = (if fst x = k then 1 else 0) + keyed k xs"
  "keyed k (xs @ ys) = keyed k xs + keyed k ys"
  by (simp_all add: keyed_def split_beta)

lemma close_frame_counts:
  assumes res: "close_frame A i tot se te b c = Some c'" and i: "i < length (threads c)"
    and st: "spine (thr c i) = sp @ [x]"
  shows "count (stats_base (thr c' i) k) = count (stats_base (thr c i) k) + keyed k [x]"
    "implicit_ends (stats_base (thr c' i) k) = implicit_ends (stats_base (thr c i) k) + (if b then keyed k [x] else 0)"
proof -
  have "fst x = f_key (last (stack (thr c i)))"
    using st by (cases "stack (thr c i)" rule: rev_cases) (auto simp: spine_def)
  moreover obtain tr where
    "thr c' i = (thr c i)\<lparr>stats := Some (closed_stats tot b (thr c i)), trace := tr, stack := popped tot (thr c i)\<rparr>"
    using close_frame_thr [OF res i] by blast
  ultimately show "count (stats_base (thr c' i) k) = count (stats_base (thr c i) k) + keyed k [x]"
    "implicit_ends (stats_base (thr c' i) k) = implicit_ends (stats_base (thr c i) k) + (if b then keyed k [x] else 0)"
    by (auto simp: stats_base_def closed_stats_def Let_def top_sample_def)
qed

lemma close_above_counts:
  assumes "close_above A i tot se te d c = Some c'" and "i < length (threads c)"
  shows "count (stats_base (thr c' i) k) = count (stats_base (thr c i) k) + keyed k (drop d (spine (thr c i))) \<and>
    implicit_ends (stats_base (thr c' i) k) =
      implicit_ends (stats_base (thr c i) k) + keyed k (drop d (spine (thr c i)))"
  using assms
proof (induction A i tot se te d c rule: close_above.induct)
  case (1 A i tot se te d c)
  show ?case
  proof (cases "d < depth (thr c i)")
    case False
    with 1 show ?thesis by (simp add: close_above.simps [of A i tot se te d c])
  next
    case True
    then obtain c1 where c1: "close_frame A i tot se te True c = Some c1" "close_above A i tot se te d c1 = Some c'"
      using "1.prems" by (auto simp: close_above.simps [of A i tot se te d c] split: Option.bind_splits)
    note S = close_frame_step [OF c1(1) "1.prems"(2)]
    have i1: "i < length (threads c1)" using S "1.prems" by (simp add: own_step_def)
    obtain sp x where sp: "spine (thr c i) = sp @ [x]" and d: "d \<le> length sp"
      using True by (cases "spine (thr c i)" rule: rev_cases) (auto simp flip: length_spine)
    have "spine (thr c1 i) = sp" using S sp by simp
    then show ?thesis
      using "1.IH" [OF _ c1(1) c1(2) i1] True "1.prems"(2) close_frame_counts [OF c1(1) "1.prems"(2) sp, of k] d sp
      by (simp add: algebra_simps)
  qed
qed

lemma pre_end_matched:
  assumes res: "pre_end A i reg now c = Some c'" and i: "i < length (threads c)"
    and j: "find_frame (keys c) (stack (thr c i)) (region_name reg) (depth (thr c i)) = Some j"
  shows "spine (thr c' i) = take j (spine (thr c i)) \<and> keys c' = keys c \<and> key_table c' = key_table c \<and>
    count (stats_base (thr c' i) k) = count (stats_base (thr c i) k) + keyed k (drop j (spine (thr c i))) \<and>
    implicit_ends (stats_base (thr c' i) k) =
      implicit_ends (stats_base (thr c i) k) + keyed k (drop (Suc j) (spine (thr c i))) \<and>
    total (thr c' i) = total (thr c i)"
proof -
  obtain c0 c2 c3 se te where c0: "c0 = c\<lparr>seq_counter := seq_counter c0\<rparr>"
    and c2: "close_above A i (total (thr c i)) se te (j + 1) c0 = Some c2"
    and c3: "close_frame A i (total (thr c i)) se te False c2 = Some c3"
    and c': "c' = (let c4 = reinstall A i c3 in if leader c4 = Some i then update_shared A (Some i) c4 else c4)"
    by (rule pre_end_eq [OF res i j])
  have t0: "threads c0 = threads c" "keys c0 = keys c" "key_table c0 = key_table c" by (subst c0, simp)+
  have jd: "j < depth (thr c i)" using find_frame_Some [OF j] by simp
  have i0: "i < length (threads c0)" using i t0 by simp
  note S2 = close_above_step [OF c2 i0] and K2 = close_above_counts [OF c2 i0, of k]
  have i2: "i < length (threads c2)" using S2 i0 by (simp add: own_step_def)
  note S3 = close_frame_step [OF c3 i2]
  have i3: "i < length (threads c3)" using S3 i2 by (simp add: own_step_def)
  let ?sp = "spine (thr c i)"
  have sp2: "spine (thr c2 i) = take j ?sp @ [?sp ! j]"
    using S2 jd t0 by (simp add: take_Suc_conv_app_nth)
  note K3 = close_frame_counts [OF c3 i2 sp2, of k]
  have sp3: "spine (thr c3 i) = take j ?sp" using S3 by (simp add: sp2)
  have dr: "drop j ?sp = ?sp ! j # drop (Suc j) ?sp" using jd by (simp add: Cons_nth_drop_Suc)
  have I: "inert c' = inert c3" by (simp add: c' Let_def)
  have "stack (thr c' i) = stack (thr c3 i)" "stats (thr c' i) = stats (thr c3 i)" "total (thr c' i) = total (thr c3 i)"
    using restD(1,2,3) [OF inert_thread [OF I i3]] by simp_all
  then have "spine (thr c' i) = spine (thr c3 i)" "stats_base (thr c' i) = stats_base (thr c3 i)"
    "total (thr c' i) = total (thr c3 i)"
    by (simp_all add: spine_def stats_base_def)
  then show ?thesis
    using S2 S3 K2 K3 sp3 inertD(1,2) [OF I] t0 by (auto simp: dr)
qed

subsection \<open>Leaving a thread\<close>

text \<open>The loops that close frames come to an end with all frames closed, as long as the statistics of the
  thread can be allocated and its keys have entries there.\<close>

lemma close_frame_returns:
  assumes "stats (thr c i) \<noteq> None \<or> stats_alloc A i" and "f_key (last (stack (thr c i))) < MAX_KEYS"
  shows "\<exists>c'. close_frame A i tot se te b c = Some c'"
  using assms by (auto simp: close_frame_def stats_for_def Let_def split: option.split)

lemma close_above_returns:
  assumes "i < length (threads c)" and "stats (thr c i) \<noteq> None \<or> stats_alloc A i"
    and "\<forall>(k, a) \<in> set (spine (thr c i)). k < MAX_KEYS"
  shows "\<exists>c'. close_above A i tot se te d c = Some c'"
  using assms
proof (induction A i tot se te d c rule: close_above.induct)
  case (1 A i tot se te d c)
  show ?case
  proof (cases "d < depth (thr c i)")
    case False
    then show ?thesis by (simp add: close_above.simps [of A i tot se te d c])
  next
    case True
    then have "f_key (last (stack (thr c i))) < MAX_KEYS"
      using "1.prems"(3) by (cases "stack (thr c i)" rule: rev_cases) (auto simp: spine_def)
    then obtain c1 where c1: "close_frame A i tot se te True c = Some c1"
      using close_frame_returns "1.prems"(2) by blast
    note S = close_frame_step [OF c1 "1.prems"(1)]
    have "stats (thr c1 i) \<noteq> None" using close_frame_thr [OF c1 "1.prems"(1)] by auto
    moreover have "i < length (threads c1)" using S "1.prems"(1) by (simp add: own_step_def)
    moreover have "\<forall>(k, a) \<in> set (spine (thr c1 i)). k < MAX_KEYS"
      using S "1.prems"(3) by (auto dest: in_set_butlastD)
    ultimately have "\<exists>c'. close_above A i tot se te d c1 = Some c'"
      using "1.IH" [OF _ c1] True "1.prems"(1) by blast
    then show ?thesis
      using c1 True "1.prems"(1) by (simp add: close_above.simps [of A i tot se te d c])
  qed
qed

lemma close_above_stats:
  "close_above A i tot se te d c = Some c' \<Longrightarrow> i < length (threads c) \<Longrightarrow> stats (thr c i) \<noteq> None \<Longrightarrow> stats (thr c' i) \<noteq> None"
proof (induction A i tot se te d c rule: close_above.induct)
  case (1 A i tot se te d c)
  show ?case
  proof (cases "d < depth (thr c i)")
    case True
    then obtain c1 where c1: "close_frame A i tot se te True c = Some c1" "close_above A i tot se te d c1 = Some c'"
      using "1.prems" by (auto simp: close_above.simps [of A i tot se te d c] split: Option.bind_splits)
    have "stats (thr c1 i) \<noteq> None" using close_frame_thr [OF c1(1) "1.prems"(2)] by auto
    moreover have "i < length (threads c1)" using close_frame_step [OF c1(1) "1.prems"(2)] "1.prems"(2) by (simp add: own_step_def)
    ultimately show ?thesis using "1.IH" [OF _ c1] True "1.prems"(2) by simp
  next
    case False
    with "1.prems" show ?thesis by (simp add: close_above.simps [of A i tot se te d c])
  qed
qed

lemma pre_end_returns:
  assumes i: "i < length (threads c)" and st: "stats (thr c i) \<noteq> None \<or> stats_alloc A i"
    and k: "\<forall>(k, a) \<in> set (spine (thr c i)). k < MAX_KEYS"
  shows "\<exists>c'. pre_end A i reg now c = Some c'"
proof (cases "find_frame (keys c) (stack (thr c i)) (region_name reg) (depth (thr c i))")
  case None
  then show ?thesis by (simp add: pre_end_def Let_def)
next
  case (Some j)
  let ?se = "if 0 < opt_trace c then seq_counter c + 1 else 0" and ?te = "if 0 < opt_trace c then now else 0"
  let ?c1 = "if 0 < opt_trace c then c\<lparr>seq_counter := seq_counter c + 1\<rparr> else c"
  have t: "threads ?c1 = threads c" by simp
  have "\<exists>c2. close_above A i (total (thr c i)) ?se ?te (j + 1) ?c1 = Some c2"
    by (rule close_above_returns) (use i st k in \<open>simp_all add: t\<close>)
  then obtain c2 where c2: "close_above A i (total (thr c i)) ?se ?te (j + 1) ?c1 = Some c2" by blast
  have i1: "i < length (threads ?c1)" using i by (simp add: t)
  note S = close_above_step [OF c2 i1]
  have j: "j < depth (thr c i)" using find_frame_Some [OF Some] by simp
  have sp: "spine (thr c2 i) = take (j + 1) (spine (thr c i))" using S by (simp add: t)
  then have "stack (thr c2 i) \<noteq> []" using j by (metis length_0_conv length_spine length_take min_less_iff_conj neq0_conv spine_Nil Suc_eq_plus1 zero_less_Suc less_nat_zero_code)
  then have "f_key (last (stack (thr c2 i))) \<in> fst ` set (spine (thr c2 i))" by (force simp: spine_def)
  then obtain a where "(f_key (last (stack (thr c2 i))), a) \<in> set (take (j + 1) (spine (thr c i)))"
    unfolding sp by force
  then have "f_key (last (stack (thr c2 i))) < MAX_KEYS" using k in_set_takeD by fastforce
  moreover have "stats (thr c2 i) \<noteq> None \<or> stats_alloc A i" using close_above_stats [OF c2 i1] st by (auto simp: t)
  ultimately obtain c3 where "close_frame A i (total (thr c i)) ?se ?te False c2 = Some c3"
    using close_frame_returns by blast
  then show ?thesis using c2 Some by (simp add: pre_end_def Let_def)
qed

lemma thread_exit_effect:
  assumes i: "i < length (threads c)" and res: "event_thread_exit A i now c = Some c'"
  shows "stack (thr c' i) = [] \<and> \<not> alive (thr c' i) \<and> final_total (thr c' i) = total (thr c i) \<and> keys c' = keys c \<and>
    count (stats_base (thr c' i) k) = count (stats_base (thr c i) k) + keyed k (spine (thr c i)) \<and>
    implicit_ends (stats_base (thr c' i) k) = implicit_ends (stats_base (thr c i) k) + keyed k (spine (thr c i))"
proof -
  let ?c0 = "c\<lparr>seq_counter := seq_counter c + 1\<rparr>"
  obtain c1 where c1: "close_above A i (total (thr c i)) (seq_counter c + 1) now 0 ?c0 = Some c1"
    and c': "c' = (let c2 = upd_thr i (\<lambda>t. t\<lparr>final_total := total (thr c i), alive := False\<rparr>) c1
      in if leader c2 = Some i then update_shared A None c2 else c2)"
    using res by (auto simp: event_thread_exit_def Let_def split: Option.bind_splits)
  have i0: "i < length (threads ?c0)" using i by simp
  note S = close_above_step [OF c1 i0] and K = close_above_counts [OF c1 i0, of k]
  have i1: "i < length (threads c1)" using S i0 by (simp add: own_step_def)
  let ?c2 = "upd_thr i (\<lambda>t. t\<lparr>final_total := total (thr c i), alive := False\<rparr>) c1"
  have I: "inert c' = inert ?c2" by (simp add: c' Let_def)
  have R: "rest (thr c' i) = rest (thr ?c2 i)" using inert_thread [OF I, of i] i1 by simp
  have "spine (thr c1 i) = []" using S by simp
  then have st: "stack (thr c1 i) = []" by simp
  have "stats_base (thr c' i) = stats_base (thr c1 i)" using restD(3) [OF R] i1 by (simp add: stats_base_def)
  then show ?thesis
    using restD(1,8,11) [OF R] i1 st S K inertD(1) [OF I] by simp
qed

end
