(* ===== verification/Names.thy ===== *)
theory Names
  imports SelfCost Effects
begin

text \<open>
  The names of regions over whole runs. \<open>ran\<close> is a run of the client from its start. In any run every
  key's strings are short, whatever the program passes to the markers; and if all names that it
  passes are clean (they fit and do not contain the separator), the key table and the caches of all
  threads agree at all times, so that every frame carries the name its region was opened with.
\<close>

definition ran :: "('h, 'p) dr_api \<Rightarrow> options \<Rightarrow> addr \<Rightarrow> event list \<Rightarrow> ('h, 'p) world \<Rightarrow> bool" where
  "ran A oc main es w \<longleftrightarrow> ht_laws A \<and> pt_laws A \<and> 1024 \<le> unat (opt_max_slots oc) \<and>
     opt_max_slots oc \<le> 2 ^ 28 \<and> list_all event_ok es \<and> run (step A) (init_world A oc main) es = Some w"

lemma ran_inv: "ran A oc main es w \<Longrightarrow> world_inv A w"
  unfolding ran_def by (blast intro: callbacks.run_inv init_world_inv)

text \<open>An invariant that every step keeps while the world invariant holds.\<close>

lemma ran_induct:
  assumes ran: "ran A oc main es w" and init: "P (init_world A oc main)" and ok: "list_all Q es"
    and step: "\<And>e v v'. world_inv A v \<Longrightarrow> P v \<Longrightarrow> Q e \<Longrightarrow> event_ok e \<Longrightarrow> step A v e = Some v' \<Longrightarrow> P v'"
  shows "P w"
proof -
  have M: "machine (step A) (\<lambda>e. event_ok e \<and> Q e) (\<lambda>v. world_inv A v \<and> P v)"
    by unfold_locales (auto intro: step step_inv)
  have "list_all (\<lambda>e. event_ok e \<and> Q e) es" using ok ran by (simp add: ran_def list_all_iff)
  moreover have "world_inv A (init_world A oc main) \<and> P (init_world A oc main)"
    using init ran by (simp add: ran_def init_world_inv)
  moreover have "run (step A) (init_world A oc main) es = Some w" using ran by (simp add: ran_def)
  ultimately show ?thesis using machine.run_inv [OF M] by blast
qed

subsection \<open>What is interned\<close>

definition caches_of :: "'h thread \<Rightarrow> 'h \<times> (nat \<Rightarrow> u64 \<times> nat option)" where
  "caches_of t = (key_cache t, fast t)"

definition interned :: "('h, 'z) client_scheme \<Rightarrow> rkey list \<times> 'h \<times> ('h \<times> (nat \<Rightarrow> u64 \<times> nat option)) list" where
  "interned c = (keys c, key_table c, map caches_of (threads c))"

lemma interned_inert:
  assumes "inert c' = inert c"
  shows "interned c' = interned c"
proof -
  have "map caches_of ts = map caches_of (map rest ts)" for ts :: "'a thread list"
    by (simp add: caches_of_def rest_def)
  then show ?thesis using inertD(1,2,5) [OF assms] by (metis interned_def)
qed

lemma interned_upd_thr: "(\<And>t. caches_of (f t) = caches_of t) \<Longrightarrow> interned (upd_thr i f c) = interned c"
  by (simp add: interned_def upd_thr_def map_upd_nth_same)

lemma interned_marks [simp]:
  "interned (c\<lparr>seq_counter := n\<rparr>) = interned c" "interned (c\<lparr>unmatched_ends := n\<rparr>) = interned c"
  "interned (c\<lparr>state_overflows := n\<rparr>) = interned c" "interned (c\<lparr>trace_records := n, trace_dropped := m\<rparr>) = interned c"
  "interned (c\<lparr>marker_seen := b, depth_overflows := n\<rparr>) = interned c" "interned (c\<lparr>marker_seen := b\<rparr>) = interned c"
  by (simp_all add: interned_def)

lemma interned_close_frame: "close_frame A i tot se te b c = Some c' \<Longrightarrow> interned c' = interned c"
  by (drule close_frame_eq) (auto simp: interned_upd_thr caches_of_def)

lemma interned_close_above: "close_above A i tot se te d c = Some c' \<Longrightarrow> interned c' = interned c"
proof (induction A i tot se te d c rule: close_above.induct)
  case (1 A i tot se te d c)
  then show ?case
    by (auto simp: close_above.simps [of A i tot se te d c] dest!: interned_close_frame split: Option.bind_splits if_splits)
qed

lemma interned_pre_end:
  assumes res: "pre_end A i reg now c = Some c'" and i: "i < length (threads c)"
  shows "interned c' = interned c"
proof (cases "find_frame (keys c) (stack (thr c i)) (region_name reg) (depth (thr c i))")
  case None
  then show ?thesis using res by (auto simp: pre_end_def Let_def)
next
  case (Some j)
  obtain c0 c2 c3 se te where c0: "c0 = c\<lparr>seq_counter := seq_counter c0\<rparr>"
    and c2: "close_above A i (total (thr c i)) se te (j + 1) c0 = Some c2"
    and c3: "close_frame A i (total (thr c i)) se te False c2 = Some c3"
    and c': "c' = (let c4 = reinstall A i c3 in if leader c4 = Some i then update_shared A (Some i) c4 else c4)"
    by (rule pre_end_eq [OF res i Some])
  have "interned c' = interned c3" by (rule interned_inert) (simp add: c' Let_def)
  also have "\<dots> = interned c0" using interned_close_above [OF c2] interned_close_frame [OF c3] by simp
  also have "\<dots> = interned c" by (subst c0) simp
  finally show ?thesis .
qed

lemma interned_thread_exit:
  assumes "event_thread_exit A i now c = Some c'"
  shows "interned c' = interned c"
proof -
  obtain c1 where c1: "close_above A i (total (thr c i)) (seq_counter c + 1) now 0 (c\<lparr>seq_counter := seq_counter c + 1\<rparr>) = Some c1"
    and c': "c' = (let c2 = upd_thr i (\<lambda>t. t\<lparr>final_total := total (thr c i), alive := False\<rparr>) c1
      in if leader c2 = Some i then update_shared A None c2 else c2)"
    using assms by (auto simp: event_thread_exit_def Let_def split: Option.bind_splits)
  have "interned c' = interned (upd_thr i (\<lambda>t. t\<lparr>final_total := total (thr c i), alive := False\<rparr>) c1)"
    by (rule interned_inert) (simp add: c' Let_def)
  also have "\<dots> = interned c1" by (rule interned_upd_thr) (simp add: caches_of_def)
  finally show ?thesis using interned_close_above [OF c1] by simp
qed

lemma interned_thread_init:
  assumes "event_thread_init A tno c = Some c'"
  shows "interned c' = (keys c, key_table c, map caches_of (threads c) @ [(ht_new A, \<lambda>_. (0, None))])"
proof -
  define c1 where "c1 = c\<lparr>threads := threads c @ [new_thread A tno (nthreads_seen c)], nthreads_seen := nthreads_seen c + 1\<rparr>"
  obtain a c2 where s: "slots_for A (shared_key c1) (index (thr c1 (length (threads c)))) c1 = (a, c2)"
    by (cases "slots_for A (shared_key c1) (index (thr c1 (length (threads c)))) c1")
  have c': "c' = set_thread_cur (length (threads c)) a c2"
    using assms s by (simp add: event_thread_init_def Let_def c1_def split: if_splits)
  have "interned c' = interned c1" by (rule interned_inert) (simp add: c' inert_slots_for_eq [OF s])
  then show ?thesis by (simp add: interned_def c1_def caches_of_def new_thread_def)
qed

lemma interned_exec_block:
  assumes inv: "world_inv A w" and en: "enabled w (Exec i p)" and res: "exec_block i p w = Some w'"
  shows "interned w' = interned w"
proof -
  have i: "i < length (threads w)" and p: "p \<in> code w" using en by (simp_all add: enabled_def)
  have "interned (counted i s n w) = interned w" for s n
    using interned_upd_thr [of "\<lambda>t. t\<lparr>total := total t + n\<rparr>" i w]
    by (simp add: counted_def Let_def caches_of_def) (simp add: interned_def)
  then show ?thesis using exec_block_spec [OF inv p i] res by (auto split: if_splits)
qed

lemma interned_build_block: "interned (build_block A i x pc n mo w) = interned w"
proof -
  have "interned (event_app2app x i w) = interned w"
    unfolding event_app2app_def by (rule interned_upd_thr) (simp add: caches_of_def)
  moreover have "interned (build_block A i x pc n mo w) = interned (event_app2app x i w)"
    by (cases rule: event_analysis_cases [of A "event_app2app x i w" pc i n mo])
      (simp_all add: build_block_def assign_slot_def interned_def)
  ultimately show ?thesis by simp
qed

text \<open>Only a begin interns anything, and only a new thread adds caches.\<close>

fun begins :: "event \<Rightarrow> bool" where
  "begins (Begin i r sn sv now) = True"
| "begins (Begin_v i r n ns vs now) = True"
| "begins _ = False"

lemma handle_interned:
  assumes inv: "world_inv A w" and en: "enabled w e" and h: "handle A w e = Some w'" and b: "\<not> begins e"
  shows "interned w' = interned w \<or>
    interned w' = (keys w, key_table w, map caches_of (threads w) @ [(ht_new A, \<lambda>_. (0, None))])"
proof (cases e)
  case (Thread_init tno)
  with h interned_thread_init [of A tno w w'] show ?thesis by simp
next
  case (Thread_exit i now)
  with h interned_thread_exit [of A i now w w'] show ?thesis by simp
next
  case (End i r now)
  with h en interned_pre_end [of A i r now w w'] show ?thesis by (simp add: enabled_def)
next
  case (State i nm v)
  have "interned (pre_state i nm v w) = interned w"
    by (auto simp: pre_state_def Let_def caches_of_def intro: interned_upd_thr)
  with State h show ?thesis by auto
next
  case (Syscall i)
  have "interned (event_pre_syscall i w) = interned w"
    unfolding event_pre_syscall_def by (rule interned_upd_thr) (simp add: caches_of_def)
  with Syscall h show ?thesis by auto
next
  case (Load d)
  with h show ?thesis by (auto simp: interned_def event_module_load_same)
next
  case (Build i x pc n mo)
  with h interned_build_block [of A i x pc n mo w] show ?thesis by auto
next
  case (Exec i p)
  with h en interned_exec_block [OF inv, of i p w'] show ?thesis by simp
qed (use b in simp_all)

subsection \<open>Short names, always\<close>

definition short_keys :: "('h, 'z) keyst_scheme \<Rightarrow> bool" where
  "short_keys s \<longleftrightarrow> (\<forall>k \<in> set (keys s). length (region k) < RNAME_MAX)"

lemma region_make_key: "length (region (make_key r sts ov par rt idx)) < RNAME_MAX"
  using length_safe_strcpy [of RNAME_MAX "Some r"] by (simp add: make_key_def RNAME_MAX_def)

lemma get_key_short:
  assumes "get_key A r sts par rt t s = Some (i, t', s')" and "short_keys s"
  shows "short_keys s'"
  using assms
  by (auto simp: get_key_def get_key_slow_def intern_key_def Let_def short_keys_def region_make_key
      dest!: add_key_keys split: option.splits prod.splits if_splits)

subsection \<open>Clean names\<close>

definition names_inv :: "('h, 'p) dr_api \<Rightarrow> ('h, 'z) client_scheme \<Rightarrow> bool" where
  "names_inv A c \<longleftrightarrow> table_inv A c \<and> (\<forall>j<length (threads c). cache_inv A c (thr c j))"

lemma cache_inv_cong:
  "keys c' = keys c \<Longrightarrow> key_table c' = key_table c \<Longrightarrow> caches_of t' = caches_of t \<Longrightarrow> cache_inv A c' t' = cache_inv A c t"
  by (simp add: cache_inv_def caches_of_def)

lemma table_inv_cong:
  "keys c' = keys c \<Longrightarrow> key_table c' = key_table c \<Longrightarrow> table_inv A c' = table_inv A c"
  by (simp add: table_inv_def)

lemma names_invI:
  assumes "table_inv A s" and "keys c = keys s" "key_table c = key_table s"
    and "map caches_of (threads c) = map caches_of ts" and "\<And>t. t \<in> set ts \<Longrightarrow> cache_inv A s t"
  shows "names_inv A c"
proof -
  have len: "length (threads c) = length ts" using assms(4) map_eq_imp_length_eq by blast
  have "cache_inv A c (thr c j)" if "j < length (threads c)" for j
  proof -
    have "caches_of (thr c j) = caches_of (ts ! j)" using assms(4) that len by (metis nth_map)
    then have "cache_inv A c (thr c j) = cache_inv A s (ts ! j)"
      using assms(2,3) by (simp add: cache_inv_def caches_of_def)
    then show ?thesis using assms(5) that len by simp
  qed
  moreover have "table_inv A c" using assms(1-3) by (simp add: table_inv_def)
  ultimately show ?thesis by (simp add: names_inv_def)
qed

lemma names_inv_thread: "names_inv A c \<Longrightarrow> t \<in> set (threads c) \<Longrightarrow> cache_inv A c t"
  by (auto simp: names_inv_def in_set_conv_nth)

lemma names_inv_interned:
  assumes "names_inv A c" and "interned c' = interned c"
  shows "names_inv A c'"
  by (rule names_invI [where s = c and ts = "threads c"])
    (use assms names_inv_thread [OF assms(1)] in \<open>auto simp: interned_def names_inv_def\<close>)

text \<open>The states a marker passes.\<close>

definition clean_states :: "states \<Rightarrow> bool" where
  "clean_states sts \<longleftrightarrow> 1 \<le> length sts \<and> length sts \<le> KEY_STATES \<and>
     list_all (\<lambda>s. fits STATE_NAME_MAX (fst s) \<and> sep_free (fst s)) sts"

definition clean_name :: "nat \<Rightarrow> string \<Rightarrow> bool" where
  "clean_name n s \<longleftrightarrow> fits n s \<and> sep_free s"

lemma clean_call_parts:
  "clean_name RNAME_MAX r \<Longrightarrow> clean_states sts \<Longrightarrow> clean_name RNAME_MAX rt \<Longrightarrow> clean_call r sts rt"
  by (simp add: clean_call_def short_call_def clean_name_def clean_states_def list_all_iff)

fun event_clean :: "event \<Rightarrow> bool" where
  "event_clean (Begin i r sn sv now) \<longleftrightarrow> clean_name RNAME_MAX (region_name r) \<and>
     (case sn of None \<Rightarrow> True | Some s \<Rightarrow> clean_name STATE_NAME_MAX s)"
| "event_clean (Begin_v i r n ns vs now) \<longleftrightarrow> clean_name RNAME_MAX (region_name r) \<and>
     (case ns of None \<Rightarrow> True | Some nf \<Rightarrow> \<forall>k s. nf k = Some (Some s) \<longrightarrow> clean_name STATE_NAME_MAX s)"
| "event_clean _ \<longleftrightarrow> True"

lemma read_states_length: "length (read_states ns vs i n) \<le> n"
  by (induction ns vs i n rule: read_states.induct) (auto split: option.split)

lemma read_states_clean:
  "(\<And>nf k s. ns = Some nf \<Longrightarrow> nf k = Some (Some s) \<Longrightarrow> clean_name STATE_NAME_MAX s) \<Longrightarrow>
     list_all (\<lambda>s. clean_name STATE_NAME_MAX (fst s)) (read_states ns vs i n)"
  by (induction ns vs i n rule: read_states.induct) (auto split: option.split)

lemma clean_name_Nil [simp]: "clean_name RNAME_MAX []" "clean_name STATE_NAME_MAX []"
  by (simp_all add: clean_name_def fits_def nul_free_def sep_free_def key_limits)

text \<open>Every begin is a call of \<open>begin_common\<close> with between one and four states.\<close>

text \<open>The region a begin names.\<close>

fun named :: "event \<Rightarrow> string option" where
  "named (Begin i r sn sv now) = r"
| "named (Begin_v i r n ns vs now) = r"
| "named _ = None"

lemma begins_common:
  assumes "begins e" and "handle A w e = Some w'"
  obtains i reg sts now c where "begin_common A i reg sts now c = Some w'" "actor e = Some i"
    "c = w \<or> c = w\<lparr>state_overflows := state_overflows w + 1\<rparr>" "1 \<le> length sts" "length sts \<le> KEY_STATES"
    "event_clean e \<Longrightarrow> clean_name RNAME_MAX (region_name reg) \<and> clean_states sts" "reg = named e"
proof (cases e)
  case (Begin i r sn sv now)
  show ?thesis
    by (rule that [of i r "[((case sn of None \<Rightarrow> [] | Some s \<Rightarrow> s), sv)]" now w])
      (use assms(2) Begin in \<open>auto simp: pre_begin_def clean_states_def clean_name_def key_limits fits_def nul_free_def sep_free_def
         split: option.splits\<close>)
next
  case (Begin_v i r n ns vs now)
  define c1 where "c1 = (if int KEY_STATES < n then w\<lparr>state_overflows := state_overflows w + 1\<rparr> else w)"
  define n1 where "n1 = (if int KEY_STATES < n then int KEY_STATES else n)"
  define sts where "sts = read_states ns vs 0 (nat n1)"
  have b: "begin_common A i r (if sts = [] then [([], 0)] else sts) now c1 = Some w'"
    using assms(2) unfolding Begin_v handle.simps pre_begin_v_def Let_def c1_def n1_def sts_def .
  have len: "length sts \<le> KEY_STATES"
    using read_states_length [of ns vs 0 "nat n1"] by (simp add: sts_def n1_def KEY_STATES_def split: if_splits)
  have "list_all (\<lambda>s. clean_name STATE_NAME_MAX (fst s)) sts" if "event_clean e"
    unfolding sts_def by (rule read_states_clean) (use that Begin_v in auto)
  then have "event_clean e \<Longrightarrow> clean_states (if sts = [] then [([], 0)] else sts)"
    using len clean_name_Nil(2) by (auto simp: clean_states_def clean_name_def KEY_STATES_def Suc_le_eq list_all_iff)
  then show ?thesis
    by (intro that [OF b]) (use Begin_v len in \<open>auto simp: c1_def KEY_STATES_def Suc_le_eq\<close>)
qed (use assms(1) in simp_all)

text \<open>The enclosing regions of a begin have clean names.\<close>

lemma key_clean_region: "key_clean k \<Longrightarrow> clean_name RNAME_MAX (region k)"
  by (auto simp: key_clean_def clean_call_def short_call_def clean_name_def split: if_splits)

lemma begin_call_root:
  assumes "control_inv A c" "table_inv A c" "i < length (threads c)"
  shows "clean_name RNAME_MAX (snd (begin_call c i))"
proof (cases "stack (thr c i)")
  case (Cons f fs)
  have "thr_base A c (thr c i)" using assms(1,3) by (auto simp: control_inv_def thr_ok_def dest: threads_okD)
  then have "f_key f < length (keys c)" using Cons by (auto simp: thr_base_def spine_def)
  then show ?thesis using table_inv_clean [OF assms(2)] Cons by (simp add: begin_call_def key_clean_region)
qed (simp add: begin_call_def)

text \<open>The key of a clean call is a key of its region.\<close>

lemma key_result_region:
  assumes res: "key_result A s s' r sts rt i" and cl: "clean_call r sts rt"
  shows "i < length (keys s') \<and> region (keys s' ! i) = r"
proof -
  have inv: "table_inv A s'" and i: "i < length (keys s')" using res by (simp_all add: key_result_def)
  have "key_text (keys s' ! i) = plain_key r sts rt \<or> key_text (keys s' ! i) = r @ SOH # ''<other>''"
    using res table_inv_lookup [OF inv] by (auto simp: key_result_def)
  then show ?thesis
    using key_text_call [OF cl table_inv_clean [OF inv i]] key_text_other [OF table_inv_clean [OF inv i]] cl i
    by (auto simp: clean_call_def)
qed

lemma names_inv_marks [simp]:
  "names_inv A (c\<lparr>marker_seen := b\<rparr>) = names_inv A c" "names_inv A (c\<lparr>state_overflows := n\<rparr>) = names_inv A c"
  by (simp_all add: names_inv_def table_inv_def cache_inv_def)

lemma begin_common_names:
  assumes C: "control_inv A c" and N: "names_inv A c" and laws: "ht_laws A" "snprintf_laws A"
    and i: "i < length (threads c)" and cl: "clean_name RNAME_MAX (region_name reg)" "clean_states sts"
    and res: "begin_common A i reg sts now c = Some c'"
  shows "names_inv A c' \<and>
    (depth (thr c i) < MAX_DEPTH \<longrightarrow> (\<exists>f. stack (thr c' i) = stack (thr c i) @ [f] \<and> total_at_begin f = total (thr c i) \<and>
       children_incl f = 0 \<and> region (keys c' ! f_key f) = region_name reg))"
  using res i
proof (cases rule: begin_common_inert)
  case overflow
  then show ?thesis using names_inv_interned [OF N, of c'] by auto
next
  case (opened k t' c1 f sq)
  let ?c = "c\<lparr>marker_seen := True\<rparr>"
  have inv: "table_inv A ?c" "cache_inv A ?c (thr c i)" using N i by (simp_all add: names_inv_def table_inv_def cache_inv_def)
  have call: "clean_call (region_name reg) sts (snd (begin_call c i))"
    using begin_call_root [OF C _ i] N cl by (intro clean_call_parts) (simp_all add: names_inv_def)
  note G = get_key_spec [OF laws inv call opened(1)]
  have g: "grows A ?c c1" "table_inv A c1" "cache_inv A c1 t'" using G by (simp_all add: key_result_def)
  have t: "threads c1 = threads c" using same_keyst_client(1) [OF opened(2)] by simp
  have th: "map caches_of (threads c') = map caches_of ((threads c)[i := t'])"
  proof -
    have "interned c' = interned (upd_thr i (\<lambda>_. t'\<lparr>stack := stack t' @ [f]\<rparr>) (c1\<lparr>seq_counter := sq\<rparr>))"
      by (rule interned_inert [OF opened(4)])
    then show ?thesis by (simp add: interned_def upd_thr_def upd_nth_def map_update t caches_of_def)
  qed
  have k: "keys c' = keys c1" "key_table c' = key_table c1" using inertD(1,2) [OF opened(4)] by simp_all
  have "names_inv A c'"
  proof (rule names_invI [OF g(2) k th])
    fix t assume "t \<in> set ((threads c)[i := t'])"
    then have "t = t' \<or> t \<in> set (threads c)" using set_update_subset_insert [of "threads c" i t'] by blast
    then show "cache_inv A c1 t"
      using g(3) cache_inv_grows [OF _ g(1), of t] names_inv_thread [OF N] by (auto simp: cache_inv_def)
  qed
  moreover have "\<exists>f. stack (thr c' i) = stack (thr c i) @ [f] \<and> total_at_begin f = total (thr c i) \<and>
       children_incl f = 0 \<and> region (keys c' ! f_key f) = region_name reg"
  proof -
    obtain g t2 c2 where g: "stack (thr c' i) = stack (thr c i) @ [g]" "total_at_begin g = total (thr c i)" "children_incl g = 0"
      "get_key A (region_name reg) sts (fst (begin_call c i)) (snd (begin_call c i)) (thr c i) ?c = Some (f_key g, t2, c2)"
      by (rule begin_pushes [OF res i opened(10)]) blast
    then have "f_key g = k" using opened(1) by simp
    with key_result_region [OF conjunct1 [OF G] call] g k show ?thesis by auto
  qed
  ultimately show ?thesis by blast
qed

subsection \<open>Runs\<close>

lemma step_names:
  assumes inv: "world_inv A w" and N: "names_inv A w" and laws: "snprintf_laws A" and cl: "event_clean e"
    and res: "step A w e = Some w'"
  shows "names_inv A w'"
proof -
  have en: "enabled w e" and h: "handle A w e = Some w'" using res by (auto simp: step_def split: if_splits)
  show ?thesis
  proof (cases "begins e")
    case True
    then obtain i reg sts now c where b: "begin_common A i reg sts now c = Some w'" "actor e = Some i"
      "c = w \<or> c = w\<lparr>state_overflows := state_overflows w + 1\<rparr>"
      "clean_name RNAME_MAX (region_name reg) \<and> clean_states sts"
      using h cl by (metis begins_common)
    have "control_inv A c" "names_inv A c" "i < length (threads c)"
      using b(2,3) inv N en by (auto simp: world_inv_def enabled_def)
    then show ?thesis using begin_common_names b(1,4) inv laws by (metis world_inv_def)
  next
    case False
    from handle_interned [OF inv en h False] show ?thesis
    proof
      assume "interned w' = interned w"
      then show ?thesis by (rule names_inv_interned [OF N])
    next
      assume I: "interned w' = (keys w, key_table w, map caches_of (threads w) @ [(ht_new A, \<lambda>_. (0, None))])"
      have new: "cache_inv A w (new_thread A 0 0)"
        by (rule cache_inv_new) (use inv in \<open>simp_all add: new_thread_def world_inv_def\<close>)
      show ?thesis
        by (rule names_invI [where s = w and ts = "threads w @ [new_thread A 0 0]"])
          (use I N new names_inv_thread [OF N] in \<open>auto simp: names_inv_def interned_def caches_of_def new_thread_def\<close>)
    qed
  qed
qed

lemma step_short:
  assumes inv: "world_inv A w" and S: "short_keys w" and res: "step A w e = Some w'"
  shows "short_keys w'"
proof -
  have en: "enabled w e" and h: "handle A w e = Some w'" using res by (auto simp: step_def split: if_splits)
  show ?thesis
  proof (cases "begins e")
    case True
    then obtain i reg sts now c where b: "begin_common A i reg sts now c = Some w'" "actor e = Some i"
      "c = w \<or> c = w\<lparr>state_overflows := state_overflows w + 1\<rparr>"
      using h by (metis begins_common)
    have i: "i < length (threads c)" and k: "keys c = keys w" using b(2,3) en by (auto simp: enabled_def)
    from b(1) i show ?thesis
    proof (cases rule: begin_common_inert)
      case overflow
      then show ?thesis using S k by (simp add: short_keys_def)
    next
      case (opened k' t' c1 f sq)
      have "short_keys c1" by (rule get_key_short [OF opened(1)]) (use S k in \<open>simp add: short_keys_def\<close>)
      then show ?thesis using inertD(1) [OF opened(4)] by (simp add: short_keys_def)
    qed
  next
    case False
    from handle_interned [OF inv en h False] S show ?thesis by (auto simp: short_keys_def interned_def)
  qed
qed

lemma ran_names:
  assumes "ran A oc main es w" and "snprintf_laws A" and "list_all event_clean es"
  shows "names_inv A w"
proof (rule ran_induct [OF assms(1) _ assms(3)])
  show "names_inv A (init_world A oc main)"
    using assms(1) by (simp add: names_inv_def table_inv_def init_world_def ran_def ht_laws_def)
qed (rule step_names [OF _ _ assms(2)])

lemma ran_short:
  assumes "ran A oc main es w"
  shows "short_keys w"
proof (rule ran_induct [OF assms, where Q = "\<lambda>_. True"])
  show "short_keys (init_world A oc main)" by (simp add: short_keys_def init_world_def)
qed (simp_all add: list_all_iff step_short)

end
