(* ===== verification/Symbols.thy ===== *)
theory Symbols
  imports Blocks "HOL-Library.Multiset"
begin

text \<open>
  Symbolisation at exit (\<open>enum_cb\<close>, \<open>msym_cmp\<close>, \<open>nearest_symbol\<close> and \<open>sym_index_for_slot\<close> of
  \<open>client/drperf.c\<close>). What the symbol library reports and \<open>qsort\<close> are a parameter, the record
  \<open>sym_api\<close>; of \<open>qsort\<close> the code needs that it sorts, \<open>qsort_laws\<close>. The binary search is shown to
  find the last symbol at or below an offset, and the symbol table never to have more entries than
  slots were resolved, which is what keeps \<open>write_key\<close> inside its array \<open>sym_sum\<close>.
\<close>

definition SYM_MAX :: nat where "SYM_MAX = 512"

datatype sym_status = Sym_success | Sym_line_not_available | Sym_other

record msym =
  offs :: u64
  ms_name :: string

record modsyms =
  ms_syms :: "msym list"      \<comment> \<open>\<open>n\<close> is the length\<close>
  ms_cap :: nat
  ms_done :: bool

record sym =
  s_mod :: int
  start_offs :: u64
  s_name :: string

record sym_info =
  i_status :: sym_status
  i_name :: string
  i_start :: u64
  i_end :: u64

record sym_api =
  sym_enumerate :: "string \<Rightarrow> (sym_status \<times> string option \<times> u64) list"
  sym_lookup :: "string \<Rightarrow> u64 \<Rightarrow> sym_info"
  qsort_msym :: "msym list \<Rightarrow> msym list"

subsection \<open>The symbols of a module\<close>

definition enum_cb :: "sym_status \<times> string option \<times> u64 \<Rightarrow> modsyms \<Rightarrow> modsyms" where
  "enum_cb info ms = (case info of (status, nm, so) \<Rightarrow>
     (case nm of
        None \<Rightarrow> ms
      | Some name \<Rightarrow>
          if (status \<noteq> Sym_success \<and> status \<noteq> Sym_line_not_available) \<or> name = [] then ms
          else
            (let cap = (if length (ms_syms ms) = ms_cap ms
                        then (if ms_cap ms = 0 then 4096 else ms_cap ms * 2) else ms_cap ms);
                 len = (if SYM_MAX \<le> length name then SYM_MAX - 1 else length name)
             in ms\<lparr>ms_syms := ms_syms ms @ [\<lparr>offs = so, ms_name = take len name\<rparr>], ms_cap := cap\<rparr>)))"

definition msym_cmp :: "msym \<Rightarrow> msym \<Rightarrow> int" where
  "msym_cmp a b = (if offs a < offs b then -1 else if offs b < offs a then 1 else 0)"

text \<open>What the C library promises of \<open>qsort\<close> with this comparison.\<close>

definition qsort_laws :: "sym_api \<Rightarrow> bool" where
  "qsort_laws Y \<longleftrightarrow> (\<forall>xs. mset (qsort_msym Y xs) = mset xs \<and>
     sorted_wrt (\<lambda>a b. msym_cmp a b \<le> 0) (qsort_msym Y xs))"

definition load_syms :: "sym_api \<Rightarrow> string \<Rightarrow> modsyms \<Rightarrow> modsyms" where
  "load_syms Y path ms =
     (if ms_done ms then ms
      else (let ms' = fold enum_cb (sym_enumerate Y path) (ms\<lparr>ms_done := True\<rparr>)
            in if 1 < length (ms_syms ms') then ms'\<lparr>ms_syms := qsort_msym Y (ms_syms ms')\<rparr> else ms'))"

function bsearch :: "msym list \<Rightarrow> u64 \<Rightarrow> nat \<Rightarrow> nat \<Rightarrow> nat" where
  "bsearch xs o' lo hi =
     (if lo < hi
      then (let mid = (lo + hi + 1) div 2 in
            if offs (xs ! mid) \<le> o' then bsearch xs o' mid hi else bsearch xs o' lo (mid - 1))
      else lo)"
  by pat_completeness auto
termination
  by (relation "measure (\<lambda>(xs, o', lo, hi). hi - lo)") auto

declare bsearch.simps [simp del]

definition nearest :: "modsyms \<Rightarrow> u64 \<Rightarrow> msym option" where
  "nearest ms o' =
     (if length (ms_syms ms) = 0 \<or> o' < offs (ms_syms ms ! 0) then None
      else Some (ms_syms ms ! bsearch (ms_syms ms) o' 0 (length (ms_syms ms) - 1)))"

definition nearest_symbol :: "sym_api \<Rightarrow> string \<Rightarrow> u64 \<Rightarrow> modsyms \<Rightarrow> msym option \<times> modsyms" where
  "nearest_symbol Y path o' ms = (let ms' = load_syms Y path ms in (nearest ms' o', ms'))"

subsection \<open>The search is right\<close>

text \<open>What stays true of the bounds: everything up to \<open>lo\<close> is at or below the offset, everything after
  \<open>hi\<close> is above.\<close>

lemma bsearch_spec:
  assumes "sorted (map offs xs)" "lo \<le> hi" "hi < length xs"
    and "offs (xs ! lo) \<le> o'" and "\<forall>i<length xs. hi < i \<longrightarrow> o' < offs (xs ! i)"
  shows "bsearch xs o' lo hi < length xs \<and> offs (xs ! bsearch xs o' lo hi) \<le> o' \<and>
    (\<forall>i<length xs. bsearch xs o' lo hi < i \<longrightarrow> o' < offs (xs ! i))"
  using assms
proof (induction xs o' lo hi rule: bsearch.induct)
  case (1 xs o' lo hi)
  show ?case
  proof (cases "lo < hi")
    case False
    then have "bsearch xs o' lo hi = lo" by (simp add: bsearch.simps [of xs o' lo hi])
    with False "1.prems" show ?thesis by simp
  next
    case True
    define mid where "mid = (lo + hi + 1) div 2"
    have m: "lo < mid" "mid \<le> hi" using True by (simp_all add: mid_def)
    show ?thesis
    proof (cases "offs (xs ! mid) \<le> o'")
      case le: True
      then have "bsearch xs o' lo hi = bsearch xs o' mid hi"
        using True by (simp add: bsearch.simps [of xs o' lo hi] mid_def Let_def)
      moreover from "1.IH"(1) [OF True mid_def le] "1.prems" m le have
        "bsearch xs o' mid hi < length xs \<and> offs (xs ! bsearch xs o' mid hi) \<le> o' \<and>
         (\<forall>i<length xs. bsearch xs o' mid hi < i \<longrightarrow> o' < offs (xs ! i))" by simp
      ultimately show ?thesis by simp
    next
      case gt: False
      have "o' < offs (xs ! i)" if "i < length xs" "mid - 1 < i" for i
      proof -
        have "offs (xs ! mid) \<le> offs (xs ! i)"
          using sorted_nth_mono [OF "1.prems"(1), of mid i] that m "1.prems"(3) by simp
        with gt show ?thesis by simp
      qed
      then have "bsearch xs o' lo (mid - 1) < length xs \<and> offs (xs ! bsearch xs o' lo (mid - 1)) \<le> o' \<and>
         (\<forall>i<length xs. bsearch xs o' lo (mid - 1) < i \<longrightarrow> o' < offs (xs ! i))"
        using "1.IH"(2) [OF True mid_def gt] "1.prems" m by simp
      moreover have "bsearch xs o' lo hi = bsearch xs o' lo (mid - 1)"
        using True gt by (simp add: bsearch.simps [of xs o' lo hi] mid_def Let_def)
      ultimately show ?thesis by simp
    qed
  qed
qed

text \<open>\<open>x\<close> is the last symbol at or below the offset, in the order of addresses.\<close>

definition last_below :: "msym list \<Rightarrow> u64 \<Rightarrow> msym \<Rightarrow> bool" where
  "last_below xs o' x \<longleftrightarrow> x \<in> set xs \<and> offs x \<le> o' \<and> (\<forall>y \<in> set xs. offs y \<le> o' \<longrightarrow> offs y \<le> offs x)"

lemma nearest_Some:
  assumes s: "sorted (map offs (ms_syms ms))" and n: "nearest ms o' = Some x"
  shows "last_below (ms_syms ms) o' x"
proof -
  let ?xs = "ms_syms ms" and ?b = "bsearch (ms_syms ms) o' 0 (length (ms_syms ms) - 1)"
  have ne: "?xs \<noteq> []" "offs (?xs ! 0) \<le> o'" and x: "x = ?xs ! ?b"
    using n by (auto simp: nearest_def not_less split: if_splits)
  have B: "?b < length ?xs \<and> offs (?xs ! ?b) \<le> o' \<and> (\<forall>i<length ?xs. ?b < i \<longrightarrow> o' < offs (?xs ! i))"
    using ne by (intro bsearch_spec [OF s]) auto
  have "offs y \<le> offs x" if y: "y \<in> set ?xs" "offs y \<le> o'" for y
  proof -
    obtain i where i: "i < length ?xs" "y = ?xs ! i" using y(1) by (auto simp: in_set_conv_nth)
    then have "i \<le> ?b" using B y(2) by (meson not_le not_less)
    then show ?thesis using sorted_nth_mono [OF s, of i ?b] B i by (simp add: x)
  qed
  with B show ?thesis by (auto simp: last_below_def x)
qed

lemma nearest_None:
  assumes s: "sorted (map offs (ms_syms ms))"
  shows "nearest ms o' = None \<longleftrightarrow> (\<forall>y \<in> set (ms_syms ms). o' < offs y)"
proof -
  have "offs (ms_syms ms ! 0) \<le> offs y" if y: "y \<in> set (ms_syms ms)" for y
  proof -
    obtain i where "i < length (ms_syms ms)" "y = ms_syms ms ! i" using y by (auto simp: in_set_conv_nth)
    moreover from this have "0 < length (ms_syms ms)" by linarith
    ultimately show ?thesis using sorted_nth_mono [OF s, of 0 i] by (simp only: nth_map length_map)
  qed
  then have "(\<forall>y \<in> set (ms_syms ms). o' < offs y) \<longleftrightarrow> ms_syms ms = [] \<or> o' < offs (ms_syms ms ! 0)"
    by (metis length_greater_0_conv less_le_trans list.set_cases neq_Nil_conv nth_Cons_0 nth_mem empty_iff list.set(1))
  then show ?thesis by (simp add: nearest_def)
qed

text \<open>What the library reports, in the order in which it reports it.\<close>

fun reported :: "(sym_status \<times> string option \<times> u64) list \<Rightarrow> msym list" where
  "reported [] = []"
| "reported ((st, nm, so) # rs) = (case nm of
     None \<Rightarrow> reported rs
   | Some name \<Rightarrow> if st = Sym_other \<or> name = [] then reported rs
       else \<lparr>offs = so, ms_name = take (SYM_MAX - 1) name\<rparr> # reported rs)"

lemma reported_Cons: "reported (r # rs) = reported [r] @ reported rs"
  by (cases r) (auto split: option.split)

lemma enum_cb_syms: "ms_syms (enum_cb r ms) = ms_syms ms @ reported [r]"
proof -
  obtain st nm so where r: "r = (st, nm, so)" by (cases r) auto
  have len: "take (if SYM_MAX \<le> length n then SYM_MAX - 1 else length n) n = take (SYM_MAX - 1) n" for n :: string
    by (simp add: SYM_MAX_def)
  show ?thesis
    by (cases st; cases nm) (simp_all add: r enum_cb_def Let_def len)
qed

lemma fold_enum_cb: "ms_syms (fold enum_cb rs ms) = ms_syms ms @ reported rs"
proof (induction rs arbitrary: ms)
  case (Cons r rs)
  then show ?case using reported_Cons [of r rs] by (simp add: enum_cb_syms)
qed simp

lemma sorted_cmp: "sorted_wrt (\<lambda>a b. msym_cmp a b \<le> 0) xs \<longleftrightarrow> sorted (map offs xs)"
proof -
  have "msym_cmp a b \<le> 0 \<longleftrightarrow> offs a \<le> offs b" for a b by (auto simp: msym_cmp_def)
  then show ?thesis by (simp add: sorted_map)
qed

lemma load_syms_spec:
  assumes "qsort_laws Y" and "\<not> ms_done ms" "ms_syms ms = []"
  shows "sorted (map offs (ms_syms (load_syms Y path ms)))"
    and "mset (ms_syms (load_syms Y path ms)) = mset (reported (sym_enumerate Y path))"
proof -
  have l: "ms_syms (load_syms Y path ms) =
      (if 1 < length (reported (sym_enumerate Y path)) then qsort_msym Y (reported (sym_enumerate Y path))
       else reported (sym_enumerate Y path))"
    using assms(2,3) by (simp add: load_syms_def Let_def fold_enum_cb)
  have "sorted (map offs xs)" if "\<not> 1 < length xs" for xs
    using that by (cases xs) auto
  then show "sorted (map offs (ms_syms (load_syms Y path ms)))"
    unfolding l using assms(1) by (auto simp: qsort_laws_def sorted_cmp)
  show "mset (ms_syms (load_syms Y path ms)) = mset (reported (sym_enumerate Y path))"
    unfolding l using assms(1) by (auto simp: qsort_laws_def)
qed

subsection \<open>\<open>sym_index_for_slot\<close>\<close>

text \<open>\<open>%llx\<close>\<close>

definition hex_digit :: "nat \<Rightarrow> char" where
  "hex_digit d = char_of (if d < 10 then 48 + d else 87 + d)"

fun show_hex :: "nat \<Rightarrow> string" where
  "show_hex n = (if n < 16 then [hex_digit n] else show_hex (n div 16) @ [hex_digit (n mod 16)])"

declare show_hex.simps [simp del]

text \<open>The state of the client at exit, with the symbol table.\<close>

record ('h, 'p) xworld = "('h, 'p) world" +
  syms :: "sym list"           \<comment> \<open>\<open>nsyms\<close> is the length\<close>
  syms_cap :: nat
  sym_table :: 'h
  modsyms_of :: "nat \<Rightarrow> modsyms"

definition sym_buf :: "('h, 'z) dr_api \<Rightarrow> nat \<Rightarrow> string \<Rightarrow> string" where
  "sym_buf A n txt = take (n - 1) (fst (snprintf A n txt))"

text \<open>The symbol of an address of a module, as the three branches find it.\<close>

definition sym_of_slot :: "('h, 'p) dr_api \<Rightarrow> sym_api \<Rightarrow> nat \<Rightarrow> ('h, 'p) xworld \<Rightarrow> sym \<times> ('h, 'p) xworld" where
  "sym_of_slot A Y slot w =
     (let md = slot_mod w slot in
      if md < 0 then (\<lparr>s_mod = md, start_offs = 0, s_name = safe_strcpy (Some ''<no module>'') SYM_MAX\<rparr>, w)
      else if \<not> opt_symbols w
      then (\<lparr>s_mod = md, start_offs = 0, s_name = safe_strcpy (Some ''<symbols off>'') SYM_MAX\<rparr>, w)
      else
        (let m = modules w ! nat md;
             o' = slot_pc w slot - m_start m;
             info = sym_lookup Y (m_path m) o'
         in if (i_status info = Sym_success \<or> i_status info = Sym_line_not_available) \<and> i_name info \<noteq> []
            then (\<lparr>s_mod = md, start_offs = i_start info,
                   s_name = (if i_start info < i_end info \<and> i_end info \<le> o'
                             then sym_buf A SYM_MAX (i_name info @ ''+?'')
                             else safe_strcpy (Some (i_name info)) SYM_MAX)\<rparr>, w)
            else
              (let (near, ms) = nearest_symbol Y (m_path m) o' (modsyms_of w (nat md));
                   w' = w\<lparr>modsyms_of := (modsyms_of w)(nat md := ms)\<rparr>
               in case near of
                    Some x \<Rightarrow> (\<lparr>s_mod = md, start_offs = offs x, s_name = sym_buf A SYM_MAX (ms_name x @ ''+?'')\<rparr>, w')
                  | None \<Rightarrow> (\<lparr>s_mod = md, start_offs = 0, s_name = safe_strcpy (Some ''<no symbol>'') SYM_MAX\<rparr>, w'))))"

text \<open>The text under which a symbol is entered in \<open>sym_table\<close>.\<close>

definition sym_key :: "('h, 'p) dr_api \<Rightarrow> sym \<Rightarrow> string" where
  "sym_key A s = sym_buf A 64 (show_int (s_mod s) @ '':'' @ show_hex (unat (start_offs s)) @ '':'' @
     (if start_offs s = 0 then s_name s else []))"

definition sym_index_for_slot :: "('h, 'p) dr_api \<Rightarrow> sym_api \<Rightarrow> nat \<Rightarrow> ('h, 'p) xworld \<Rightarrow> int \<times> ('h, 'p) xworld" where
  "sym_index_for_slot A Y slot w =
     (if 0 \<le> slot_sym w slot then (slot_sym w slot, w)
      else
        (let (s, w1) = sym_of_slot A Y slot w; txt = sym_key A s in
         case ht_lookup A (sym_table w1) txt of
           Some v \<Rightarrow> (int v - 1, w1\<lparr>slot_sym := (slot_sym w1)(slot := int v - 1)\<rparr>)
         | None \<Rightarrow>
             (int (length (syms w1)),
              w1\<lparr>syms := syms w1 @ [s],
                 syms_cap := (if length (syms w1) = syms_cap w1
                   then (if syms_cap w1 = 0 then 4096 else syms_cap w1 * 2) else syms_cap w1),
                 sym_table := ht_add A (sym_table w1) txt (length (syms w1) + 1),
                 slot_sym := (slot_sym w1)(slot := int (length (syms w1)))\<rparr>)))"

subsection \<open>Every index is in range\<close>

text \<open>Indices point into \<open>syms\<close>, and there are at most as many symbols as slots that have one.\<close>

definition syms_inv :: "('h, 'p) dr_api \<Rightarrow> nat \<Rightarrow> ('h, 'p) xworld \<Rightarrow> bool" where
  "syms_inv A n w \<longleftrightarrow> (\<forall>slot<n. 0 \<le> slot_sym w slot \<longrightarrow> slot_sym w slot < int (length (syms w))) \<and>
     (\<forall>x v. ht_lookup A (sym_table w) x = Some v \<longrightarrow> 1 \<le> v \<and> v \<le> length (syms w)) \<and>
     length (syms w) \<le> card {slot. slot < n \<and> 0 \<le> slot_sym w slot}"

lemma sym_of_slot_same:
  "syms (snd (sym_of_slot A Y slot w)) = syms w" "sym_table (snd (sym_of_slot A Y slot w)) = sym_table w"
  "slot_sym (snd (sym_of_slot A Y slot w)) = slot_sym w"
  by (simp_all add: sym_of_slot_def Let_def split: prod.split option.split)

lemma sym_index_for_slot_inv:
  assumes laws: "ht_laws A" and inv: "syms_inv A n w" and slot: "slot < n"
    and res: "sym_index_for_slot A Y slot w = (si, w')"
  shows "syms_inv A n w' \<and> 0 \<le> si \<and> si < int (length (syms w')) \<and> length (syms w') \<le> n \<and>
    slot_sym w' slot = si \<and> (\<exists>ss. syms w' = syms w @ ss)"
proof -
  have card_le: "card {s. s < n \<and> P s} \<le> n" for P
    using card_mono [of "{..<n}" "{s. s < n \<and> P s}"] by auto
  obtain s w1 where s: "sym_of_slot A Y slot w = (s, w1)" by (cases "sym_of_slot A Y slot w")
  have w1: "syms w1 = syms w" "sym_table w1 = sym_table w" "slot_sym w1 = slot_sym w"
    using sym_of_slot_same [of A Y slot w] by (simp_all add: s)
  show ?thesis
  proof (cases "0 \<le> slot_sym w slot")
    case True
    with res inv slot card_le [of "\<lambda>s. 0 \<le> slot_sym w s"] show ?thesis by (auto simp: sym_index_for_slot_def syms_inv_def)
  next
    case new: False
    have more: "{x. x < n \<and> 0 \<le> ((slot_sym w)(slot := int v)) x} = insert slot {x. x < n \<and> 0 \<le> slot_sym w x}" for v
      using slot by auto
    have fin: "finite {x. x < n \<and> 0 \<le> slot_sym w x}" "slot \<notin> {x. x < n \<and> 0 \<le> slot_sym w x}" using new by auto
    have card: "card {x. x < n \<and> 0 \<le> slot_sym w' x} = Suc (card {x. x < n \<and> 0 \<le> slot_sym w x})"
      if "slot_sym w' = (slot_sym w)(slot := int v)" for v
      by (simp only: that more card_insert_disjoint [OF fin])
    have old: "length (syms w) \<le> card {x. x < n \<and> 0 \<le> slot_sym w x}" using inv by (simp add: syms_inv_def)
    note le = card_le [of "\<lambda>s. 0 \<le> slot_sym w' s"]
    show ?thesis
    proof (cases "ht_lookup A (sym_table w) (sym_key A s)")
      case (Some v)
      with inv have v: "1 \<le> v" "v \<le> length (syms w)" by (auto simp: syms_inv_def)
      then have e: "int v - 1 = int (v - 1)" by (simp add: of_nat_diff)
      have w': "si = int (v - 1)" "slot_sym w' = (slot_sym w)(slot := int (v - 1))" "syms w' = syms w"
        "sym_table w' = sym_table w"
        using res new Some by (auto simp: sym_index_for_slot_def s w1 e)
      have "syms_inv A n w'"
        unfolding syms_inv_def w'(3,4) card [OF w'(2)] using inv v old by (auto simp: syms_inv_def w'(2))
      with v old le show ?thesis by (simp add: card [OF w'(2)]) (simp add: w')
    next
      case None
      have w': "si = int (length (syms w))" "slot_sym w' = (slot_sym w)(slot := int (length (syms w)))"
        "syms w' = syms w @ [s]"
        "sym_table w' = ht_add A (sym_table w) (sym_key A s) (length (syms w) + 1)"
        using res new None by (auto simp: sym_index_for_slot_def s w1 Let_def)
      have "syms_inv A n w'"
        unfolding syms_inv_def w'(3,4) card [OF w'(2)] ht_lookup_add [OF laws]
        using inv old by (auto simp: syms_inv_def w'(2) None le_Suc_eq less_Suc_eq intro: less_imp_le split: if_splits)
      with old le show ?thesis by (simp add: card [OF w'(2)]) (simp add: w')
    qed
  qed
qed

text \<open>Asking again gives the same index and changes nothing.\<close>

lemma sym_index_for_slot_again:
  assumes "sym_index_for_slot A Y slot w = (si, w')" and "0 \<le> si" "slot_sym w' slot = si"
  shows "sym_index_for_slot B Y slot w' = (si, w')"
  using assms by (simp add: sym_index_for_slot_def)

end
