(* ===== verification/Report.thy ===== *)
theory Report
  imports Symbols
begin

text \<open>
  What \<open>client/drperf.c\<close> writes at exit: the escaping of strings (\<open>json_str\<close>) with a reader that
  takes it back, the table of the largest symbols (\<open>topn_insert\<close>), and the loop of
  \<open>write_key\<close> that adds the counters of a key up over threads, by block, module and symbol.
\<close>

subsection \<open>\<open>json_str\<close>\<close>

definition QUOTE :: char where "QUOTE = CHR 0x22"
definition BSLASH :: char where "BSLASH = CHR 0x5C"

definition hex4 :: "nat \<Rightarrow> string" where
  "hex4 n = [hex_digit (n div 4096 mod 16), hex_digit (n div 256 mod 16), hex_digit (n div 16 mod 16), hex_digit (n mod 16)]"

definition json_char :: "char \<Rightarrow> string" where
  "json_char c =
     (if c = QUOTE \<or> c = BSLASH then [BSLASH, c]
      else if of_char c < (0x20 :: nat) then BSLASH # CHR ''u'' # hex4 (of_char c)
      else [c])"

definition json_str :: "string \<Rightarrow> string" where
  "json_str s = QUOTE # concat (map json_char (takeWhile (\<lambda>c. c \<noteq> NUL) s)) @ [QUOTE]"

text \<open>A reader of JSON strings, for the escapes that are written.\<close>

definition hex_val :: "char \<Rightarrow> nat" where
  "hex_val c = (let n = of_char c in if n < 58 then n - 48 else n - 87)"

fun read_chars :: "string \<Rightarrow> (string \<times> string) option" where
  "read_chars [] = None"
| "read_chars (c # cs) =
     (if c = QUOTE then Some ([], cs)
      else if c = BSLASH then
        (case cs of
           [] \<Rightarrow> None
         | d # ds \<Rightarrow>
             if d = CHR ''u'' then
               (case ds of
                  h1 # h2 # h3 # h4 # r \<Rightarrow>
                    map_option (\<lambda>(s, t). (char_of (4096 * hex_val h1 + 256 * hex_val h2 + 16 * hex_val h3 + hex_val h4) # s, t))
                      (read_chars r)
                | _ \<Rightarrow> None)
             else map_option (\<lambda>(s, t). (d # s, t)) (read_chars ds))
      else map_option (\<lambda>(s, t). (c # s, t)) (read_chars cs))"

definition read_json_str :: "string \<Rightarrow> (string \<times> string) option" where
  "read_json_str s = (case s of [] \<Rightarrow> None | c # cs \<Rightarrow> if c = QUOTE then read_chars cs else None)"

lemma hex_val_digit: "d < 16 \<Longrightarrow> hex_val (hex_digit d) = d"
  by (simp add: hex_val_def hex_digit_def Let_def)

lemma read_json_char:
  assumes "read_chars t = Some (s, r)"
  shows "read_chars (json_char c @ t) = Some (c # s, r)"
proof (cases "c = QUOTE \<or> c = BSLASH")
  case True
  then have "c \<noteq> CHR ''u''" "BSLASH \<noteq> QUOTE" by (auto simp: QUOTE_def BSLASH_def)
  with True assms show ?thesis by (auto simp: json_char_def)
next
  case False
  show ?thesis
  proof (cases "of_char c < (0x20 :: nat)")
    case True
    define n :: nat where "n = of_char c"
    have n: "n < 32" "c = char_of n" using True by (simp_all add: n_def)
    have "4096 * (n div 4096 mod 16) + 256 * (n div 256 mod 16) + 16 * (n div 16 mod 16) + n mod 16 = n"
      using n(1) by simp
    moreover have "BSLASH \<noteq> QUOTE" by (simp add: QUOTE_def BSLASH_def)
    ultimately show ?thesis
      using assms False True n
      by (simp add: json_char_def hex4_def hex_val_digit flip: n_def) 
  next
    case big: False
    with False assms show ?thesis by (simp add: json_char_def)
  qed
qed

lemma read_json_chars: "read_chars (concat (map json_char s) @ QUOTE # r) = Some (s, r)"
  by (induction s) (simp_all add: read_json_char)

lemma read_json_str_json_str:
  assumes "nul_free s"
  shows "read_json_str (json_str s @ r) = Some (s, r)"
proof -
  have "takeWhile (\<lambda>c. c \<noteq> NUL) s = s" unfolding takeWhile_eq_all_conv using assms by (auto simp: nul_free_def)
  then have "json_str s @ r = QUOTE # concat (map json_char s) @ QUOTE # r"
    unfolding json_str_def by (simp only: append_Cons append_assoc append_Nil)
  then show ?thesis using read_json_chars [of s r] by (simp add: read_json_str_def)
qed

text \<open>No control character leaves \<open>json_str\<close>.\<close>

lemma json_str_printable:
  assumes "c \<in> set (json_str s)"
  shows "0x20 \<le> (of_char c :: nat)"
proof -
  have h: "0x20 \<le> (of_char (hex_digit d) :: nat)" if "d < 16" for d
    using that by (simp add: hex_digit_def)
  have j: "0x20 \<le> (of_char d :: nat)" if "d \<in> set (json_char b)" for b d
  proof (cases "b = QUOTE \<or> b = BSLASH")
    case True
    with that show ?thesis by (auto simp: json_char_def QUOTE_def BSLASH_def)
  next
    case False
    show ?thesis
    proof (cases "of_char b < (0x20 :: nat)")
      case True
      then have "of_char b div 16 < (16 :: nat)" by simp
      with that False True show ?thesis
        using h [of 0] h [of "of_char b div 16"] h [of "of_char b mod 16"]
        by (auto simp: json_char_def hex4_def BSLASH_def)
    next
      case big: False
      with that False show ?thesis by (simp add: json_char_def)
    qed
  qed
  have "0x20 \<le> (of_char QUOTE :: nat)" by (simp add: QUOTE_def)
  with assms j show ?thesis unfolding json_str_def by auto
qed

subsection \<open>\<open>topn_insert\<close>\<close>

type_synonym pair = "nat \<times> u64"  \<comment> \<open>\<open>idx\<close>, \<open>count\<close>\<close>

fun shift_down :: "pair list \<Rightarrow> nat \<Rightarrow> u64 \<Rightarrow> pair list \<times> nat" where
  "shift_down tb 0 cnt = (tb, 0)"
| "shift_down tb (Suc j) cnt =
     (if snd (tb ! j) < cnt then shift_down (tb[Suc j := tb ! j]) j cnt else (tb, Suc j))"

text \<open>The table is the list of its \<open>ntop\<close> entries; taking one more entry into use gives the list a cell
  whose contents do not matter.\<close>

definition topn_insert :: "nat \<Rightarrow> pair \<Rightarrow> pair list \<Rightarrow> pair list" where
  "topn_insert cap p tb =
     (if length tb = cap \<and> snd p \<le> snd (tb ! (cap - 1)) then tb
      else
        (let i = (if length tb < cap then length tb else cap - 1);
             tb1 = (if length tb < cap then tb @ [p] else tb);
             (tb2, j) = shift_down tb1 i (snd p)
         in tb2[j := p]))"

text \<open>The reference: put the entry behind all that are at least as large.\<close>

definition ranked_insert :: "pair \<Rightarrow> pair list \<Rightarrow> pair list" where
  "ranked_insert p xs = takeWhile (\<lambda>q. snd p \<le> snd q) xs @ p # dropWhile (\<lambda>q. snd p \<le> snd q) xs"

definition ranked :: "pair list \<Rightarrow> pair list" where
  "ranked xs = fold ranked_insert xs []"

definition descending :: "pair list \<Rightarrow> bool" where
  "descending xs \<longleftrightarrow> sorted_wrt (\<lambda>p q. snd q \<le> snd p) xs"

lemma ranked_insert_Cons:
  "ranked_insert p (q # xs) = (if snd p \<le> snd q then q # ranked_insert p xs else p # q # xs)"
  by (simp add: ranked_insert_def)

lemma ranked_insert_Nil [simp]: "ranked_insert p [] = [p]"
  by (simp add: ranked_insert_def)

lemma set_ranked_insert [simp]: "set (ranked_insert p xs) = insert p (set xs)"
  by (induction xs) (auto simp: ranked_insert_Cons)

lemma mset_ranked_insert [simp]: "mset (ranked_insert p xs) = add_mset p (mset xs)"
  by (induction xs) (auto simp: ranked_insert_Cons)

lemma length_ranked_insert [simp]: "length (ranked_insert p xs) = Suc (length xs)"
  by (metis mset_ranked_insert size_add_mset size_mset)

lemma descending_ranked_insert: "descending xs \<Longrightarrow> descending (ranked_insert p xs)"
  by (induction xs) (auto simp: descending_def ranked_insert_Cons)

text \<open>What the shifting loop does with the cells below \<open>i\<close>.\<close>

lemma ranked_insert_snoc: "snd x < snd p \<Longrightarrow> ranked_insert p (xs @ [x]) = ranked_insert p xs @ [x]"
  by (induction xs) (auto simp: ranked_insert_Cons)

lemma ranked_insert_last: "\<forall>x \<in> set xs. snd p \<le> snd x \<Longrightarrow> ranked_insert p xs = xs @ [p]"
  by (induction xs) (auto simp: ranked_insert_Cons)

lemma descending_last: "descending (xs @ [x]) \<Longrightarrow> snd p \<le> snd x \<Longrightarrow> \<forall>y \<in> set (xs @ [x]). snd p \<le> snd y"
  by (auto simp: descending_def sorted_wrt_append)

text \<open>The shifting loop, followed by the store, is an insertion into the cells it looked at.\<close>

lemma shift_down_insert:
  assumes "descending (take i tb)" "i < length tb" "shift_down tb i (snd p) = (tb', j)"
  shows "tb'[j := p] = ranked_insert p (take i tb) @ drop (Suc i) tb"
  using assms
proof (induction i arbitrary: tb)
  case 0
  then show ?case by (cases tb) auto
next
  case (Suc i)
  then have t: "take (Suc i) tb = take i tb @ [tb ! i]" by (simp add: take_Suc_conv_app_nth)
  show ?case
  proof (cases "snd (tb ! i) < snd p")
    case True
    let ?tb = "tb[Suc i := tb ! i]"
    have "descending (take i ?tb)" using Suc.prems(1) by (simp add: t descending_def sorted_wrt_append)
    moreover have "shift_down ?tb i (snd p) = (tb', j)" using Suc.prems(3) True by simp
    ultimately have "tb'[j := p] = ranked_insert p (take i ?tb) @ drop (Suc i) ?tb"
      using Suc.prems(2) by (intro Suc.IH) simp_all
    also have "drop (Suc i) ?tb = tb ! i # drop (Suc (Suc i)) tb"
      using Suc.prems(2) by (simp add: Cons_nth_drop_Suc [symmetric] drop_update_cancel)
    finally show ?thesis by (simp add: t ranked_insert_snoc [OF True])
  next
    case False
    then have "tb' = tb" "j = Suc i" using Suc.prems(3) by simp_all
    moreover have "ranked_insert p (take (Suc i) tb) = take (Suc i) tb @ [p]"
      using Suc.prems(1) False unfolding t by (intro ranked_insert_last descending_last) simp_all
    ultimately show ?thesis using Suc.prems(2) by (simp add: upd_conv_take_nth_drop)
  qed
qed

lemma descending_take: "descending xs \<Longrightarrow> descending (take n xs)"
  by (simp add: descending_def sorted_wrt_take)

lemma topn_insert_take:
  assumes d: "descending tb" and len: "length tb \<le> cap" and cap: "0 < cap"
  shows "topn_insert cap p tb = take cap (ranked_insert p tb)"
proof (cases "length tb = cap")
  case full: True
  then obtain xs x where tb: "tb = xs @ [x]" using cap by (cases tb rule: rev_cases) auto
  have x: "tb ! (cap - 1) = x" "cap - 1 = length xs" using full tb by (auto simp: nth_append)
  show ?thesis
  proof (cases "snd p \<le> snd x")
    case True
    then have "ranked_insert p tb = tb @ [p]" using d unfolding tb by (intro ranked_insert_last descending_last)
    with True full x show ?thesis by (simp add: topn_insert_def)
  next
    case False
    obtain tb2 j where s: "shift_down tb (cap - 1) (snd p) = (tb2, j)" by (cases "shift_down tb (cap - 1) (snd p)")
    have "descending (take (cap - 1) tb)" using d by (intro descending_take)
    then have "tb2[j := p] = ranked_insert p xs"
      using shift_down_insert [OF _ _ s] full cap by (simp add: x(2)) (simp add: tb)
    moreover have "topn_insert cap p tb = tb2[j := p]" using full False x s by (simp add: topn_insert_def Let_def)
    moreover have "take cap (ranked_insert p tb) = ranked_insert p xs"
      using False full by (simp add: tb ranked_insert_snoc)
    ultimately show ?thesis by simp
  qed
next
  case False
  then have l: "length tb < cap" using len by simp
  obtain tb2 j where s: "shift_down (tb @ [p]) (length tb) (snd p) = (tb2, j)"
    by (cases "shift_down (tb @ [p]) (length tb) (snd p)")
  have "tb2[j := p] = ranked_insert p tb" using shift_down_insert [OF _ _ s] d by simp
  with l s show ?thesis by (simp add: topn_insert_def Let_def)
qed

lemma take_ranked_insert: "take n (ranked_insert p (take n xs)) = take n (ranked_insert p xs)"
proof (induction xs arbitrary: n)
  case (Cons x xs)
  then show ?case by (cases n) (auto simp: ranked_insert_Cons take_Cons' min_def)
qed simp

lemma topn_fold:
  assumes "0 < cap" "descending ys"
  shows "fold (topn_insert cap) xs (take cap ys) = take cap (fold ranked_insert xs ys)"
  using assms(2)
proof (induction xs arbitrary: ys)
  case (Cons x xs)
  have "topn_insert cap x (take cap ys) = take cap (ranked_insert x ys)"
    using topn_insert_take [OF descending_take [OF Cons.prems] _ assms(1)] by (simp add: take_ranked_insert)
  then show ?case using Cons.IH [OF descending_ranked_insert [OF Cons.prems]] by simp
qed simp

lemma ranked_spec: "descending (ranked xs) \<and> mset (ranked xs) = mset xs"
proof -
  have "descending ys \<Longrightarrow> descending (fold ranked_insert xs ys) \<and> mset (fold ranked_insert xs ys) = mset xs + mset ys" for ys
    by (induction xs arbitrary: ys) (simp_all add: descending_ranked_insert)
  from this [of "[]"] show ?thesis by (simp add: ranked_def descending_def)
qed

subsection \<open>Adding up the counters of a key\<close>

text \<open>The local variables of \<open>write_key\<close> that its first loop fills.\<close>

record totals =
  slot_total :: u64
  mod_sum :: "nat \<Rightarrow> u64"
  sym_sum :: "nat \<Rightarrow> u64"
  vec :: "nat \<Rightarrow> u64"
  threads_active :: nat

definition no_totals :: totals where
  "no_totals = \<lparr>slot_total = 0, mod_sum = (\<lambda>_. 0), sym_sum = (\<lambda>_. 0), vec = (\<lambda>_. 0), threads_active = 0\<rparr>"

definition count_slot :: "('h, 'p) dr_api \<Rightarrow> sym_api \<Rightarrow> (nat \<Rightarrow> u64) \<Rightarrow> nat \<Rightarrow> totals \<times> ('h, 'p) xworld
    \<Rightarrow> totals \<times> ('h, 'p) xworld" where
  "count_slot A Y arr slot s = (let (T, w) = s; c = arr slot in
     if c = 0 then (T, w)
     else
       (let mi = slot_mod w slot;
            m = (if mi < 0 then length (modules w) else nat mi);
            (si, w') = sym_index_for_slot A Y slot w
        in (T\<lparr>slot_total := slot_total T + c,
              mod_sum := (mod_sum T)(m := mod_sum T m + c),
              sym_sum := (sym_sum T)(nat si := sym_sum T (nat si) + c),
              vec := (if opt_blocks w then (vec T)(slot := vec T slot + c) else vec T)\<rparr>, w')))"

definition count_thread :: "('h, 'p) dr_api \<Rightarrow> sym_api \<Rightarrow> nat \<Rightarrow> nat \<Rightarrow> totals \<times> ('h, 'p) xworld
    \<Rightarrow> totals \<times> ('h, 'p) xworld" where
  "count_thread A Y k ti s = (case tslots (snd s) k ti of
     None \<Rightarrow> s
   | Some a \<Rightarrow>
      (let n = unat (next_slot (snd s)); arr = arrays (snd s) a;
           (T, w) = fold (count_slot A Y arr) [0..<n] s
       in (T\<lparr>threads_active := threads_active T + (if list_ex (\<lambda>slot. arr slot \<noteq> 0) [0..<n] then 1 else 0)\<rparr>, w)))"

definition add_up :: "('h, 'p) dr_api \<Rightarrow> sym_api \<Rightarrow> nat \<Rightarrow> ('h, 'p) xworld \<Rightarrow> totals \<times> ('h, 'p) xworld" where
  "add_up A Y k w = fold (count_thread A Y k) [0..<MAX_THREADS] (no_totals, w)"

text \<open>The table of the largest symbols of the key.\<close>

definition top_symbols :: "int \<Rightarrow> totals \<Rightarrow> ('h, 'p) xworld \<Rightarrow> pair list" where
  "top_symbols cap T w =
     fold (topn_insert (nat cap)) [(i, sym_sum T i). i \<leftarrow> [0..<length (syms w)], sym_sum T i \<noteq> 0] []"

text \<open>The part of the state the loop does not touch, and what it needs of it.\<close>

definition sym_same :: "('h, 'p) xworld \<Rightarrow> ('h, 'p) xworld \<Rightarrow> bool" where
  "sym_same w w' \<longleftrightarrow> mem.truncate w' = mem.truncate w \<and> next_slot w' = next_slot w \<and> slot_mod w' = slot_mod w \<and>
     modules w' = modules w \<and> keys w' = keys w \<and> threads w' = threads w"

lemma sym_same_refl [simp]: "sym_same w w"
  by (simp add: sym_same_def)

lemma sym_same_trans: "sym_same w w' \<Longrightarrow> sym_same w' w'' \<Longrightarrow> sym_same w w''"
  by (simp add: sym_same_def)

lemma sym_same_upd:
  "sym_same w (w'\<lparr>modsyms_of := f\<rparr>) = sym_same w w'"
  "sym_same w (w'\<lparr>slot_sym := g\<rparr>) = sym_same w w'"
  "sym_same w (w'\<lparr>syms := ss, syms_cap := n, sym_table := h\<rparr>) = sym_same w w'"
  "sym_same w (w'\<lparr>syms := ss, sym_table := h\<rparr>) = sym_same w w'"
  by (simp_all add: sym_same_def mem.defs)

lemma sym_of_slot_sym_same: "sym_same w (snd (sym_of_slot A Y slot w))"
  by (simp add: sym_of_slot_def Let_def sym_same_upd split: prod.split option.split)

lemma sym_index_same: "sym_same w (snd (sym_index_for_slot A Y slot w))"
proof -
  obtain s w1 where s: "sym_of_slot A Y slot w = (s, w1)" by (cases "sym_of_slot A Y slot w")
  have "sym_same w w1" using sym_of_slot_sym_same [of w A Y slot] by (simp add: s)
  then show ?thesis
    by (simp add: sym_index_for_slot_def s Let_def sym_same_upd split: option.split)
qed

definition mods_ok :: "('h, 'p) xworld \<Rightarrow> bool" where
  "mods_ok w \<longleftrightarrow> (\<forall>slot < unat (next_slot w). slot_mod w slot < int (length (modules w)))"

text \<open>The three sums that must agree.\<close>

definition sums :: "nat \<Rightarrow> nat \<Rightarrow> totals \<Rightarrow> u64 \<times> u64 \<times> u64" where
  "sums nm n T = (slot_total T, (\<Sum>i<Suc nm. mod_sum T i), (\<Sum>i<n. sym_sum T i))"

definition plus3 :: "u64 \<times> u64 \<times> u64 \<Rightarrow> u64 \<Rightarrow> u64 \<times> u64 \<times> u64" where
  "plus3 s c = (fst s + c, fst (snd s) + c, snd (snd s) + c)"

lemma plus3_plus3 [simp]: "plus3 (plus3 s c) d = plus3 s (c + d)"
  by (simp add: plus3_def add.assoc)

lemma plus3_0 [simp]: "plus3 s 0 = s"
  by (simp add: plus3_def)

definition loop_inv :: "('h, 'p) dr_api \<Rightarrow> ('h, 'p) xworld \<Rightarrow> ('h, 'p) xworld \<Rightarrow> bool" where
  "loop_inv A w0 w \<longleftrightarrow> sym_same w0 w \<and> syms_inv A (unat (next_slot w0)) w"

lemma count_slot_spec:
  assumes laws: "ht_laws A" and inv: "loop_inv A w0 w" and mods: "mods_ok w0"
    and slot: "slot < unat (next_slot w0)" and res: "count_slot A Y arr slot (T, w) = (T', w')"
  shows "loop_inv A w0 w' \<and>
    sums (length (modules w0)) (unat (next_slot w0)) T' = plus3 (sums (length (modules w0)) (unat (next_slot w0)) T) (arr slot) \<and>
    vec T' = (if opt_blocks w0 then (vec T)(slot := vec T slot + arr slot) else vec T)"
proof (cases "arr slot = 0")
  case True
  with res inv show ?thesis by (simp add: count_slot_def)
next
  case False
  let ?n = "unat (next_slot w0)" and ?nm = "length (modules w0)"
  obtain si where s: "sym_index_for_slot A Y slot w = (si, w')"
    using res False by (auto simp: count_slot_def Let_def split: prod.splits)
  have same: "sym_same w0 w" "syms_inv A ?n w" using inv by (simp_all add: loop_inv_def)
  have ob: "opt_blocks w = opt_blocks w0" using same(1) by (simp add: sym_same_def mem.defs)
  note I = sym_index_for_slot_inv [OF laws same(2) slot s]
  define m where "m = (if slot_mod w slot < 0 then length (modules w) else nat (slot_mod w slot))"
  have m: "m < Suc ?nm" using mods slot same(1) by (auto simp: m_def mods_ok_def sym_same_def)
  have si: "nat si < ?n" using I by auto
  have T': "T' = T\<lparr>slot_total := slot_total T + arr slot, mod_sum := (mod_sum T)(m := mod_sum T m + arr slot),
      sym_sum := (sym_sum T)(nat si := sym_sum T (nat si) + arr slot),
      vec := (if opt_blocks w then (vec T)(slot := vec T slot + arr slot) else vec T)\<rparr>"
    using res False by (simp add: count_slot_def Let_def s m_def)
  have "sums ?nm ?n T' = plus3 (sums ?nm ?n T) (arr slot)"
    using sum_fun_upd_add [of "{..<Suc ?nm}" m "mod_sum T" "arr slot"] m
      sum_fun_upd_add [of "{..<?n}" "nat si" "sym_sum T" "arr slot"] si
    by (simp add: T' sums_def plus3_def del: sum.lessThan_Suc)
  moreover have "loop_inv A w0 w'"
    using I same(1) sym_index_same [of w A Y slot] by (auto simp: loop_inv_def s intro: sym_same_trans)
  ultimately show ?thesis by (simp add: T' ob)
qed

lemma count_slots_spec:
  assumes laws: "ht_laws A" and mods: "mods_ok w0"
    and "loop_inv A w0 w" and "set slots \<subseteq> {..<unat (next_slot w0)}" and "distinct slots"
    and "fold (count_slot A Y arr) slots (T, w) = (T', w')"
  shows "loop_inv A w0 w' \<and>
    sums (length (modules w0)) (unat (next_slot w0)) T' =
      plus3 (sums (length (modules w0)) (unat (next_slot w0)) T) (\<Sum>s\<leftarrow>slots. arr s) \<and>
    vec T' = (\<lambda>s. vec T s + (if opt_blocks w0 \<and> s \<in> set slots then arr s else 0))"
  using assms(3-)
proof (induction slots arbitrary: T w)
  case (Cons s slots)
  obtain T1 w1 where s1: "count_slot A Y arr s (T, w) = (T1, w1)" by (cases "count_slot A Y arr s (T, w)")
  have "s < unat (next_slot w0)" using Cons.prems(2) by simp
  note S = count_slot_spec [OF laws Cons.prems(1) mods this s1]
  have r: "fold (count_slot A Y arr) slots (T1, w1) = (T', w')" using Cons.prems(4) s1 by simp
  have "loop_inv A w0 w' \<and>
    sums (length (modules w0)) (unat (next_slot w0)) T' =
      plus3 (sums (length (modules w0)) (unat (next_slot w0)) T1) (\<Sum>s\<leftarrow>slots. arr s) \<and>
    vec T' = (\<lambda>s. vec T1 s + (if opt_blocks w0 \<and> s \<in> set slots then arr s else 0))"
    using Cons.prems(2,3) S by (intro Cons.IH [OF _ _ _ r]) auto
  with S Cons.prems(3) show ?case by (auto simp: fun_eq_iff)
qed simp

text \<open>One thread's array, then all.\<close>

lemma count_thread_spec:
  assumes laws: "ht_laws A" and mods: "mods_ok w0" and inv: "loop_inv A w0 w"
    and res: "count_thread A Y k ti (T, w) = (T', w')"
  defines "arr \<equiv> (\<lambda>s. case tslots w0 k ti of None \<Rightarrow> 0 | Some a \<Rightarrow> arrays w0 a s)"
  shows "loop_inv A w0 w' \<and>
    sums (length (modules w0)) (unat (next_slot w0)) T' =
      plus3 (sums (length (modules w0)) (unat (next_slot w0)) T) (\<Sum>s<unat (next_slot w0). arr s) \<and>
    vec T' = (\<lambda>s. vec T s + (if opt_blocks w0 \<and> s < unat (next_slot w0) then arr s else 0))"
proof -
  have same: "sym_same w0 w" using inv by (simp add: loop_inv_def)
  then have e: "tslots w = tslots w0" "arrays w = arrays w0" "next_slot w = next_slot w0"
    by (simp_all add: sym_same_def mem.defs)
  show ?thesis
  proof (cases "tslots w0 k ti")
    case None
    with res inv show ?thesis by (auto simp: count_thread_def e arr_def fun_eq_iff)
  next
    case (Some a)
    obtain T1 where f: "fold (count_slot A Y (arrays w0 a)) [0..<unat (next_slot w0)] (T, w) = (T1, w')"
      and T': "slot_total T' = slot_total T1" "mod_sum T' = mod_sum T1" "sym_sum T' = sym_sum T1" "vec T' = vec T1"
      using res Some by (auto simp: count_thread_def e Let_def split: prod.splits)
    have sub: "set [0..<unat (next_slot w0)] \<subseteq> {..<unat (next_slot w0)}" by auto
    have tot: "(\<Sum>s\<leftarrow>[0..<unat (next_slot w0)]. arrays w0 a s) = (\<Sum>s<unat (next_slot w0). arrays w0 a s)"
      by (simp add: interv_sum_list_conv_sum_set_nat atLeast0LessThan)
    have arr: "arr s = arrays w0 a s" for s using Some by (simp add: arr_def)
    have sm: "sums nm n T' = sums nm n T1" for nm n by (simp add: sums_def T')
    show ?thesis
      unfolding arr sm T' using count_slots_spec [OF laws mods inv sub distinct_upt f] tot by simp
  qed
qed

lemma count_threads_spec:
  assumes laws: "ht_laws A" and mods: "mods_ok w0" and "loop_inv A w0 w"
    and "fold (count_thread A Y k) tis (T, w) = (T', w')"
  defines "arr \<equiv> (\<lambda>ti s. case tslots w0 k ti of None \<Rightarrow> 0 | Some a \<Rightarrow> arrays w0 a s)"
  shows "loop_inv A w0 w' \<and>
    sums (length (modules w0)) (unat (next_slot w0)) T' =
      plus3 (sums (length (modules w0)) (unat (next_slot w0)) T) (\<Sum>s<unat (next_slot w0). \<Sum>ti\<leftarrow>tis. arr ti s) \<and>
    vec T' = (\<lambda>s. vec T s + (if opt_blocks w0 \<and> s < unat (next_slot w0) then (\<Sum>ti\<leftarrow>tis. arr ti s) else 0))"
  using assms(3,4)
proof (induction tis arbitrary: T w)
  case Nil
  then show ?case by (auto simp: fun_eq_iff)
next
  case (Cons ti tis)
  obtain T1 w1 where s1: "count_thread A Y k ti (T, w) = (T1, w1)" by (cases "count_thread A Y k ti (T, w)")
  note S = count_thread_spec [OF laws mods Cons.prems(1) s1]
  have "fold (count_thread A Y k) tis (T1, w1) = (T', w')" using Cons.prems(2) s1 by simp
  from Cons.IH [OF conjunct1 [OF S] this] S show ?case
    by (auto simp: arr_def sum.distrib fun_eq_iff)
qed

lemma add_up_spec:
  assumes laws: "ht_laws A" and mods: "mods_ok w" and syms: "syms_inv A (unat (next_slot w)) w"
    and res: "add_up A Y k w = (T, w')"
  shows "loop_inv A w w'" and "slot_total T = (\<Sum>s<unat (next_slot w). key_count w k s)"
    and "(\<Sum>i<Suc (length (modules w)). mod_sum T i) = slot_total T"
    and "(\<Sum>i<unat (next_slot w). sym_sum T i) = slot_total T"
    and "s < unat (next_slot w) \<Longrightarrow> opt_blocks w \<Longrightarrow> vec T s = key_count w k s"
proof -
  have "loop_inv A w w" using syms by (simp add: loop_inv_def)
  note S = count_threads_spec [OF laws mods this res [unfolded add_up_def]]
  have kc: "(\<Sum>ti\<leftarrow>[0..<MAX_THREADS]. case tslots w k ti of None \<Rightarrow> 0 | Some a \<Rightarrow> arrays w a s) = key_count w k s" for s
    by (simp add: key_count_def interv_sum_list_conv_sum_set_nat atLeast0LessThan)
  have z: "sums nm n no_totals = (0, 0, 0)" for nm n by (simp add: sums_def no_totals_def)
  have "sums (length (modules w)) (unat (next_slot w)) T =
      (let c = (\<Sum>s<unat (next_slot w). key_count w k s) in (c, c, c))"
    using S by (simp add: kc z plus3_def Let_def)
  then show "slot_total T = (\<Sum>s<unat (next_slot w). key_count w k s)"
    "(\<Sum>i<Suc (length (modules w)). mod_sum T i) = slot_total T"
    "(\<Sum>i<unat (next_slot w). sym_sum T i) = slot_total T"
    by (simp_all add: sums_def Let_def del: sum.lessThan_Suc)
  show "loop_inv A w w'" using S by simp
  show "vec T s = key_count w k s" if "s < unat (next_slot w)" "opt_blocks w"
    using S that by (simp add: kc no_totals_def)
qed

text \<open>Only symbols that are in the table have a sum.\<close>

definition sym_zero :: "totals \<Rightarrow> ('h, 'p) xworld \<Rightarrow> bool" where
  "sym_zero T w \<longleftrightarrow> (\<forall>i. length (syms w) \<le> i \<longrightarrow> sym_sum T i = 0)"

lemma count_slot_zero:
  assumes laws: "ht_laws A" and inv: "loop_inv A w0 w" and slot: "slot < unat (next_slot w0)"
    and z: "sym_zero T w" and res: "count_slot A Y arr slot (T, w) = (T', w')"
  shows "sym_zero T' w'"
proof (cases "arr slot = 0")
  case True
  with res z show ?thesis by (simp add: count_slot_def)
next
  case False
  obtain si where s: "sym_index_for_slot A Y slot w = (si, w')"
    using res False by (auto simp: count_slot_def Let_def split: prod.splits)
  have "syms_inv A (unat (next_slot w0)) w" using inv by (simp add: loop_inv_def)
  from sym_index_for_slot_inv [OF laws this slot s] have
    "nat si < length (syms w')" "length (syms w) \<le> length (syms w')" by auto
  moreover have "sym_sum T' = (sym_sum T)(nat si := sym_sum T (nat si) + arr slot)"
    using res False by (auto simp: count_slot_def Let_def s)
  ultimately show ?thesis using z by (auto simp: sym_zero_def)
qed

lemma count_slots_zero:
  assumes laws: "ht_laws A" and mods: "mods_ok w0"
  shows "loop_inv A w0 w \<Longrightarrow> set slots \<subseteq> {..<unat (next_slot w0)} \<Longrightarrow> sym_zero T w \<Longrightarrow>
    fold (count_slot A Y arr) slots (T, w) = (T', w') \<Longrightarrow> sym_zero T' w'"
proof (induction slots arbitrary: T w)
  case (Cons s slots)
  obtain T1 w1 where s1: "count_slot A Y arr s (T, w) = (T1, w1)" by (cases "count_slot A Y arr s (T, w)")
  have s: "s < unat (next_slot w0)" using Cons.prems(2) by simp
  have "loop_inv A w0 w1" using count_slot_spec [OF laws Cons.prems(1) mods s s1] by blast
  then show ?case
    using Cons.IH [OF _ _ count_slot_zero [OF laws Cons.prems(1) s Cons.prems(3) s1]] Cons.prems(2,4) s1 by simp
qed simp

lemma count_threads_zero:
  assumes laws: "ht_laws A" and mods: "mods_ok w0"
  shows "loop_inv A w0 w \<Longrightarrow> sym_zero T w \<Longrightarrow> fold (count_thread A Y k) tis (T, w) = (T', w') \<Longrightarrow> sym_zero T' w'"
proof (induction tis arbitrary: T w)
  case (Cons ti tis)
  obtain T1 w1 where s1: "count_thread A Y k ti (T, w) = (T1, w1)" by (cases "count_thread A Y k ti (T, w)")
  have n: "next_slot w = next_slot w0" using Cons.prems(1) by (simp add: loop_inv_def sym_same_def)
  have "sym_zero T1 w1"
  proof (cases "tslots w k ti")
    case None
    with s1 Cons.prems(2) show ?thesis by (simp add: count_thread_def)
  next
    case (Some a)
    then obtain T2 where f: "fold (count_slot A Y (arrays w a)) [0..<unat (next_slot w0)] (T, w) = (T2, w1)"
      and T1: "sym_sum T1 = sym_sum T2"
      using s1 by (auto simp: count_thread_def Let_def n split: prod.splits)
    have "sym_zero T2 w1" by (rule count_slots_zero [OF laws mods Cons.prems(1) _ Cons.prems(2) f]) auto
    then show ?thesis by (simp add: sym_zero_def T1)
  qed
  moreover have "loop_inv A w0 w1" using count_thread_spec [OF laws mods Cons.prems(1) s1] by blast
  ultimately show ?case using Cons.IH Cons.prems(3) s1 by simp
qed simp

lemma add_up_zero:
  assumes "ht_laws A" "mods_ok w" "syms_inv A (unat (next_slot w)) w" "add_up A Y k w = (T, w')"
  shows "sym_zero T w'" "length (syms w') \<le> unat (next_slot w)"
proof -
  have "loop_inv A w w" using assms(3) by (simp add: loop_inv_def)
  then show "sym_zero T w'"
    by (rule count_threads_zero [OF assms(1,2) _ _ assms(4) [unfolded add_up_def]])
      (simp add: sym_zero_def no_totals_def)
  have "loop_inv A w w'" by (rule add_up_spec(1) [OF assms])
  then have "length (syms w') \<le> card {slot. slot < unat (next_slot w) \<and> 0 \<le> slot_sym w' slot}"
    by (simp add: loop_inv_def syms_inv_def)
  also have "\<dots> \<le> unat (next_slot w)"
    using card_mono [of "{..<unat (next_slot w)}" "{slot. slot < unat (next_slot w) \<and> 0 \<le> slot_sym w' slot}"] by auto
  finally show "length (syms w') \<le> unat (next_slot w)" .
qed

text \<open>The table of symbols: the \<open>-top\<close> largest, in the order of their sizes.\<close>

lemma top_symbols_spec:
  assumes "0 < cap"
  shows "top_symbols cap T w =
    take (nat cap) (ranked [(i, sym_sum T i). i \<leftarrow> [0..<length (syms w)], sym_sum T i \<noteq> 0])"
  using topn_fold [of "nat cap" "[]"] assms by (simp add: top_symbols_def ranked_def descending_def)

end
