(* ===== verification/Slots.thy ===== *)
theory Slots
  imports Names Report
begin

text \<open>
  Block slots and modules over whole runs: an address keeps its slot, two addresses never share one
  unless the table is full, and every slot names a module that exists. With that, what
  \<open>write_key\<close> adds up at exit is tied to what ran.
\<close>

definition mods_inv :: "('h, 'p) dr_api \<Rightarrow> ('h, 'p) world \<Rightarrow> bool" where
  "mods_inv A w \<longleftrightarrow> length (modules w) \<le> MAX_MODULES \<and>
     (\<forall>st v. pt_lookup A (mod_table w) st = Some v \<longrightarrow>
        1 \<le> v \<and> v \<le> length (modules w) \<and> m_start (modules w ! (v - 1)) = st) \<and>
     (\<forall>slot < unat (next_slot w). -1 \<le> slot_mod w slot \<and> slot_mod w slot < int (length (modules w)) \<and>
        slot_sym w slot = -1)"

lemma more_same:
  fixes w w' :: "('h, 'p) world"
  assumes "client.more w' = client.more w"
  shows "modules w' = modules w" "mod_table w' = mod_table w" "slot_mod w' = slot_mod w" "slot_sym w' = slot_sym w"
    "next_slot w' = next_slot w" "slot_table w' = slot_table w" "slot_pc w' = slot_pc w" "slots_overflow w' = slots_overflow w"
  using assms by (cases w; cases w'; simp)+

text \<open>Every step but the loading of a module and the building of a block leaves all of this alone.\<close>

fun builds :: "event \<Rightarrow> bool" where
  "builds (Load d) = True"
| "builds (Build i x pc n mo) = True"
| "builds _ = False"

lemma builds_cases [consumes 1, case_names load build]:
  assumes "builds e"
  obtains d where "e = Load d" | i x pc n mo where "e = Build i x pc n mo"
  using assms by (cases e) auto

lemma step_more:
  assumes inv: "world_inv A w" and res: "step A w e = Some w'"
    and e: "\<not> builds e"
  shows "client.more w' = client.more w"
proof -
  have en: "enabled w e" and h: "handle A w e = Some w'" using res by (auto simp: step_def split: if_splits)
  show ?thesis
  proof (cases "\<exists>i p. e = Exec i p")
    case True
    then obtain i p where e': "e = Exec i p" by blast
    then have "p \<in> code w" "i < length (threads w)" using en by (simp_all add: enabled_def)
    with h e' exec_block_spec [OF inv, of p i] have
      "w' = (if count_of p = 0 then w else counted i (of_nat (slot_of p)) (count_of p) w)" by simp
    then show ?thesis by (simp add: counted_def Let_def)
  next
    case False
    then have "calm w w'" using handle_calm [OF inv en h] e by fastforce
    then show ?thesis by (simp add: calm_def)
  qed
qed

lemma module_index_range:
  assumes "mods_inv A w"
  shows "-1 \<le> module_index_for_pc A (mod_table w) mo \<and> module_index_for_pc A (mod_table w) mo < int (length (modules w))"
proof (cases mo)
  case (Some st)
  have "v \<le> length (modules w)" "1 \<le> v" if "pt_lookup A (mod_table w) st = Some v" for v
    using assms that by (auto simp: mods_inv_def)
  then have "int v - 1 < int (length (modules w))" "- 1 \<le> int v - 1" if "pt_lookup A (mod_table w) st = Some v" for v
    using that by fastforce+
  then show ?thesis by (simp add: module_index_for_pc_def Some split: option.split)
qed (simp add: module_index_for_pc_def)

lemma event_module_load_mods:
  assumes inv: "mods_inv A w" and laws: "pt_laws A"
  shows "mods_inv A (event_module_load A d w)"
proof -
  have eq: "mods_inv A (w\<lparr>wrapped := ws\<rparr>) = mods_inv A w" for ws and w :: "('a, 'b) world"
    by (simp add: mods_inv_def)
  let ?m = "\<lparr>m_name = safe_strcpy (Some (case mod_name d of None \<Rightarrow> ''?'' | Some s \<Rightarrow> s)) RNAME_MAX,
              m_path = safe_strcpy (d_path d) 512, m_start = d_start d, m_end = d_end d\<rparr>"
  have "mods_inv A (w\<lparr>modules := modules w @ [?m],
      mod_table := pt_add A (mod_table w) (d_start d) (length (modules w) + 1)\<rparr>)"
    if "length (modules w) < MAX_MODULES" "pt_lookup A (mod_table w) (d_start d) = None"
    using inv that laws by (auto simp: mods_inv_def pt_laws_def nth_append less_Suc_eq split: if_splits)
      (fastforce, force)
  then show ?thesis using inv by (auto simp: event_module_load_def Let_def eq)
qed

lemma build_block_cases:
  obtains (same) "\<exists>so p. build_block A i x pc n mo w =
      (event_app2app x i w)\<lparr>slots_overflow := so, code := insert p (code w)\<rparr>"
  | (fresh) p where "pt_lookup A (slot_table w) pc = None" "next_slot w < opt_max_slots w"
      "build_block A i x pc n mo w = (assign_slot A pc mo (event_app2app x i w))\<lparr>code := insert p (code w)\<rparr>"
proof -
  let ?w = "event_app2app x i w"
  have f: "slot_table ?w = slot_table w" "next_slot ?w = next_slot w" "opt_max_slots ?w = opt_max_slots w"
    "code ?w = code w" "slots_overflow ?w = slots_overflow w"
    by (simp_all add: event_app2app_def upd_thr_def)
  show ?thesis
  proof (cases rule: event_analysis_cases [of A ?w pc i n mo])
    case (known v)
    have "build_block A i x pc n mo w = ?w\<lparr>slots_overflow := slots_overflow ?w, code :=
        insert (packed_word (of_nat v - 1) (block_count i n ?w)) (code w)\<rparr>"
      by (simp add: build_block_def known(2) f(4))
    with same show ?thesis by blast
  next
    case full
    have "build_block A i x pc n mo w = ?w\<lparr>slots_overflow := slots_overflow ?w + 1, code :=
        insert (packed_word (opt_max_slots ?w - 1) (block_count i n ?w)) (code w)\<rparr>"
      by (simp add: build_block_def full(3) f(4))
    with same show ?thesis by blast
  next
    case fresh2: fresh
    have "build_block A i x pc n mo w = (assign_slot A pc mo ?w)\<lparr>code :=
        insert (packed_word (next_slot ?w) (block_count i n ?w)) (code w)\<rparr>"
      by (simp add: build_block_def fresh2(3) assign_slot_def f(4))
    then show ?thesis by (rule fresh [OF fresh2(1) [unfolded f(1)] fresh2(2) [unfolded f(2,3)]])
  qed
qed

lemma app2app_more [simp]: "client.more (event_app2app x i w) = client.more w"
  by (simp add: event_app2app_def)

lemma step_mods:
  assumes inv: "world_inv A w" and M: "mods_inv A w" and res: "step A w e = Some w'"
  shows "mods_inv A w'"
proof -
  have laws: "pt_laws A" using inv by (simp add: world_inv_def)
  have h: "handle A w e = Some w'" using res by (auto simp: step_def split: if_splits)
  show ?thesis
  proof (cases "builds e")
    case False
    from more_same [OF step_more [OF inv res False]] M show ?thesis by (simp add: mods_inv_def)
  next
    case True
    then show ?thesis
    proof (cases rule: builds_cases)
    case (load d)
    with h event_module_load_mods [OF M laws] show ?thesis by auto
  next
    case (build i x pc n mo)
    let ?w = "event_app2app x i w"
    have M1: "mods_inv A ?w" using M more_same [OF app2app_more, of x i w] by (simp add: mods_inv_def)
    from h build have w': "w' = build_block A i x pc n mo w" by simp
    show ?thesis
    proof (cases rule: build_block_cases [of A i x pc n mo w])
      case same
      with M1 show ?thesis by (auto simp: w' mods_inv_def)
    next
      case (fresh p)
      have nx: "next_slot ?w = next_slot w" "opt_max_slots ?w = opt_max_slots w" by (simp_all add: event_app2app_def upd_thr_def)
      have "unat (next_slot ?w + 1) = Suc (unat (next_slot ?w))"
        using unat_plus_one [OF fresh(2)] by (simp add: nx)
      then show ?thesis
        using M1 module_index_range [OF M1, of mo] by (auto simp: w' fresh(3) mods_inv_def assign_slot_def less_Suc_eq)
    qed
    qed
  qed
qed

lemma ran_mods:
  assumes "ran A oc main es w"
  shows "mods_inv A w"
proof (rule ran_induct [OF assms, where Q = "\<lambda>_. True"])
  show "mods_inv A (init_world A oc main)" using assms by (simp add: mods_inv_def init_world_def ran_def pt_laws_def)
qed (simp_all add: list_all_iff step_mods)

subsection \<open>An address keeps its slot\<close>

lemma step_slot_kept:
  assumes inv: "world_inv A w" and res: "step A w e = Some w'" and v: "pt_lookup A (slot_table w) pc = Some v"
  shows "pt_lookup A (slot_table w') pc = Some v"
proof -
  have laws: "pt_laws A" using inv by (simp add: world_inv_def)
  have h: "handle A w e = Some w'" using res by (auto simp: step_def split: if_splits)
  show ?thesis
  proof (cases "builds e")
    case False
    from more_same [OF step_more [OF inv res False]] v show ?thesis by simp
  next
    case True
    then show ?thesis
    proof (cases rule: builds_cases)
    case (load d)
    with h v show ?thesis by (auto simp: event_module_load_same)
  next
    case (build i x pc' n mo)
    have t: "slot_table (event_app2app x i w) = slot_table w" by (simp add: event_app2app_def upd_thr_def)
    from h build have w': "w' = build_block A i x pc' n mo w" by simp
    show ?thesis
    proof (cases rule: build_block_cases [of A i x pc' n mo w])
      case same
      with v show ?thesis by (auto simp: w' t)
    next
      case (fresh p)
      with v show ?thesis by (auto simp: w' fresh(3) assign_slot_def t pt_lookup_add [OF laws])
    qed
    qed
  qed
qed

lemma run_slot_kept:
  assumes "world_inv A w" "list_all event_ok es" "run (step A) w es = Some w'" "pt_lookup A (slot_table w) pc = Some v"
  shows "pt_lookup A (slot_table w') pc = Some v"
  using assms
proof (induction es arbitrary: w)
  case (Cons e es)
  then obtain w1 where w1: "step A w e = Some w1" "run (step A) w1 es = Some w'" by (auto split: Option.bind_splits)
  have "world_inv A w1" using step_inv [OF Cons.prems(1) _ w1(1)] Cons.prems(2) by simp
  then show ?case using Cons.IH [OF _ _ w1(2)] Cons.prems(2) step_slot_kept [OF Cons.prems(1) w1(1) Cons.prems(4)] by simp
qed simp

lemma known_slot:
  assumes inv: "world_inv A w" and v: "pt_lookup A (slot_table w) pc = Some v" and n: "n < 2 ^ 31"
  shows "slot_of (fst (event_analysis A i pc n mo w)) = v - 1" "snd (event_analysis A i pc n mo w) = w"
    "slot_pc w (v - 1) = pc" "1 \<le> v"
proof -
  have S: "slots_inv A w" and m: "opt_max_slots w \<le> 2 ^ 28" using inv by (simp_all add: world_inv_def)
  have "unat (opt_max_slots w) \<le> 2 ^ 28" using m by (simp add: word_le_nat_alt)
  then have m31: "unat (opt_max_slots w) < 2 ^ 31" by simp
  note E = slot_of_entry [OF S v m31]
  have s: "(of_nat v - 1 :: u64) < 2 ^ 32" using E(2) m by (simp add: word_less_nat_alt word_le_nat_alt)
  have b: "block_count i n w < 2 ^ 31" using n by (simp add: block_count_def)
  show "slot_of (fst (event_analysis A i pc n mo w)) = v - 1" "snd (event_analysis A i pc n mo w) = w"
    using v packed_parts(1) [OF s b] E(1)
    by (cases rule: event_analysis_cases [of A w pc i n mo]; simp)+
  show "slot_pc w (v - 1) = pc" "1 \<le> v" using S v by (auto simp: slots_inv_def)
qed

subsection \<open>The report of a run\<close>

text \<open>The state in which \<open>event_exit\<close> starts: no symbol has been looked up.\<close>

definition at_exit :: "('h, 'p) dr_api \<Rightarrow> ('h, 'p) world \<Rightarrow> ('h, 'p) xworld" where
  "at_exit A w = world.extend w \<lparr>syms = [], syms_cap = 0, sym_table = ht_new A,
     modsyms_of = (\<lambda>_. \<lparr>ms_syms = [], ms_cap = 0, ms_done = False\<rparr>)\<rparr>"

lemma at_exit_simps [simp]:
  "modules (at_exit A w) = modules w" "next_slot (at_exit A w) = next_slot w" "slot_mod (at_exit A w) = slot_mod w"
  "slot_sym (at_exit A w) = slot_sym w" "syms (at_exit A w) = []" "sym_table (at_exit A w) = ht_new A"
  "key_count (at_exit A w) k s = key_count w k s" "opt_blocks (at_exit A w) = opt_blocks w" "keys (at_exit A w) = keys w"
  "tslots (at_exit A w) = tslots w" "arrays (at_exit A w) = arrays w"
  by (simp_all add: at_exit_def world.defs key_count_def cong: option.case_cong)

lemma at_exit_inv:
  assumes "mods_inv A w" and "ht_laws A"
  shows "mods_ok (at_exit A w)" "syms_inv A (unat (next_slot w)) (at_exit A w)"
  using assms by (auto simp: mods_ok_def syms_inv_def mods_inv_def ht_laws_def)

end
