(* ===== verification/Trace.thy ===== *)
theory Trace
  imports Names
begin

text \<open>
  The trace of closed regions: the chunked list of every thread stands for the flat list of its
  records, the records kept over all threads never exceed \<open>-trace\<close>, none is lost without being
  counted, and the number \<open>event_exit\<close> reports is the number of records there are.
\<close>

definition flat :: "trace_rec list list \<Rightarrow> trace_rec list" where
  "flat cs = concat cs"

definition chunks_ok :: "trace_rec list list \<Rightarrow> bool" where
  "chunks_ok cs \<longleftrightarrow> (\<forall>c \<in> set (butlast cs). length c = TRACE_CHUNK) \<and>
     (cs \<noteq> [] \<longrightarrow> 1 \<le> length (last cs) \<and> length (last cs) \<le> TRACE_CHUNK)"

lemma push_trace_refines:
  assumes "chunks_ok cs"
  shows "flat (push_trace r cs) = flat cs @ [r]" "chunks_ok (push_trace r cs)"
proof -
  show "flat (push_trace r cs) = flat cs @ [r]"
    by (cases cs rule: rev_cases) (simp_all add: push_trace_def flat_def)
  show "chunks_ok (push_trace r cs)"
    using assms by (cases cs rule: rev_cases) (auto simp: push_trace_def chunks_ok_def TRACE_CHUNK_def butlast_append)
qed

definition trace_len :: "('h, 'z) client_scheme \<Rightarrow> nat" where
  "trace_len c = (\<Sum>t\<leftarrow>threads c. length (flat (trace t)))"

text \<open>What of the state the trace consists of.\<close>

definition traced :: "('h, 'z) client_scheme \<Rightarrow> int \<times> int \<times> int \<times> trace_rec list list list" where
  "traced c = (opt_trace c, trace_records c, trace_dropped c, map trace (threads c))"

definition trace_inv :: "('h, 'z) client_scheme \<Rightarrow> bool" where
  "trace_inv c \<longleftrightarrow> (\<forall>t \<in> set (threads c). chunks_ok (trace t)) \<and> 0 \<le> trace_records c \<and>
     (if opt_trace c \<le> 0 then trace_len c = 0 \<and> trace_records c = 0 \<and> trace_dropped c = 0
      else int (trace_len c) = min (trace_records c) (opt_trace c) \<and>
        trace_dropped c = max 0 (trace_records c - opt_trace c))"

lemma trace_inv_traced:
  assumes "trace_inv c" and "traced c' = traced c"
  shows "trace_inv c'"
proof -
  have t: "map trace (threads c') = map trace (threads c)" and
    e: "opt_trace c' = opt_trace c" "trace_records c' = trace_records c" "trace_dropped c' = trace_dropped c"
    using assms(2) by (simp_all add: traced_def)
  have "map (\<lambda>t. length (flat (trace t))) (threads c') = map (\<lambda>t. length (flat (trace t))) (threads c)"
    using arg_cong [OF t, of "map (\<lambda>cs. length (flat cs))"] by (simp add: comp_def)
  then have "trace_len c' = trace_len c" by (simp only: trace_len_def)
  moreover have "trace ` set (threads c') = trace ` set (threads c)" using arg_cong [OF t, of set] by simp
  then have "(\<forall>t \<in> set (threads c'). chunks_ok (trace t)) = (\<forall>t \<in> set (threads c). chunks_ok (trace t))"
    by (metis (no_types, lifting) image_iff)
  ultimately show ?thesis using assms(1) e by (simp add: trace_inv_def)
qed

lemma traced_inert:
  assumes "inert c' = inert c"
  shows "traced c' = traced c"
proof -
  have "map trace ts = map trace (map rest ts)" for ts :: "'a thread list" by (simp add: rest_def)
  then show ?thesis using inertD(4,5,8,9) [OF assms] by (metis traced_def)
qed

lemma traced_upd_thr: "(\<And>t. trace (f t) = trace t) \<Longrightarrow> traced (upd_thr i f c) = traced c"
  by (simp add: traced_def upd_thr_def map_upd_nth_same)

lemma traced_marks [simp]:
  "traced (c\<lparr>seq_counter := n\<rparr>) = traced c" "traced (c\<lparr>unmatched_ends := n\<rparr>) = traced c"
  "traced (c\<lparr>state_overflows := n\<rparr>) = traced c" "traced (c\<lparr>marker_seen := b, depth_overflows := n\<rparr>) = traced c"
  by (simp_all add: traced_def)

subsection \<open>Appending\<close>

lemma trace_append_inv:
  assumes inv: "trace_inv c" and i: "i < length (threads c)"
  shows "trace_inv (trace_append i f se te x y z b c)"
proof (cases "opt_trace c \<le> 0 \<or> opt_trace c < trace_records c + 1")
  case True
  with inv show ?thesis
    by (auto simp: trace_append_def trace_inv_def trace_len_def)
next
  case False
  define r where "r = \<lparr>r_key = f_key f, r_seq_begin = seq_begin f, r_seq_end = se,
              r_t_begin_us = t_begin_us f, r_t_end_us = te, clock_begin = total_at_begin f,
              r_incl = x, r_self = y, r_sys = z, r_implicit = b, r_states = f_states f\<rparr>"
  let ?c = "upd_thr i (\<lambda>t. t\<lparr>trace := push_trace r (trace t)\<rparr>) (c\<lparr>trace_records := trace_records c + 1\<rparr>)"
  have c': "trace_append i f se te x y z b c = ?c" using False by (simp add: trace_append_def r_def)
  have ok: "chunks_ok (trace (thr c i))" using inv i by (simp add: trace_inv_def)
  have "trace_len ?c = (\<Sum>t\<leftarrow>(threads c)[i := (thr c i)\<lparr>trace := push_trace r (trace (thr c i))\<rparr>]. length (flat (trace t)))"
    by (simp add: trace_len_def upd_thr_def upd_nth_def)
  also have "\<dots> = trace_len c + 1"
    using i elem_le_sum_list [of i "map (\<lambda>t. length (flat (trace t))) (threads c)"]
    by (simp add: map_update sum_list_update push_trace_refines(1) [OF ok] trace_len_def)
  finally have "trace_len ?c = trace_len c + 1" .
  moreover have "chunks_ok (trace t)" if "t \<in> set (threads ?c)" for t
  proof -
    have "t = (thr c i)\<lparr>trace := push_trace r (trace (thr c i))\<rparr> \<or> t \<in> set (threads c)"
      using that set_update_subset_insert [of "threads c" i] by (auto simp: upd_thr_def upd_nth_def)
    then show ?thesis using push_trace_refines(2) [OF ok] inv by (auto simp: trace_inv_def)
  qed
  moreover have "opt_trace ?c = opt_trace c" "trace_records ?c = trace_records c + 1" "trace_dropped ?c = trace_dropped c"
    by (simp_all add: upd_thr_def)
  ultimately show ?thesis unfolding c' using inv False by (simp add: trace_inv_def)
qed

lemma stats_for_traced: "stats_for A k i c = Some c1 \<Longrightarrow> traced c1 = traced c \<and> length (threads c1) = length (threads c)"
  by (drule stats_for_eq) (auto intro: traced_upd_thr)

lemma close_frame_trace_inv:
  assumes inv: "trace_inv c" and i: "i < length (threads c)" and res: "close_frame A i tot se te b c = Some c'"
  shows "trace_inv c'"
proof -
  obtain c1 k s f x y z g where c1: "stats_for A k i c = Some c1"
    and c': "c' = upd_thr i (\<lambda>t. t\<lparr>stack := g (stack t)\<rparr>) (trace_append i f se te x y z b (upd_thr i (stats_upd k s) c1))"
    using res unfolding close_frame_def Let_def by (auto split: Option.bind_splits)
  have "traced (upd_thr i (stats_upd k s) c1) = traced c"
    using stats_for_traced [OF c1] traced_upd_thr [of "stats_upd k s" i c1] by (simp add: stats_upd_def)
  then have "trace_inv (trace_append i f se te x y z b (upd_thr i (stats_upd k s) c1))"
    using trace_inv_traced [OF inv] stats_for_traced [OF c1] i by (intro trace_append_inv) simp_all
  then show ?thesis unfolding c' by (rule trace_inv_traced) (simp add: traced_upd_thr)
qed

lemma close_above_trace_inv:
  "close_above A i tot se te d c = Some c' \<Longrightarrow> trace_inv c \<Longrightarrow> i < length (threads c) \<Longrightarrow> trace_inv c'"
proof (induction A i tot se te d c rule: close_above.induct)
  case (1 A i tot se te d c)
  show ?case
  proof (cases "d < depth (thr c i)")
    case True
    then obtain c1 where c1: "close_frame A i tot se te True c = Some c1" "close_above A i tot se te d c1 = Some c'"
      using "1.prems" by (auto simp: close_above.simps [of A i tot se te d c] split: Option.bind_splits)
    have "trace_inv c1" by (rule close_frame_trace_inv [OF "1.prems"(2,3) c1(1)])
    moreover have "i < length (threads c1)" using close_frame_step [OF c1(1) "1.prems"(3)] "1.prems"(3) by (simp add: own_step_def)
    ultimately show ?thesis using "1.IH" [OF _ c1] True "1.prems"(3) by simp
  next
    case False
    with "1.prems" show ?thesis by (simp add: close_above.simps [of A i tot se te d c])
  qed
qed

subsection \<open>Handlers and runs\<close>

lemma pre_end_trace_inv:
  assumes inv: "trace_inv c" and i: "i < length (threads c)" and res: "pre_end A i reg now c = Some c'"
  shows "trace_inv c'"
proof (cases "find_frame (keys c) (stack (thr c i)) (region_name reg) (depth (thr c i))")
  case None
  then have "c' = c\<lparr>unmatched_ends := unmatched_ends c + 1\<rparr>" using res by (simp add: pre_end_def Let_def)
  then show ?thesis using trace_inv_traced [OF inv, of c'] by simp
next
  case (Some j)
  obtain c0 c2 c3 se te where c0: "c0 = c\<lparr>seq_counter := seq_counter c0\<rparr>"
    and c2: "close_above A i (total (thr c i)) se te (j + 1) c0 = Some c2"
    and c3: "close_frame A i (total (thr c i)) se te False c2 = Some c3"
    and c': "c' = (let c4 = reinstall A i c3 in if leader c4 = Some i then update_shared A (Some i) c4 else c4)"
    by (rule pre_end_eq [OF res i Some])
  have "trace_inv c0" "threads c0 = threads c" by (subst c0, simp add: trace_inv_traced [OF inv])+
  then have i0: "trace_inv c0" "i < length (threads c0)" using i by simp_all
  have "trace_inv c2" "i < length (threads c2)"
    using close_above_trace_inv [OF c2 i0] close_above_step [OF c2 i0(2)] i0 by (simp_all add: own_step_def)
  from close_frame_trace_inv [OF this c3] show ?thesis
    by (rule trace_inv_traced) (rule traced_inert, simp add: c' Let_def)
qed

lemma thread_exit_trace_inv:
  assumes inv: "trace_inv c" and i: "i < length (threads c)" and res: "event_thread_exit A i now c = Some c'"
  shows "trace_inv c'"
proof -
  let ?c0 = "c\<lparr>seq_counter := seq_counter c + 1\<rparr>"
  obtain c1 where c1: "close_above A i (total (thr c i)) (seq_counter c + 1) now 0 ?c0 = Some c1"
    and c': "c' = (let c2 = upd_thr i (\<lambda>t. t\<lparr>final_total := total (thr c i), alive := False\<rparr>) c1
      in if leader c2 = Some i then update_shared A None c2 else c2)"
    using res by (auto simp: event_thread_exit_def Let_def split: Option.bind_splits)
  have "trace_inv c1" by (rule close_above_trace_inv [OF c1]) (use inv i trace_inv_traced [OF inv, of ?c0] in simp_all)
  moreover have "traced c' = traced (upd_thr i (\<lambda>t. t\<lparr>final_total := total (thr c i), alive := False\<rparr>) c1)"
    by (rule traced_inert) (simp add: c' Let_def)
  ultimately show ?thesis by (auto simp: traced_upd_thr intro: trace_inv_traced)
qed

lemma begin_common_traced:
  assumes res: "begin_common A i reg sts now c = Some c'" and i: "i < length (threads c)"
  shows "traced c' = traced c"
  using res i
proof (cases rule: begin_common_inert)
  case (opened k t' c1 f sq)
  have t: "trace t' = trace (thr c i)" using opened(3) by (cases t', cases "thr c i") (simp add: same_caches_def)
  have c1: "threads c1 = threads c" "opt_trace c1 = opt_trace c" "trace_records c1 = trace_records c"
    "trace_dropped c1 = trace_dropped c"
    using same_keyst_client(1,5) [OF opened(2)] arg_cong [OF opened(2) [unfolded same_keyst_def], of trace_records]
      arg_cong [OF opened(2) [unfolded same_keyst_def], of trace_dropped] by simp_all
  have "traced c' = traced (upd_thr i (\<lambda>_. t'\<lparr>stack := stack t' @ [f]\<rparr>) (c1\<lparr>seq_counter := sq\<rparr>))"
    by (rule traced_inert [OF opened(4)])
  also have "\<dots> = traced c"
    using i t by (simp add: traced_def upd_thr_def upd_nth_def map_update c1 list_update_same_conv)
  finally show ?thesis .
qed simp

lemma thread_init_trace_inv:
  assumes inv: "trace_inv c" and res: "event_thread_init A tno c = Some c'"
  shows "trace_inv c'"
proof -
  define c1 where "c1 = c\<lparr>threads := threads c @ [new_thread A tno (nthreads_seen c)], nthreads_seen := nthreads_seen c + 1\<rparr>"
  obtain a c2 where s: "slots_for A (shared_key c1) (index (thr c1 (length (threads c)))) c1 = (a, c2)"
    by (cases "slots_for A (shared_key c1) (index (thr c1 (length (threads c)))) c1")
  have "c' = set_thread_cur (length (threads c)) a c2"
    using res s by (simp add: event_thread_init_def Let_def c1_def split: if_splits)
  then have "inert c' = inert c1" by (simp add: inert_slots_for_eq [OF s])
  then have T: "traced c' = traced c1" by (rule traced_inert)
  have "trace_inv c1"
    using inv by (auto simp: trace_inv_def c1_def trace_len_def new_thread_def flat_def chunks_ok_def)
  then show ?thesis using T by (rule trace_inv_traced)
qed

lemma step_trace_inv:
  assumes inv: "world_inv A w" and T: "trace_inv w" and res: "step A w e = Some w'"
  shows "trace_inv w'"
proof -
  have en: "enabled w e" and h: "handle A w e = Some w'" using res by (auto simp: step_def split: if_splits)
  show ?thesis
  proof (cases "begins e")
    case True
    then obtain i reg sts now c where b: "begin_common A i reg sts now c = Some w'" "actor e = Some i"
      "c = w \<or> c = w\<lparr>state_overflows := state_overflows w + 1\<rparr>"
      using h by (metis begins_common)
    have "i < length (threads c)" and t: "traced c = traced w" using b(2,3) en by (auto simp: enabled_def)
    from begin_common_traced [OF b(1) this(1)] t show ?thesis by (intro trace_inv_traced [OF T]) simp
  next
    case False
    note more = trace_inv_traced [OF T]
    show ?thesis
    proof (cases e)
      case (Thread_init tno)
      with h thread_init_trace_inv [OF T] show ?thesis by simp
    next
      case (Thread_exit i now)
      with h en thread_exit_trace_inv [OF T] show ?thesis by (auto simp: enabled_def)
    next
      case (End i r now)
      with h en pre_end_trace_inv [OF T] show ?thesis by (auto simp: enabled_def)
    next
      case (State i nm v)
      have "traced (pre_state i nm v w) = traced w" by (auto simp: pre_state_def Let_def intro: traced_upd_thr)
      with State h more show ?thesis by auto
    next
      case (Syscall i)
      have "traced (event_pre_syscall i w) = traced w" unfolding event_pre_syscall_def by (rule traced_upd_thr) simp
      with Syscall h more show ?thesis by auto
    next
      case (Load d)
      have "traced (event_module_load A d w) = traced w" by (simp add: traced_def event_module_load_def Let_def)
      with Load h more show ?thesis by auto
    next
      case (Build i x pc n mo)
      have "traced (event_app2app x i w) = traced w" unfolding event_app2app_def by (rule traced_upd_thr) simp
      moreover have "traced (build_block A i x pc n mo w) = traced (event_app2app x i w)"
        by (cases rule: event_analysis_cases [of A "event_app2app x i w" pc i n mo])
          (simp_all add: build_block_def assign_slot_def traced_def)
      ultimately show ?thesis using Build h more by auto
    next
      case (Exec i p)
      have "traced (counted i s n w) = traced w" for s n
        using traced_upd_thr [of "\<lambda>t. t\<lparr>total := total t + n\<rparr>" i w]
        by (simp add: counted_def Let_def bump_def split: carr.split) (simp add: traced_def)
      then show ?thesis
        using Exec h en exec_block_spec [OF inv, of p i] more by (auto simp: enabled_def split: if_splits)
    qed (use False in simp_all)
  qed
qed

lemma ran_trace:
  assumes "ran A oc main es w"
  shows "trace_inv w"
proof (rule ran_induct [OF assms, where Q = "\<lambda>_. True"])
  show "trace_inv (init_world A oc main)" by (simp add: trace_inv_def init_world_def trace_len_def)
qed (simp_all add: list_all_iff step_trace_inv)

end
