(* ===== verification/Output.thy ===== *)
theory Output
  imports Slots Trace
begin

text \<open>
  The files that \<open>client/drperf.c\<close> writes at exit: \<open>write_key\<close> (one entry of the report and one
  record of the \<open>.blocks\<close> file), \<open>write_trace\<close> and \<open>event_exit\<close>. A file is the string written to
  it. The services of the process (which files can be opened, its number and name, the text of a
  time stamp, which the code computes in floating point) are the record \<open>exit_api\<close>.
\<close>

definition NL :: char where "NL = CHR 0x0A"

definition llu :: "u64 \<Rightarrow> string" where
  "llu x = show_nat (unat x)"

definition lld :: "i64 \<Rightarrow> string" where
  "lld x = show_int (sint x)"

definition quoted :: "string \<Rightarrow> string" where
  "quoted s = QUOTE # s @ [QUOTE]"

text \<open>The name of a field with the colon and blank behind it.\<close>

definition field :: "string \<Rightarrow> string" where
  "field s = quoted s @ '': ''"

definition bool_text :: "bool \<Rightarrow> string" where
  "bool_text b = (if b then ''true'' else ''false'')"

record exit_api =
  opens :: "string \<Rightarrow> bool"
  pid :: int
  app_name :: string
  stamp_text :: "u64 \<Rightarrow> string"

subsection \<open>\<open>write_key\<close>\<close>

text \<open>The declared states of a key, as the report and the trace write them.\<close>

definition state_json :: "rkey \<Rightarrow> nat \<Rightarrow> string" where
  "state_json k i = (if i = 0 then [] else '', '') @ json_str (kname k ! i) @ '': '' @ lld (kval k ! i)"

definition states_json :: "rkey \<Rightarrow> string" where
  "states_json k = concat (map (state_json k) [0..<nkstates k])"

definition key_head :: "rkey \<Rightarrow> bool \<Rightarrow> string" where
  "key_head k first = (if first then [] else [CHR '','', NL]) @ ''    {'' @
     field ''region'' @ json_str (region k) @ '', '' @
     field ''state_name'' @ json_str (state_name k) @ '', '' @
     field ''state_value'' @ lld (state_value k) @ '', '' @ field ''states'' @ ''{'' @ states_json k @ ''}, '' @
     field ''parent'' @ json_str (parent k) @ '', '' @
     field ''root'' @ json_str (root k)"

definition key_stats :: "kstats \<Rightarrow> totals \<Rightarrow> string" where
  "key_stats st T = [CHR '','', NL] @ ''     '' @ field ''count'' @ llu (kstats.count st) @ '', '' @
     field ''incl'' @ ''{'' @ field ''sum'' @ llu (incl_sum st) @ '', '' @ field ''min'' @ llu (incl_min st) @ '', '' @
     field ''max'' @ llu (incl_max st) @ ''}, '' @ field ''self'' @ llu (self_sum st) @ '', '' @
     field ''self_min'' @ llu (self_min st) @ '', '' @ field ''self_max'' @ llu (self_max st) @ '','' @
     [NL] @ ''     '' @ field ''self_slots'' @ llu (slot_total T) @ '', '' @
     field ''other_threads'' @ llu (if self_sum st < slot_total T then slot_total T - self_sum st else 0) @ '', '' @
     field ''threads_active'' @ show_int (int (threads_active T)) @ '', '' @
     field ''syscalls'' @ llu (sys_sum st) @ '', '' @ field ''implicit_ends'' @ llu (implicit_ends st) @ [CHR '','', NL]"

definition mod_label :: "('h, 'p) xworld \<Rightarrow> int \<Rightarrow> string" where
  "mod_label w m = (if m < 0 then ''<no module>'' else m_name (modules w ! nat m))"

text \<open>The modules with a count; the entry behind the last module is for code of none.\<close>

definition key_modules :: "totals \<Rightarrow> ('h, 'p) xworld \<Rightarrow> string" where
  "key_modules T w =
     (let n = length (modules w); used = filter (\<lambda>i. mod_sum T i \<noteq> 0) [0..<Suc n] in
      ''     '' @ field ''modules'' @ ''{'' @
      concat (map (\<lambda>j. (if j = 0 then [] else '', '') @
        json_str (if used ! j = n then ''<no module>'' else m_name (modules w ! (used ! j))) @ '': '' @
        llu (mod_sum T (used ! j))) [0..<length used]))"

definition key_symbols :: "pair list \<Rightarrow> ('h, 'p) xworld \<Rightarrow> string" where
  "key_symbols tp w = ''},'' @ [NL] @ ''     '' @ field ''symbols'' @ ''['' @
     concat (map (\<lambda>i. (if i = 0 then [] else '','') @ [NL] @ ''      {'' @ field ''module'' @
       json_str (mod_label w (s_mod (syms w ! fst (tp ! i)))) @ '', '' @
       field ''symbol'' @ json_str (s_name (syms w ! fst (tp ! i))) @ '', '' @
       field ''instrs'' @ llu (snd (tp ! i)) @ ''}'') [0..<length tp]) @
     (if tp = [] then [] else NL # ''     '') @ '']}''"

definition blocks_head :: "rkey \<Rightarrow> kstats \<Rightarrow> string" where
  "blocks_head k st = ''K '' @ show_int (int (k_index k)) @ '' '' @ json_str (region k) @ '' '' @
     show_int (if overflow k then -1 else int (nkstates k)) @
     concat (map (\<lambda>i. '' '' @ json_str (kname k ! i) @ '' '' @ lld (kval k ! i)) [0..<nkstates k]) @
     '' '' @ json_str (root k) @ '' '' @ llu (kstats.count st) @ [NL]"

definition blocks_line :: "totals \<Rightarrow> nat \<Rightarrow> string" where
  "blocks_line T slot = (if vec T slot \<noteq> 0 then show_nat slot @ '' '' @ llu (vec T slot) @ [NL] else [])"

definition blocks_record :: "rkey \<Rightarrow> kstats \<Rightarrow> totals \<Rightarrow> nat \<Rightarrow> string" where
  "blocks_record k st T n = blocks_head k st @ concat (map (blocks_line T) [0..<n])"

text \<open>What the loop over the keys carries along: the report, the \<open>.blocks\<close> file (\<open>None\<close> when it is not
  open), the slots referenced so far and the state, in which symbols are entered.\<close>

record ('h, 'p) outs =
  o_text :: string
  o_blocks :: "string option"
  o_used :: "nat \<Rightarrow> bool"
  o_world :: "('h, 'p) xworld"

definition key_merged :: "('h, 'p) xworld \<Rightarrow> rkey \<Rightarrow> kstats" where
  "key_merged w k = merge_stats (map (\<lambda>t. map_option (\<lambda>f. f (k_index k)) (stats t)) (rev (threads w)))"

text \<open>One entry of the report, from the sums and the state after adding up.\<close>

definition key_entry :: "nat \<Rightarrow> totals \<Rightarrow> ('h, 'p) xworld \<Rightarrow> string" where
  "key_entry i T w = (let k = keys w ! i in
     key_head k (i = 0) @ key_stats (key_merged w k) T @ key_modules T w @ key_symbols (top_symbols (opt_top w) T w) w)"

definition write_key :: "('h, 'p) dr_api \<Rightarrow> sym_api \<Rightarrow> nat \<Rightarrow> ('h, 'p) outs \<Rightarrow> ('h, 'p) outs" where
  "write_key A Y i out =
     (let w = o_world out; k = keys w ! i;
          (T, w') = add_up A Y i w;
          bl = opt_blocks w \<and> o_blocks out \<noteq> None
      in \<lparr>o_text = o_text out @ key_entry i T w',
          o_blocks = (if bl then map_option (\<lambda>b. b @ blocks_record k (key_merged w k) T (unat (next_slot w))) (o_blocks out)
                      else o_blocks out),
          o_used = (if bl then (\<lambda>s. o_used out s \<or> s < unat (next_slot w) \<and> vec T s \<noteq> 0) else o_used out),
          o_world = w'\<rparr>)"

subsection \<open>\<open>write_trace\<close>\<close>

definition trace_line :: "exit_api \<Rightarrow> rkey list \<Rightarrow> int \<Rightarrow> trace_rec \<Rightarrow> string" where
  "trace_line E ks tno r =
     (let k = ks ! r_key r in
      ''{'' @ field ''seq'' @ show_int (r_seq_begin r) @ '', '' @ field ''seq_end'' @ show_int (r_seq_end r) @ '', '' @
      field ''tid'' @ show_int tno @ '', '' @ field ''region'' @ json_str (region k) @ '', '' @
      field ''root'' @ json_str (root k) @ '', '' @ field ''nk'' @ show_int (int (nkstates k)) @ '', '' @
      field ''state'' @ ''{'' @ states_json k @
      concat (map (\<lambda>j. (if 0 < j \<or> 0 < nkstates k then '', '' else []) @
        json_str (st_name (r_states r ! j)) @ '': '' @ json_str (st_val (r_states r ! j))) [0..<length (r_states r)]) @
      ''}, '' @ field ''incl'' @ llu (r_incl r) @ '', '' @ field ''self'' @ llu (r_self r) @ '', '' @
      field ''syscalls'' @ llu (r_sys r) @ '', '' @ field ''clock'' @ llu (clock_begin r) @ '', '' @
      field ''t_begin_us'' @ stamp_text E (r_t_begin_us r) @ '', '' @
      field ''t_end_us'' @ stamp_text E (r_t_end_us r) @
      (if r_implicit r then '', '' @ field ''implicit'' @ ''true'' else []) @ ''}'' @ [NL])"

text \<open>Over the threads, latest first, their chunks in order, and the records of each.\<close>

definition write_trace :: "exit_api \<Rightarrow> ('h, 'z) client_scheme \<Rightarrow> string" where
  "write_trace E c = concat (map (\<lambda>t. concat (map (\<lambda>ch. concat (map (trace_line E (keys c) (tid t)) ch)) (trace t)))
     (rev (threads c)))"

subsection \<open>\<open>event_exit\<close>\<close>

definition head_text :: "('h, 'p) dr_api \<Rightarrow> exit_api \<Rightarrow> ('h, 'p) xworld \<Rightarrow> string \<Rightarrow> string" where
  "head_text A E w tp = ''{'' @ [NL] @ ''  '' @ field ''drperf'' @ ''{'' @ field ''version'' @ quoted ''0.3'' @ '', '' @
     field ''pid'' @ show_int (pid E) @ '', '' @ field ''app'' @ json_str (app_name E) @ [CHR '','', NL] @
     ''    '' @ field ''rep_expand'' @ bool_text (opt_rep_expand w) @ '', '' @ field ''symbols'' @ bool_text (opt_symbols w) @ '', '' @
     field ''max_slots'' @ llu (opt_max_slots w) @ '', '' @ field ''slots_used'' @ llu (next_slot w) @ '', '' @
     field ''slots_overflow'' @ llu (slots_overflow w) @ '', '' @
     field ''counter_denied'' @ show_int (counter_denied w) @ [CHR '','', NL] @
     ''    '' @ field ''marker_seen'' @ bool_text (marker_seen w) @ '', '' @
     field ''unmatched_ends'' @ show_int (unmatched_ends w) @ '', '' @
     field ''depth_overflows'' @ show_int (depth_overflows w) @ '', '' @
     field ''state_overflows'' @ show_int (state_overflows w) @ '', '' @
     field ''threads'' @ show_int (int (nthreads_seen w)) @ [CHR '','', NL] @
     ''    '' @ field ''trace_file'' @ json_str (if 0 < opt_trace w then tp else []) @ '', '' @
     field ''trace_records'' @
       show_int (if 0 < opt_trace w then (if opt_trace w < trace_records w then opt_trace w else trace_records w) else 0) @ '', '' @
     field ''trace_dropped'' @ show_int (trace_dropped w) @ ''},'' @ [NL]"

definition modules_text :: "('h, 'p) xworld \<Rightarrow> string" where
  "modules_text w = ''  '' @ field ''modules'' @ ''['' @
     concat (map (\<lambda>i. (if i = 0 then [] else '','') @ [NL] @ ''    {'' @ field ''name'' @ json_str (m_name (modules w ! i)) @ '', '' @
       field ''path'' @ json_str (m_path (modules w ! i)) @ ''}'') [0..<length (modules w)])"

definition thread_total :: "'h thread \<Rightarrow> u64" where
  "thread_total t = (if alive t then total t else final_total t)"

definition threads_text :: "('h, 'p) xworld \<Rightarrow> string" where
  "threads_text w = (let ts = rev (threads w) in
     NL # ''  ],'' @ [NL] @ ''  '' @ field ''threads'' @ ''['' @
     concat (map (\<lambda>i. (if i = 0 then [] else '','') @ [NL] @ ''    {'' @ field ''tid'' @ show_int (tid (ts ! i)) @ '', '' @
       field ''instrs'' @ llu (thread_total (ts ! i)) @ '', '' @
       field ''open_regions'' @ show_int (int (depth (ts ! i))) @ ''}'') [0..<length ts]) @
     NL # ''  ],'' @ [NL] @ ''  '' @ field ''total_instrs'' @ llu (\<Sum>t\<leftarrow>ts. thread_total t) @ [CHR '','', NL] @
     ''  '' @ field ''regions'' @ ''['' @ [NL])"

text \<open>The table of blocks.\<close>

definition slot_address :: "('h, 'p) xworld \<Rightarrow> nat \<Rightarrow> addr" where
  "slot_address w s = (if slot_mod w s < 0 then slot_pc w s else slot_pc w s - m_start (modules w ! nat (slot_mod w s)))"

definition slots_line :: "('h, 'p) dr_api \<Rightarrow> sym_api \<Rightarrow> (nat \<Rightarrow> bool) \<Rightarrow> nat \<Rightarrow> string \<times> ('h, 'p) xworld
    \<Rightarrow> string \<times> ('h, 'p) xworld" where
  "slots_line A Y used s tw = (let (tx, w) = tw in
     if \<not> used s then (tx, w)
     else
       (let (si, w') = sym_index_for_slot A Y s w; sy = syms w' ! nat si in
        (tx @ show_nat s @ '' '' @ json_str (mod_label w' (s_mod sy)) @ '' '' @ llu (slot_address w' s) @ '' '' @
           json_str (s_name sy) @ [NL], w')))"

record files =
  main_file :: "string option"
  trace_file :: "string option"
  blocks_file :: "string option"
  slots_file :: "string option"

definition event_exit :: "('h, 'p) dr_api \<Rightarrow> sym_api \<Rightarrow> exit_api \<Rightarrow> ('h, 'p) xworld \<Rightarrow> files" where
  "event_exit A Y E w =
     (if \<not> opens E (opt_out w)
      then \<lparr>main_file = None, trace_file = None, blocks_file = None, slots_file = None\<rparr>
      else
        (let tp = sym_buf A 560 (opt_out w @ ''.trace'');
             bp = sym_buf A 560 (opt_out w @ ''.blocks'');
             sp = sym_buf A 560 (opt_out w @ ''.slots'');
             out0 = \<lparr>o_text = head_text A E w tp @ modules_text w @ threads_text w,
                     o_blocks = (if opt_blocks w \<and> opens E bp then Some [] else None),
                     o_used = (\<lambda>_. False), o_world = w\<rparr>;
             out = fold (write_key A Y) [0..<length (keys w)] out0
         in \<lparr>main_file = Some (o_text out @ NL # ''  ]'' @ [NL] @ ''}'' @ [NL]),
             trace_file = (if 0 < opt_trace w \<and> opens E tp then Some (write_trace E w) else None),
             blocks_file = o_blocks out,
             slots_file = (if opt_blocks w \<and> o_blocks out \<noteq> None \<and> opens E sp
               then Some (fst (fold (slots_line A Y (o_used out)) [0..<unat (next_slot w)] ([], o_world out))) else None)\<rparr>))"

end
