(* ===== verification/OutputSpec.thy ===== *)
theory OutputSpec
  imports Output
begin

text \<open>
  What the files say: the trace file has one line per trace record, which is the number the report
  gives; the report has one entry per key, whose counts are those of the counter arrays, split
  over modules and symbols without loss; and its total is the number of instructions executed.
\<close>

subsection \<open>Lines\<close>

definition lines_of :: "string \<Rightarrow> nat" where
  "lines_of s = length (filter (\<lambda>c. c = NL) s)"

lemma lines_simps [simp]:
  "lines_of [] = 0" "lines_of (c # s) = (if c = NL then 1 else 0) + lines_of s"
  "lines_of (s @ t) = lines_of s + lines_of t"
  by (simp_all add: lines_of_def)

lemma lines_concat: "lines_of (concat (map f xs)) = (\<Sum>x\<leftarrow>xs. lines_of (f x))"
  by (induction xs) simp_all

lemma lines_0I: "NL \<notin> set s \<Longrightarrow> lines_of s = 0"
  by (simp add: lines_of_def filter_empty_conv) metis

lemma lines_json_str [simp]: "lines_of (json_str s) = 0"
  using json_str_printable [of NL s] by (intro lines_0I) (auto simp: NL_def)

lemma lines_show_nat [simp]: "lines_of (show_nat n) = 0"
proof (rule lines_0I)
  show "NL \<notin> set (show_nat n)"
  proof
    assume "NL \<in> set (show_nat n)"
    then obtain d where d: "d < 10" "NL = digit d" using set_show_nat by blast
    have "of_char NL < (48 :: nat)" by (simp add: NL_def)
    from digit_neq [OF d(1) disjI1 [OF this]] d(2) show False by simp
  qed
qed

lemma lines_show_int [simp]: "lines_of (show_int v) = 0"
  by (rule lines_0I) (simp add: not_in_show_int NL_def)

lemma lines_numbers [simp]: "lines_of (llu x) = 0" "lines_of (lld x) = 0"
  by (simp_all add: llu_def lld_def)

lemma quote_not_NL [simp]: "QUOTE \<noteq> NL" "NL \<noteq> QUOTE"
  unfolding QUOTE_def NL_def by simp_all

lemma lines_field [simp]: "lines_of (field s) = lines_of s"
  by (simp add: field_def quoted_def NL_def QUOTE_def)

lemma lines_states_json [simp]: "lines_of (states_json k) = 0"
  by (simp add: states_json_def lines_concat state_json_def NL_def)

lemma lines_trace_line:
  assumes "\<And>x. NL \<notin> set (stamp_text E x)"
  shows "lines_of (trace_line E ks n r) = 1"
proof -
  have [simp]: "lines_of (stamp_text E x) = 0" for x by (rule lines_0I) (rule assms)
  have [simp]: "lines_of (concat (map f xs)) = 0" if "\<And>x. lines_of (f x) = 0" for f :: "nat \<Rightarrow> string" and xs
    by (simp add: lines_concat that)
  show ?thesis by (simp add: trace_line_def Let_def NL_def)
qed

lemma lines_write_trace:
  assumes "\<And>x. NL \<notin> set (stamp_text E x)"
  shows "lines_of (write_trace E c) = trace_len c"
  unfolding write_trace_def lines_concat
  by (simp add: trace_len_def flat_def lines_trace_line [OF assms] rev_map [symmetric] sum_list_rev length_concat sum_list_triv)

subsection \<open>The total\<close>

definition total_of :: "('h, 'z) client_scheme \<Rightarrow> u64" where
  "total_of c = (\<Sum>t\<leftarrow>threads c. thread_total t)"

lemma total_of_threads: "map thread_total (threads c') = map thread_total (threads c) \<Longrightarrow> total_of c' = total_of c"
  by (simp add: total_of_def)

lemma total_inert:
  assumes "inert c' = inert c"
  shows "total_of c' = total_of c"
proof -
  have "map thread_total ts = map thread_total (map rest ts)" for ts :: "'a thread list"
    by (simp add: thread_total_def rest_def)
  then show ?thesis using inertD(5) [OF assms] by (intro total_of_threads) metis
qed

lemma total_upd_thr: "(\<And>t. thread_total (f t) = thread_total t) \<Longrightarrow> total_of (upd_thr i f c) = total_of c"
  by (rule total_of_threads) (simp add: upd_thr_def map_upd_nth_same)

lemma total_marks [simp]:
  "total_of (c\<lparr>seq_counter := n\<rparr>) = total_of c" "total_of (c\<lparr>unmatched_ends := n\<rparr>) = total_of c"
  "total_of (c\<lparr>state_overflows := n\<rparr>) = total_of c" "total_of (c\<lparr>trace_records := n, trace_dropped := m\<rparr>) = total_of c"
  "total_of (c\<lparr>marker_seen := b, depth_overflows := n\<rparr>) = total_of c"
  by (simp_all add: total_of_def)

lemma total_close_frame: "close_frame A i tot se te b c = Some c' \<Longrightarrow> total_of c' = total_of c"
  by (drule close_frame_eq) (auto simp: total_upd_thr thread_total_def)

lemma total_close_above: "close_above A i tot se te d c = Some c' \<Longrightarrow> total_of c' = total_of c"
proof (induction A i tot se te d c rule: close_above.induct)
  case (1 A i tot se te d c)
  then show ?case
    by (auto simp: close_above.simps [of A i tot se te d c] dest!: total_close_frame split: Option.bind_splits if_splits)
qed

lemma total_pre_end:
  assumes res: "pre_end A i reg now c = Some c'" and i: "i < length (threads c)"
  shows "total_of c' = total_of c"
proof (cases "find_frame (keys c) (stack (thr c i)) (region_name reg) (depth (thr c i))")
  case None
  then show ?thesis using res by (auto simp: pre_end_def Let_def)
next
  case (Some j)
  obtain c0 c2 c3 se te where c0: "c0 = c\<lparr>seq_counter := seq_counter c0\<rparr>"
    and c2: "close_above A i (total (thr c i)) se te (j + 1) c0 = Some c2"
    and c3: "close_frame A i (total (thr c i)) se te False c2 = Some c3"
    and c': "c' = (let c4 = reinstall A i c3 in if leader c4 = Some i then update_shared A (Some i) c4 else c4)"
    by (rule pre_end_eq [OF res i Some])
  have "total_of c' = total_of c3" by (rule total_inert) (simp add: c' Let_def)
  also have "\<dots> = total_of c0" using total_close_above [OF c2] total_close_frame [OF c3] by simp
  also have "\<dots> = total_of c" by (subst c0) simp
  finally show ?thesis .
qed

lemma total_thread_exit:
  assumes al: "alive (thr c i)" and i: "i < length (threads c)" and res: "event_thread_exit A i now c = Some c'"
  shows "total_of c' = total_of c"
proof -
  let ?c0 = "c\<lparr>seq_counter := seq_counter c + 1\<rparr>"
  obtain c1 where c1: "close_above A i (total (thr c i)) (seq_counter c + 1) now 0 ?c0 = Some c1"
    and c': "c' = (let c2 = upd_thr i (\<lambda>t. t\<lparr>final_total := total (thr c i), alive := False\<rparr>) c1
      in if leader c2 = Some i then update_shared A None c2 else c2)"
    using res by (auto simp: event_thread_exit_def Let_def split: Option.bind_splits)
  have i0: "i < length (threads ?c0)" using i by simp
  note S = close_above_step [OF c1 i0]
  have a: "alive (thr c1 i)" "total (thr c1 i) = total (thr c i)" using S al by (simp_all add: ctl_def)
  have i1: "i < length (threads c1)" using S i by (simp add: own_step_def)
  have "total_of c' = total_of (upd_thr i (\<lambda>t. t\<lparr>final_total := total (thr c i), alive := False\<rparr>) c1)"
    by (rule total_inert) (simp add: c' Let_def)
  also have "\<dots> = total_of c1"
    by (rule total_of_threads)
      (use a i1 in \<open>simp add: upd_thr_def upd_nth_def map_update list_update_same_conv thread_total_def\<close>)
  finally show ?thesis using total_close_above [OF c1] by simp
qed

lemma total_thread_init:
  assumes "event_thread_init A tno c = Some c'"
  shows "total_of c' = total_of c"
proof -
  define c1 where "c1 = c\<lparr>threads := threads c @ [new_thread A tno (nthreads_seen c)], nthreads_seen := nthreads_seen c + 1\<rparr>"
  obtain a c2 where s: "slots_for A (shared_key c1) (index (thr c1 (length (threads c)))) c1 = (a, c2)"
    by (cases "slots_for A (shared_key c1) (index (thr c1 (length (threads c)))) c1")
  have "c' = set_thread_cur (length (threads c)) a c2"
    using assms s by (simp add: event_thread_init_def Let_def c1_def split: if_splits)
  then have "inert c' = inert c1" by (simp add: inert_slots_for_eq [OF s])
  then have "total_of c' = total_of c1" by (rule total_inert)
  also have "\<dots> = total_of c" by (simp add: total_of_def c1_def new_thread_def thread_total_def)
  finally show ?thesis .
qed

lemma total_begin_common:
  assumes res: "begin_common A i reg sts now c = Some c'" and i: "i < length (threads c)"
  shows "total_of c' = total_of c"
  using res i
proof (cases rule: begin_common_inert)
  case (opened k t' c1 f sq)
  have t: "thread_total t' = thread_total (thr c i)"
    using opened(3) by (cases t', cases "thr c i") (simp add: same_caches_def thread_total_def)
  have T: "thread_total (t'\<lparr>stack := st\<rparr>) = thread_total t'" for st by (simp add: thread_total_def)
  have c1: "threads c1 = threads c" using same_keyst_client(1) [OF opened(2)] by simp
  have "total_of c' = total_of (upd_thr i (\<lambda>_. t'\<lparr>stack := stack t' @ [f]\<rparr>) (c1\<lparr>seq_counter := sq\<rparr>))"
    by (rule total_inert [OF opened(4)])
  also have "\<dots> = total_of c"
    by (rule total_of_threads)
      (use i t T in \<open>simp add: upd_thr_def upd_nth_def map_update c1 list_update_same_conv\<close>)
  finally show ?thesis .
qed simp

lemma step_total:
  assumes inv: "world_inv A w" and res: "step A w e = Some w'"
  shows "total_of w' = total_of w + executed [e]"
proof -
  have en: "enabled w e" and h: "handle A w e = Some w'" using res by (auto simp: step_def split: if_splits)
  show ?thesis
  proof (cases "begins e")
    case True
    then obtain i reg sts now c where b: "begin_common A i reg sts now c = Some w'" "actor e = Some i"
      "c = w \<or> c = w\<lparr>state_overflows := state_overflows w + 1\<rparr>"
      using h by (metis begins_common)
    have "i < length (threads c)" "total_of c = total_of w" using b(2,3) en by (auto simp: enabled_def)
    then show ?thesis using total_begin_common [OF b(1)] True by (cases e) simp_all
  next
    case False
    show ?thesis
    proof (cases e)
      case (Thread_init tno)
      with h total_thread_init show ?thesis by simp
    next
      case (Thread_exit i now)
      with h en total_thread_exit [of w i A now w'] show ?thesis by (simp add: enabled_def)
    next
      case (End i r now)
      with h en total_pre_end [of A i r now w w'] show ?thesis by (simp add: enabled_def)
    next
      case (State i nm v)
      have "total_of (pre_state i nm v w) = total_of w"
        by (auto simp: pre_state_def Let_def thread_total_def intro: total_upd_thr)
      with State h show ?thesis by auto
    next
      case (Syscall i)
      have "total_of (event_pre_syscall i w) = total_of w"
        unfolding event_pre_syscall_def by (rule total_upd_thr) (simp add: thread_total_def)
      with Syscall h show ?thesis by auto
    next
      case (Load d)
      have "total_of (event_module_load A d w) = total_of w" by (simp add: total_of_def event_module_load_def Let_def)
      with Load h show ?thesis by auto
    next
      case (Build i x pc n mo)
      have "total_of (event_app2app x i w) = total_of w"
        unfolding event_app2app_def by (rule total_upd_thr) (simp add: thread_total_def)
      moreover have "total_of (build_block A i x pc n mo w) = total_of (event_app2app x i w)"
        by (cases rule: event_analysis_cases [of A "event_app2app x i w" pc i n mo])
          (simp_all add: build_block_def assign_slot_def total_of_def)
      ultimately show ?thesis using Build h by auto
    next
      case (Exec i p)
      have i: "i < length (threads w)" "alive (thr w i)" "p \<in> code w" using en Exec by (simp_all add: enabled_def)
      have "total_of (counted i s n w) = total_of w + n" for s n
      proof -
        have "total_of (counted i s n w) = total_of (upd_thr i (\<lambda>t. t\<lparr>total := total t + n\<rparr>) w)"
          by (simp add: counted_def Let_def total_of_def)
        also have "\<dots> = total_of w + n"
          using i by (simp add: total_of_def upd_thr_def upd_nth_def map_update thread_total_def sum_list_update_group)
        finally show ?thesis .
      qed
      then show ?thesis using Exec h exec_block_spec [OF inv i(3,1)] by (auto split: if_splits)
    qed (use False in simp_all)
  qed
qed

lemma run_total:
  assumes "world_inv A w" "list_all event_ok es" "run (step A) w es = Some w'"
  shows "total_of w' = total_of w + executed es"
  using assms
proof (induction es arbitrary: w)
  case (Cons e es)
  then obtain w1 where w1: "step A w e = Some w1" "run (step A) w1 es = Some w'" by (auto split: Option.bind_splits)
  have "world_inv A w1" using step_inv [OF Cons.prems(1) _ w1(1)] Cons.prems(2) by simp
  then show ?case
    using Cons.IH [OF _ _ w1(2)] Cons.prems(2) step_total [OF Cons.prems(1) w1(1)] executed_Cons [of e es]
    by (simp add: algebra_simps)
qed simp

subsection \<open>The entries\<close>

text \<open>The sums \<open>T\<close> of a key are right: they are the counts of the key's arrays, and the parts by module
  and by symbol add up to the whole.\<close>

definition sums_right :: "('h, 'p) xworld \<Rightarrow> nat \<Rightarrow> totals \<Rightarrow> ('h, 'p) xworld \<Rightarrow> bool" where
  "sums_right w0 i T w \<longleftrightarrow> slot_total T = (\<Sum>s<unat (next_slot w0). key_count w0 i s) \<and>
     (\<Sum>m<Suc (length (modules w)). mod_sum T m) = slot_total T \<and>
     (\<Sum>y<length (syms w). sym_sum T y) = slot_total T"

lemma add_up_right:
  assumes laws: "ht_laws A" and mods: "mods_ok w" and syms: "syms_inv A (unat (next_slot w)) w"
    and res: "add_up A Y i w = (T, w')"
  shows "loop_inv A w w' \<and> sums_right w i T w'"
proof -
  note S = add_up_spec [OF laws mods syms res] and Z = add_up_zero [OF laws mods syms res]
  have "(\<Sum>y<length (syms w'). sym_sum T y) = (\<Sum>y<unat (next_slot w). sym_sum T y)"
    by (rule sum.mono_neutral_left) (use Z in \<open>auto simp: sym_zero_def\<close>)
  moreover have "modules w' = modules w" using S(1) by (simp add: loop_inv_def sym_same_def)
  ultimately show ?thesis unfolding sums_right_def using S(1-4) by metis
qed

lemma loop_inv_trans:
  assumes "loop_inv A w0 w" and "loop_inv A w w'" and "next_slot w = next_slot w0"
  shows "loop_inv A w0 w'"
  using assms by (simp add: loop_inv_def sym_same_def)

lemma sums_right_same:
  assumes "sym_same w0 w"
  shows "sums_right w i T w' = sums_right w0 i T w'"
proof -
  have "key_count w i s = key_count w0 i s" for s
    using same_mem_counts(1) assms by (simp add: sym_same_def mem.defs key_count_def cong: option.case_cong)
  then show ?thesis using assms by (simp add: sums_right_def sym_same_def)
qed

text \<open>The loop over the keys.\<close>

lemma write_keys:
  assumes laws: "ht_laws A" and mods: "mods_ok w0"
    and "loop_inv A w0 (o_world out)" and "fold (write_key A Y) is out = out'" and "distinct is"
  shows "\<exists>R. o_text out' = o_text out @ concat (map (\<lambda>i. case R i of (T, w) \<Rightarrow> key_entry i T w) is) \<and>
    loop_inv A w0 (o_world out') \<and>
    (\<forall>i\<in>set is. case R i of (T, w) \<Rightarrow> loop_inv A w0 w \<and> sums_right w0 i T w)"
  using assms(3-)
proof (induction "is" arbitrary: out)
  case Nil
  then show ?case by auto
next
  case (Cons i "is")
  let ?w = "o_world out"
  obtain T w1 where a: "add_up A Y i ?w = (T, w1)" by (cases "add_up A Y i ?w")
  define out1 where "out1 = write_key A Y i out"
  have o1: "o_text out1 = o_text out @ key_entry i T w1" "o_world out1 = w1"
    by (simp_all add: out1_def write_key_def Let_def a)
  have same: "sym_same w0 ?w" and s: "syms_inv A (unat (next_slot ?w)) ?w" and n: "next_slot ?w = next_slot w0"
    using Cons.prems(1) by (simp_all add: loop_inv_def sym_same_def)
  have "mods_ok ?w" using mods same by (simp add: mods_ok_def sym_same_def)
  note R = add_up_right [OF laws this s a]
  have l1: "loop_inv A w0 w1" using loop_inv_trans [OF Cons.prems(1) _ n] R by blast
  then have "loop_inv A w0 (o_world out1)" by (simp add: o1)
  moreover have "fold (write_key A Y) is out1 = out'" using Cons.prems(2) by (simp add: out1_def)
  ultimately obtain R' where R': "o_text out' = o_text out1 @ concat (map (\<lambda>i. case R' i of (T, w) \<Rightarrow> key_entry i T w) is)"
    "loop_inv A w0 (o_world out')" "\<forall>i\<in>set is. case R' i of (T, w) \<Rightarrow> loop_inv A w0 w \<and> sums_right w0 i T w"
    using Cons.IH [of out1] Cons.prems(3) by auto
  have i: "i \<notin> set is" using Cons.prems(3) by simp
  define R2 where "R2 = R'(i := (T, w1))"
  have e: "R2 i = (T, w1)" by (simp add: R2_def)
  have M: "map (\<lambda>j. case R2 j of (T, w) \<Rightarrow> key_entry j T w) is = map (\<lambda>j. case R' j of (T, w) \<Rightarrow> key_entry j T w) is"
    using i by (intro map_cong) (auto simp: R2_def)
  have "o_text out' = o_text out @ concat (map (\<lambda>j. case R2 j of (T, w) \<Rightarrow> key_entry j T w) (i # is))"
    using R'(1) by (simp only: o1 M e list.map concat.simps prod.case append_assoc)
  moreover have "\<forall>j\<in>set (i # is). case R2 j of (T, w) \<Rightarrow> loop_inv A w0 w \<and> sums_right w0 j T w"
    using R'(3) l1 R i sums_right_same [OF same] by (auto simp: R2_def)
  ultimately show ?case using R'(2) by blast
qed

text \<open>The report of the whole run.\<close>

lemma event_exit_main:
  fixes A :: "('h, 'p) dr_api" and w :: "('h, 'p) world"
  assumes laws: "ht_laws A" and M: "mods_inv A w" and op: "opens E (opt_out w)"
  obtains R :: "nat \<Rightarrow> totals \<times> ('h, 'p) xworld" where
    "main_file (event_exit A Y E (at_exit A w)) = Some
       (head_text A E (at_exit A w) (sym_buf A 560 (opt_out w @ ''.trace'')) @ modules_text (at_exit A w) @
        threads_text (at_exit A w) @ concat (map (\<lambda>i. case R i of (T, v) \<Rightarrow> key_entry i T v) [0..<length (keys w)]) @
        NL # ''  ]'' @ [NL] @ ''}'' @ [NL])"
    "\<And>i. i < length (keys w) \<Longrightarrow> case R i of (T, v) \<Rightarrow>
       slot_total T = (\<Sum>s<unat (next_slot w). key_count w i s) \<and>
       (\<Sum>m<Suc (length (modules w)). mod_sum T m) = slot_total T \<and>
       (\<Sum>y<length (syms v). sym_sum T y) = slot_total T"
proof -
  let ?x = "at_exit A w"
  have o: "opt_out ?x = opt_out w" by (simp add: at_exit_def world.defs)
  define out0 :: "('h, 'p) outs" where
    "out0 = \<lparr>o_text = head_text A E ?x (sym_buf A 560 (opt_out w @ ''.trace'')) @ modules_text ?x @ threads_text ?x,
       o_blocks = (if opt_blocks ?x \<and> opens E (sym_buf A 560 (opt_out w @ ''.blocks'')) then Some [] else None),
       o_used = (\<lambda>_. False), o_world = ?x\<rparr>"
  define out where "out = fold (write_key A Y) [0..<length (keys w)] out0"
  note I = at_exit_inv [OF M laws]
  have l0: "loop_inv A ?x (o_world out0)" using I by (simp add: out0_def loop_inv_def)
  obtain R where R: "o_text out = o_text out0 @ concat (map (\<lambda>i. case R i of (T, w) \<Rightarrow> key_entry i T w) [0..<length (keys w)])"
    "\<forall>i\<in>set [0..<length (keys w)]. case R i of (T, v) \<Rightarrow> loop_inv A ?x v \<and> sums_right ?x i T v"
    using write_keys [OF laws I(1) l0, of Y "[0..<length (keys w)]" out] by (auto simp: out_def)
  have m: "main_file (event_exit A Y E ?x) = Some (o_text out @ NL # ''  ]'' @ [NL] @ ''}'' @ [NL])"
    using op unfolding event_exit_def Let_def o at_exit_simps out_def out0_def by (simp del: append.simps)
  show ?thesis
  proof (rule that [of R])
    show "main_file (event_exit A Y E ?x) = Some
       (head_text A E ?x (sym_buf A 560 (opt_out w @ ''.trace'')) @ modules_text ?x @
        threads_text ?x @ concat (map (\<lambda>i. case R i of (T, v) \<Rightarrow> key_entry i T v) [0..<length (keys w)]) @
        NL # ''  ]'' @ [NL] @ ''}'' @ [NL])"
      unfolding m R(1) by (simp only: out0_def outs.simps append_assoc)
    show "case R i of (T, v) \<Rightarrow> slot_total T = (\<Sum>s<unat (next_slot w). key_count w i s) \<and>
       (\<Sum>m<Suc (length (modules w)). mod_sum T m) = slot_total T \<and>
       (\<Sum>y<length (syms v). sym_sum T y) = slot_total T" if "i < length (keys w)" for i
    proof -
      obtain T v where e: "R i = (T, v)" by (cases "R i")
      moreover have "i \<in> set [0..<length (keys w)]" using that by simp
      ultimately have "loop_inv A ?x v" "sums_right ?x i T v" using bspec [OF R(2), of i] by simp_all
      moreover from this(1) have "modules v = modules w" by (simp add: loop_inv_def sym_same_def)
      ultimately show ?thesis unfolding sums_right_def e by simp
    qed
  qed
qed

end
