(* ===== verification/BlocksFile.thy ===== *)
theory BlocksFile
  imports Output
begin

text \<open>
  The \<open>.blocks\<close> file as its readers take it: a reader for one record, and that it gives back the
  key, the number of its instances and the count of every block that \<open>write_key\<close> put into it.
\<close>

definition is_digit :: "char \<Rightarrow> bool" where
  "is_digit c \<longleftrightarrow> 48 \<le> (of_char c :: nat) \<and> (of_char c :: nat) \<le> 57"

definition take_num :: "string \<Rightarrow> int \<times> string" where
  "take_num s = (case s of
     [] \<Rightarrow> (0, [])
   | c # r \<Rightarrow> if c = CHR ''-'' then (- int (read_nat (takeWhile is_digit r)), dropWhile is_digit r)
              else (int (read_nat (takeWhile is_digit s)), dropWhile is_digit s))"

fun skip :: "char \<Rightarrow> string \<Rightarrow> string option" where
  "skip c [] = None"
| "skip c (d # s) = (if c = d then Some s else None)"

text \<open>\<open>n\<close> pairs of a name and a value.\<close>

fun read_pairs :: "nat \<Rightarrow> string \<Rightarrow> ((string \<times> int) list \<times> string) option" where
  "read_pairs 0 s = Some ([], s)"
| "read_pairs (Suc n) s = do {
     s \<leftarrow> skip (CHR '' '') s;
     (nm, s) \<leftarrow> read_json_str s;
     s \<leftarrow> skip (CHR '' '') s;
     let (v, s) = take_num s;
     (ps, s) \<leftarrow> read_pairs n s;
     Some ((nm, v) # ps, s)
   }"

text \<open>The lines of the slots, as long as there are digits; the first argument bounds their number.\<close>

fun read_slot_lines :: "nat \<Rightarrow> string \<Rightarrow> ((int \<times> int) list \<times> string) option" where
  "read_slot_lines 0 s = Some ([], s)"
| "read_slot_lines (Suc n) s =
     (if s = [] \<or> \<not> is_digit (hd s) then Some ([], s)
      else do {
        let (slot, s) = take_num s;
        s \<leftarrow> skip (CHR '' '') s;
        let (v, s) = take_num s;
        s \<leftarrow> skip NL s;
        (ls, s) \<leftarrow> read_slot_lines n s;
        Some ((slot, v) # ls, s)
      })"

record block_rec =
  b_index :: int
  b_region :: string
  b_nk :: int
  b_states :: "(string \<times> int) list"
  b_root :: string
  b_count :: int
  b_slots :: "(int \<times> int) list"

definition read_record :: "string \<Rightarrow> (block_rec \<times> string) option" where
  "read_record s = do {
     s \<leftarrow> skip (CHR ''K'') s;
     s \<leftarrow> skip (CHR '' '') s;
     let (idx, s) = take_num s;
     s \<leftarrow> skip (CHR '' '') s;
     (r, s) \<leftarrow> read_json_str s;
     s \<leftarrow> skip (CHR '' '') s;
     let (nk, s) = take_num s;
     (sts, s) \<leftarrow> read_pairs (nat nk) s;
     s \<leftarrow> skip (CHR '' '') s;
     (rt, s) \<leftarrow> read_json_str s;
     s \<leftarrow> skip (CHR '' '') s;
     let (n, s) = take_num s;
     s \<leftarrow> skip NL s;
     (ls, s) \<leftarrow> read_slot_lines (length s) s;
     Some (\<lparr>b_index = idx, b_region = r, b_nk = nk, b_states = sts, b_root = rt, b_count = n, b_slots = ls\<rparr>, s)
   }"

subsection \<open>Numbers\<close>

lemma is_digit_digit: "d < 10 \<Longrightarrow> is_digit (digit d)"
  by (simp add: is_digit_def of_char_digit)

lemma show_nat_digits: "c \<in> set (show_nat n) \<Longrightarrow> is_digit c"
  using set_show_nat is_digit_digit by blast

definition stops :: "string \<Rightarrow> bool" where
  "stops r \<longleftrightarrow> r = [] \<or> \<not> is_digit (hd r)"

lemma stops_simps [simp]: "stops []" "stops (CHR '' '' # r)" "stops (NL # r)" "stops (CHR ''K'' # r)"
  by (simp_all add: stops_def is_digit_def NL_def)

lemma take_digits:
  assumes "stops r"
  shows "takeWhile is_digit (show_nat n @ r) = show_nat n" "dropWhile is_digit (show_nat n @ r) = r"
proof -
  have t: "takeWhile is_digit r = []" "dropWhile is_digit r = r" using assms by (cases r; simp add: stops_def)+
  show "takeWhile is_digit (show_nat n @ r) = show_nat n" "dropWhile is_digit (show_nat n @ r) = r"
    using show_nat_digits by (simp_all add: takeWhile_append2 dropWhile_append2 t)
qed

lemma take_num_nat:
  assumes "stops r"
  shows "take_num (show_nat n @ r) = (int n, r)"
proof -
  obtain c cs where c: "show_nat n = c # cs" by (cases "show_nat n") auto
  note D = take_digits [OF assms, of n]
  have "c \<noteq> CHR ''-''" using c by (rule hd_show_nat)
  then show ?thesis using D c read_show_nat [of n] by (simp add: take_num_def)
qed

lemma take_num_int:
  assumes "stops r"
  shows "take_num (show_int v @ r) = (v, r)"
proof (cases "v < 0")
  case True
  then show ?thesis using take_digits [OF assms] by (simp add: show_int_def take_num_def read_show_nat)
next
  case False
  then show ?thesis using take_num_nat [OF assms] by (simp add: show_int_def)
qed

lemma take_num_texts:
  "stops r \<Longrightarrow> take_num (lld v @ r) = (sint v, r)" "stops r \<Longrightarrow> take_num (llu x @ r) = (int (unat x), r)"
  by (simp_all add: lld_def llu_def take_num_int take_num_nat)

subsection \<open>A record\<close>

lemma read_pairs_map:
  assumes "\<And>i. i \<in> set is \<Longrightarrow> nul_free (kname k ! i)" and "stops r"
  shows "read_pairs (length is) (concat (map (\<lambda>i. '' '' @ json_str (kname k ! i) @ '' '' @ lld (kval k ! i)) is) @ r) =
    Some (map (\<lambda>i. (kname k ! i, sint (kval k ! i))) is, r)"
  using assms
proof (induction "is")
  case (Cons i "is")
  let ?rest = "concat (map (\<lambda>i. '' '' @ json_str (kname k ! i) @ '' '' @ lld (kval k ! i)) is) @ r"
  have "stops ?rest" using Cons.prems(2) by (cases "is") simp_all
  moreover have "nul_free (kname k ! i)" using Cons.prems(1) by simp
  moreover have "read_pairs (length is) ?rest = Some (map (\<lambda>i. (kname k ! i, sint (kval k ! i))) is, r)"
    using Cons by simp
  ultimately show ?case by (simp add: read_json_str_json_str take_num_texts)
qed simp

lemma read_slots:
  assumes "stops r" and "length (filter (\<lambda>s. vec T s \<noteq> 0) slots) \<le> m"
  shows "read_slot_lines m (concat (map (blocks_line T) slots) @ r) =
    Some (map (\<lambda>s. (int s, int (unat (vec T s)))) (filter (\<lambda>s. vec T s \<noteq> 0) slots), r)"
  using assms(2)
proof (induction slots arbitrary: m)
  case Nil
  then show ?case using assms(1) by (cases m) (auto simp: stops_def)
next
  case (Cons s slots)
  show ?case
  proof (cases "vec T s = 0")
    case True
    then show ?thesis using Cons.IH [of m] Cons.prems by (simp add: blocks_line_def)
  next
    case False
    obtain m' where m: "m = Suc m'" using Cons.prems False by (cases m) auto
    have bl: "blocks_line T s = show_nat s @ '' '' @ llu (vec T s) @ [NL]" using False by (simp add: blocks_line_def)
    let ?rest = "concat (map (blocks_line T) slots) @ r"
    have ih: "read_slot_lines m' ?rest = Some (map (\<lambda>s. (int s, int (unat (vec T s)))) (filter (\<lambda>s. vec T s \<noteq> 0) slots), r)"
      using Cons.IH [of m'] Cons.prems m False by simp
    have ne: "show_nat s \<noteq> []" by simp
    then have "is_digit (hd (show_nat s))" using show_nat_digits list.set_sel(1) by blast
    then have "\<not> (let x = blocks_line T s @ ?rest in x = [] \<or> \<not> is_digit (hd x))"
      using ne by (simp add: bl)
    then show ?thesis
      using ih False by (simp add: m bl take_num_nat take_num_texts)
  qed
qed

lemma length_blocks_lines:
  "length (filter (\<lambda>s. vec T s \<noteq> 0) slots) \<le> length (concat (map (blocks_line T) slots))"
  by (induction slots) (auto simp: blocks_line_def)

text \<open>The keys a record is written for.\<close>

definition rkey_ok :: "rkey \<Rightarrow> bool" where
  "rkey_ok k \<longleftrightarrow> nul_free (region k) \<and> nul_free (root k) \<and> nkstates k \<le> length (kname k) \<and>
     list_all nul_free (kname k) \<and> (overflow k \<longrightarrow> nkstates k = 0)"

lemma make_key_ok: "length sts \<le> KEY_STATES \<Longrightarrow> ov = False \<or> sts = [] \<Longrightarrow> rkey_ok (make_key r sts ov par rt idx)"
  by (auto simp: rkey_ok_def make_key_def want_states_def list_all_iff)

lemma read_blocks_record:
  assumes k: "rkey_ok k" and r: "stops r"
  shows "read_record (blocks_record k st T n @ r) = Some
    (\<lparr>b_index = int (k_index k), b_region = region k, b_nk = (if overflow k then -1 else int (nkstates k)),
      b_states = map (\<lambda>i. (kname k ! i, sint (kval k ! i))) [0..<nkstates k], b_root = root k,
      b_count = int (unat (kstats.count st)),
      b_slots = map (\<lambda>s. (int s, int (unat (vec T s)))) (filter (\<lambda>s. vec T s \<noteq> 0) [0..<n])\<rparr>, r)"
proof -
  have nk: "nat (if overflow k then -1 else int (nkstates k)) = length [0..<nkstates k]"
    using k by (auto simp: rkey_ok_def)
  have nf: "nul_free (kname k ! i)" if "i \<in> set [0..<nkstates k]" for i
    using k that by (auto simp: rkey_ok_def list_all_iff)
  have rg: "nul_free (region k)" "nul_free (root k)" using k by (simp_all add: rkey_ok_def)
  let ?lines = "concat (map (blocks_line T) [0..<n]) @ r"
  let ?pairs = "concat (map (\<lambda>i. '' '' @ json_str (kname k ! i) @ '' '' @ lld (kval k ! i)) [0..<nkstates k])"
  let ?r1 = "'' '' @ json_str (root k) @ '' '' @ llu (kstats.count st) @ [NL] @ ?lines"
  have lines: "read_slot_lines (length ?lines) ?lines =
      Some (map (\<lambda>s. (int s, int (unat (vec T s)))) (filter (\<lambda>s. vec T s \<noteq> 0) [0..<n]), r)"
    by (rule read_slots [OF r le_trans [OF length_blocks_lines]]) simp
  have P: "read_pairs (nat (if overflow k then -1 else int (nkstates k))) (?pairs @ ?r1) =
      Some (map (\<lambda>i. (kname k ! i, sint (kval k ! i))) [0..<nkstates k], ?r1)"
    unfolding nk by (rule read_pairs_map [OF nf]) simp_all
  have S: "stops (?pairs @ ?r1)" by (cases "[0..<nkstates k]") simp_all
  show ?thesis
    unfolding read_record_def blocks_record_def blocks_head_def
    using P [simplified] S [simplified] lines [simplified]
    by (simp add: read_json_str_json_str rg take_num_texts take_num_int)
qed

subsection \<open>All keys of a run are of this kind\<close>

definition keys_ok :: "('h, 'z) keyst_scheme \<Rightarrow> bool" where
  "keys_ok s \<longleftrightarrow> list_all rkey_ok (keys s)"

lemma get_key_ok:
  assumes "get_key A r sts par rt t s = Some (i, t', s')" and "keys_ok s" and "length sts \<le> KEY_STATES"
  shows "keys_ok s'"
  using assms
  by (auto simp: get_key_def get_key_slow_def intern_key_def Let_def keys_ok_def make_key_ok
      dest!: add_key_keys split: option.splits prod.splits if_splits)

lemma step_keys:
  assumes inv: "world_inv A w" and P: "P (keys w)" and res: "step A w e = Some w'"
    and get: "\<And>r sts par rt t c i t' c'. get_key A r sts par rt (t :: 'h thread) (c :: ('h, 'p) world) = Some (i, t', c') \<Longrightarrow>
      P (keys c) \<Longrightarrow> length sts \<le> KEY_STATES \<Longrightarrow> P (keys c')"
  shows "P (keys (w' :: ('h, 'p) world))"
proof -
  have en: "enabled w e" and h: "handle A w e = Some w'" using res by (auto simp: step_def split: if_splits)
  show ?thesis
  proof (cases "begins e")
    case True
    then obtain i reg sts now c where b: "begin_common A i reg sts now c = Some w'" "actor e = Some i"
      "c = w \<or> c = w\<lparr>state_overflows := state_overflows w + 1\<rparr>" and len: "length sts \<le> KEY_STATES"
      using h by (metis begins_common)
    have i: "i < length (threads c)" and k: "keys c = keys w" using b(2,3) en by (auto simp: enabled_def)
    from b(1) i show ?thesis
    proof (cases rule: begin_common_inert)
      case overflow
      then show ?thesis using P k by simp
    next
      case (opened k' t' c1 f sq)
      have "P (keys c1)" by (rule get [OF opened(1) _ len]) (use P k in simp)
      then show ?thesis using inertD(1) [OF opened(4)] by simp
    qed
  next
    case False
    from handle_interned [OF inv en h False] P show ?thesis by (auto simp: interned_def)
  qed
qed

text \<open>What every call of \<open>get_key\<close> keeps of the list of keys holds in every run.\<close>

lemma ran_keys:
  assumes "ran A oc main es w" and "P []"
    and "\<And>r sts par rt t c i t' c'. get_key A r sts par rt (t :: 'h thread) (c :: ('h, 'p) world) = Some (i, t', c') \<Longrightarrow>
      P (keys c) \<Longrightarrow> length sts \<le> KEY_STATES \<Longrightarrow> P (keys c')"
  shows "P (keys (w :: ('h, 'p) world))"
proof (rule ran_induct [OF assms(1), where Q = "\<lambda>_. True"])
  show "P (keys (init_world A oc main))" using assms(2) by (simp add: init_world_def)
qed (auto simp: list_all_iff intro: step_keys [where P = P] assms(3))

lemma ran_keys_ok:
  assumes "ran A oc main es w"
  shows "keys_ok w"
  unfolding keys_ok_def
  by (rule ran_keys [OF assms, where P = "list_all rkey_ok"]) (use get_key_ok in \<open>auto simp: keys_ok_def\<close>)

text \<open>Keys carry their place in the list.\<close>

lemma ran_numbered:
  assumes "ran A oc main es w" and "i < length (keys w)"
  shows "k_index (keys w ! i) = i"
proof -
  have "\<forall>i<length (keys w). k_index (keys w ! i) = i"
  proof (rule ran_keys [OF assms(1), where P = "\<lambda>ks. \<forall>i<length ks. k_index (ks ! i) = i"])
    fix r sts par rt t c i t' c'
    assume "get_key A r sts par rt (t :: 'a thread) (c :: ('a, 'b) world) = Some (i, t', c')" "\<forall>i<length (keys c). k_index (keys c ! i) = i"
    then show "\<forall>i<length (keys c'). k_index (keys c' ! i) = i"
      by (auto simp: get_key_def get_key_slow_def intern_key_def Let_def nth_append less_Suc_eq
        dest!: add_key_keys split: option.splits prod.splits if_splits)
  qed simp
  with assms(2) show ?thesis by blast
qed

end
