(* ===== verification/Instances.thy ===== *)
theory Instances
  imports OutputSpec BlocksFile
begin

text \<open>
  How many instances of a key the report counts. A thread's ledger of a key is the number of closed
  instances in its statistics and of open frames on its stack; only a begin that opens a region
  changes it, so once all regions are closed the reported number is the number of begins that
  opened the key.
\<close>

definition ledger :: "'h thread \<Rightarrow> nat \<Rightarrow> u64" where
  "ledger t k = kstats.count (stats_base t k) + keyed k (spine t)"

definition ledger_of :: "('h, 'z) client_scheme \<Rightarrow> nat \<Rightarrow> nat \<Rightarrow> u64" where
  "ledger_of c j k = (if j < length (threads c) then ledger (thr c j) k else 0)"

lemma ledger_rest: "rest t = rest t' \<Longrightarrow> ledger t k = ledger t' k"
  using restD(1,3) [of t t'] by (simp add: ledger_def stats_base_def spine_def)

lemma ledger_of_inert: "inert c' = inert c \<Longrightarrow> ledger_of c' j k = ledger_of c j k"
  using inert_thread [of c' c j] inertD(6) [of c' c] ledger_rest by (auto simp: ledger_of_def)

lemma ledger_of_upd_thr: "(\<And>t. ledger (f t) k = ledger t k) \<Longrightarrow> ledger_of (upd_thr i f c) j k = ledger_of c j k"
  by (simp add: ledger_of_def thr_upd_thr_if)

lemma ledger_of_same_threads: "threads c' = threads c \<Longrightarrow> ledger_of c' j k = ledger_of c j k"
  by (simp add: ledger_of_def)

lemma ledger_of_marks [simp]: "ledger_of (c\<lparr>state_overflows := n\<rparr>) j k = ledger_of c j k"
  by (simp add: ledger_of_def)

lemma ledger_of_own:
  assumes "own_step i c c'" and "ledger (thr c' i) k = ledger (thr c i) k"
  shows "ledger_of c' j k = ledger_of c j k"
  using assms by (cases "j = i") (auto simp: ledger_of_def own_step_def)

subsection \<open>The handlers\<close>

text \<open>What a begin adds: one for the key of the frame it leaves on top, unless it only overflowed.\<close>

definition begin_adds :: "('h, 'z) client_scheme \<Rightarrow> ('h, 'z) client_scheme \<Rightarrow> nat \<Rightarrow> nat \<Rightarrow> u64" where
  "begin_adds c c' i k = (if depth (thr c i) < MAX_DEPTH \<and> top_key (thr c' i) = Some k then 1 else 0)"

lemma ledger_begin_common:
  assumes res: "begin_common A i reg sts now c = Some c'" and i: "i < length (threads c)"
  shows "ledger_of c' j k = ledger_of c j k + (if j = i then begin_adds c c' i k else 0)"
  using res i
proof (cases rule: begin_common_inert)
  case overflow
  have "ledger_of c' j k = ledger_of c j k" by (rule ledger_of_same_threads) (simp add: overflow(2))
  moreover have "begin_adds c c' i k = 0" using overflow(1) by (auto simp: begin_adds_def)
  ultimately show ?thesis by simp
next
  case (opened k' t' c1 f sq)
  let ?d = "upd_thr i (\<lambda>_. t'\<lparr>stack := stack t' @ [f]\<rparr>) (c1\<lparr>seq_counter := sq\<rparr>)"
  have len: "threads c1 = threads c" using same_keyst_client(1) [OF opened(2)] by simp
  have t: "stack t' = stack (thr c i)" "stats t' = stats (thr c i)" using same_caches_thread [OF opened(3)] by simp_all
  have "ledger (t'\<lparr>stack := stack t' @ [f]\<rparr>) k = ledger (thr c i) k + (if f_key f = k then 1 else 0)"
    by (simp add: ledger_def stats_base_def spine_def t)
  then have "ledger_of ?d j k = ledger_of c j k + (if j = i \<and> f_key f = k then 1 else 0)"
    using i by (cases "j = i") (auto simp: ledger_of_def thr_upd_thr_if len)
  moreover have "top_key (thr c' i) = Some (f_key f)"
    using restD(1) [OF inert_thread [OF opened(4), of i]] i by (simp add: len top_key_def)
  moreover have "ledger_of c' j k = ledger_of ?d j k" by (rule ledger_of_inert [OF opened(4)])
  ultimately show ?thesis using opened(10) by (cases "f_key f = k") (simp_all add: begin_adds_def)
qed

lemma ledger_pre_end:
  assumes res: "pre_end A i reg now c = Some c'" and i: "i < length (threads c)"
  shows "ledger_of c' j k = ledger_of c j k"
proof (cases "find_frame (keys c) (stack (thr c i)) (region_name reg) (depth (thr c i))")
  case None
  with res show ?thesis by (auto simp: pre_end_def Let_def intro: ledger_of_same_threads)
next
  case (Some m)
  obtain c0 c2 c3 se te where c0: "c0 = c\<lparr>seq_counter := seq_counter c0\<rparr>"
    and c2: "close_above A i (total (thr c i)) se te (m + 1) c0 = Some c2"
    and c3: "close_frame A i (total (thr c i)) se te False c2 = Some c3"
    and c': "c' = (let c4 = reinstall A i c3 in if leader c4 = Some i then update_shared A (Some i) c4 else c4)"
    by (rule pre_end_eq [OF res i Some])
  have t0: "threads c0 = threads c" by (subst c0) simp
  have i0: "i < length (threads c0)" using i by (simp add: t0)
  have i2: "i < length (threads c2)" using close_above_step [OF c2 i0] i0 by (simp add: own_step_def)
  have own: "own_step i c0 c3" using close_above_step [OF c2 i0] close_frame_step [OF c3 i2] own_step_trans by blast
  have I: "inert c' = inert c3" by (simp add: c' Let_def)
  note E = pre_end_matched [OF res i Some, of k]
  have "keyed k (spine (thr c i)) = keyed k (take m (spine (thr c i))) + keyed k (drop m (spine (thr c i)))"
    by (metis append_take_drop_id keyed_simps(3))
  then have "ledger (thr c' i) k = ledger (thr c i) k" using E by (simp add: ledger_def)
  moreover have "ledger (thr c3 i) k = ledger (thr c' i) k"
    using ledger_rest [OF inert_thread [OF I]] own i0 by (simp add: own_step_def)
  ultimately have "ledger_of c3 j k = ledger_of c0 j k" by (intro ledger_of_own [OF own]) (simp add: t0)
  then show ?thesis using ledger_of_inert [OF I] ledger_of_same_threads [OF t0] by simp
qed

lemma ledger_thread_exit:
  assumes i: "i < length (threads c)" and res: "event_thread_exit A i now c = Some c'"
  shows "ledger_of c' j k = ledger_of c j k"
proof -
  let ?c0 = "c\<lparr>seq_counter := seq_counter c + 1\<rparr>"
  obtain c1 where c1: "close_above A i (total (thr c i)) (seq_counter c + 1) now 0 ?c0 = Some c1"
    and c': "c' = (let c2 = upd_thr i (\<lambda>t. t\<lparr>final_total := total (thr c i), alive := False\<rparr>) c1
      in if leader c2 = Some i then update_shared A None c2 else c2)"
    using res by (auto simp: event_thread_exit_def Let_def split: Option.bind_splits)
  let ?c2 = "upd_thr i (\<lambda>t. t\<lparr>final_total := total (thr c i), alive := False\<rparr>) c1"
  have i0: "i < length (threads ?c0)" using i by simp
  note S = close_above_step [OF c1 i0] and K = close_above_counts [OF c1 i0, of k]
  have sp: "spine (thr c1 i) = []" using S by simp
  have "ledger (thr c1 i) k = ledger (thr ?c0 i) k" using K unfolding ledger_def sp by simp
  then have "ledger_of c1 j k = ledger_of ?c0 j k" using S by (intro ledger_of_own) auto
  also have "\<dots> = ledger_of c j k" by (rule ledger_of_same_threads) simp
  finally have "ledger_of c1 j k = ledger_of c j k" .
  moreover have "ledger_of ?c2 j k = ledger_of c1 j k"
    by (rule ledger_of_upd_thr) (simp add: ledger_def stats_base_def spine_def)
  moreover have "inert c' = inert ?c2" by (simp add: c' Let_def)
  ultimately show ?thesis using ledger_of_inert by metis
qed

lemma ledger_thread_init:
  assumes "event_thread_init A tno c = Some c'"
  shows "ledger_of c' j k = ledger_of c j k"
proof -
  define c1 where "c1 = c\<lparr>threads := threads c @ [new_thread A tno (nthreads_seen c)], nthreads_seen := nthreads_seen c + 1\<rparr>"
  obtain a c2 where s: "slots_for A (shared_key c1) (index (thr c1 (length (threads c)))) c1 = (a, c2)"
    by (cases "slots_for A (shared_key c1) (index (thr c1 (length (threads c)))) c1")
  have c': "c' = set_thread_cur (length (threads c)) a c2"
    using assms s by (simp add: event_thread_init_def Let_def c1_def split: if_splits)
  have "ledger (new_thread A tno n) k = 0" for n
    by (simp add: ledger_def stats_base_def new_thread_def kstats_zero_def spine_def)
  then have "ledger_of c1 j k = ledger_of c j k" by (auto simp: ledger_of_def c1_def nth_append less_Suc_eq)
  moreover have "inert c' = inert c1" using inert_slots_for_eq [OF s] by (simp add: c')
  ultimately show ?thesis using ledger_of_inert by metis
qed

subsection \<open>Steps and runs\<close>

text \<open>The specification: the begins of thread \<open>j\<close> that open key \<open>k\<close>.\<close>

definition begins_of1 :: "('h, 'p) world \<Rightarrow> event \<Rightarrow> ('h, 'p) world \<Rightarrow> nat \<Rightarrow> nat \<Rightarrow> u64" where
  "begins_of1 w e w' j k = (if begins e \<and> actor e = Some j then begin_adds w w' j k else 0)"

fun begins_of :: "('h, 'p) dr_api \<Rightarrow> ('h, 'p) world \<Rightarrow> event list \<Rightarrow> nat \<Rightarrow> nat \<Rightarrow> u64" where
  "begins_of A w [] j k = 0"
| "begins_of A w (e # es) j k = (case step A w e of None \<Rightarrow> 0 | Some w' \<Rightarrow> begins_of1 w e w' j k + begins_of A w' es j k)"

lemma step_ledger:
  assumes inv: "world_inv A w" and res: "step A w e = Some w'"
  shows "ledger_of w' j k = ledger_of w j k + begins_of1 w e w' j k"
proof -
  have en: "enabled w e" and h: "handle A w e = Some w'" using res by (auto simp: step_def split: if_splits)
  show ?thesis
  proof (cases "begins e")
    case True
    then obtain i reg sts now c where b: "begin_common A i reg sts now c = Some w'" "actor e = Some i"
      "c = w \<or> c = w\<lparr>state_overflows := state_overflows w + 1\<rparr>"
      using h by (metis begins_common)
    have t: "threads c = threads w" using b(3) by auto
    then have "i < length (threads c)" using b(2) en by (auto simp: enabled_def)
    from ledger_begin_common [OF b(1) this, of j k] True b(2) show ?thesis
      by (auto simp: begins_of1_def begin_adds_def ledger_of_def t)
  next
    case False
    have "ledger_of w' j k = ledger_of w j k"
    proof (cases e)
      case (Thread_init tno)
      with h ledger_thread_init show ?thesis by auto
    next
      case (Thread_exit i now)
      with h en ledger_thread_exit [of i w] show ?thesis by (simp add: enabled_def)
    next
      case (End i r now)
      with h en ledger_pre_end [of A i r now w] show ?thesis by (simp add: enabled_def)
    next
      case (State i nm v)
      have "ledger (t\<lparr>stack := upd_last (\<lambda>f. f\<lparr>f_states := g f\<rparr>) (stack t)\<rparr>) k = ledger t k" for g t
        by (simp add: ledger_def stats_base_def spine_f_states)
      from ledger_of_upd_thr [OF this, of i _ w j] State h show ?thesis
        by (auto simp: pre_state_def Let_def intro: ledger_of_same_threads)
    next
      case (Syscall i)
      have "ledger_of (event_pre_syscall i w) j k = ledger_of w j k"
        unfolding event_pre_syscall_def by (rule ledger_of_upd_thr) (simp add: ledger_def stats_base_def spine_def)
      with Syscall h show ?thesis by auto
    next
      case (Load d)
      with h ledger_of_same_threads [OF event_module_load_same(4) [of A d w]] show ?thesis by auto
    next
      case (Build i x pc n mo)
      have "ledger_of (event_app2app x i w) j k = ledger_of w j k"
        unfolding event_app2app_def by (rule ledger_of_upd_thr) (simp add: ledger_def stats_base_def spine_def)
      moreover have "threads (build_block A i x pc n mo w) = threads (event_app2app x i w)"
        by (cases rule: event_analysis_cases [of A "event_app2app x i w" pc i n mo])
          (simp_all add: build_block_def assign_slot_def)
      ultimately show ?thesis using Build h ledger_of_same_threads by (metis handle.simps(9) option.inject)
    next
      case (Exec i p)
      have "ledger_of (counted i s n w) j k = ledger_of w j k" for s n
      proof -
        have "threads (counted i s n w) = threads (upd_thr i (\<lambda>t. t\<lparr>total := total t + n\<rparr>) w)"
          by (simp add: counted_def Let_def)
        then have "ledger_of (counted i s n w) j k = ledger_of (upd_thr i (\<lambda>t. t\<lparr>total := total t + n\<rparr>) w) j k"
          by (rule ledger_of_same_threads)
        also have "\<dots> = ledger_of w j k" by (rule ledger_of_upd_thr) (simp add: ledger_def stats_base_def spine_def)
        finally show ?thesis .
      qed
      then show ?thesis
        using Exec h en exec_block_spec [OF inv, of p i] by (auto simp: enabled_def split: if_splits)
    qed (use False in simp_all)
    with False show ?thesis by (simp add: begins_of1_def)
  qed
qed

lemma run_ledger:
  assumes "world_inv A w" "list_all event_ok es" "run (step A) w es = Some w'"
  shows "ledger_of w' j k = ledger_of w j k + begins_of A w es j k"
  using assms
proof (induction es arbitrary: w)
  case (Cons e es)
  from Cons.prems(3) obtain u where u: "step A w e = Some u" "run (step A) u es = Some w'"
    by (auto split: Option.bind_splits)
  have iu: "world_inv A u" using Cons.prems u(1) callbacks.step_inv by auto
  with Cons.IH [OF iu _ u(2)] Cons.prems(2) step_ledger [OF Cons.prems(1) u(1)] show ?case by (simp add: u(1))
qed simp

lemma ran_ledger:
  assumes "ran A oc main es w" and "j < length (threads w)"
  shows "ledger (thr w j) k = begins_of A (init_world A oc main) es j k"
proof -
  have "ledger_of (init_world A oc main) j k = 0" by (simp add: ledger_of_def init_world_def)
  moreover have "ledger_of w j k = ledger_of (init_world A oc main) j k + begins_of A (init_world A oc main) es j k"
    using assms(1) unfolding ran_def by (intro run_ledger) (blast intro: init_world_inv)+
  ultimately show ?thesis using assms(2) by (simp add: ledger_of_def)
qed

subsection \<open>The report\<close>

text \<open>The merged number of instances is the sum over the threads.\<close>

lemma count_merge_one: "kstats.count (merge_one out so) = kstats.count out + (case so of None \<Rightarrow> 0 | Some s \<Rightarrow> kstats.count s)"
  by (simp add: merge_one_def split: option.split)

lemma count_merge_stats:
  "kstats.count (merge_stats ss) = (\<Sum>so\<leftarrow>ss. case so of None \<Rightarrow> 0 | Some s \<Rightarrow> kstats.count s)"
proof -
  have "kstats.count (foldl merge_one out ss) = kstats.count out + (\<Sum>so\<leftarrow>ss. case so of None \<Rightarrow> 0 | Some s \<Rightarrow> kstats.count s)" for out
    by (induction ss arbitrary: out) (simp_all add: count_merge_one add.assoc)
  then show ?thesis by (simp add: merge_stats_def Let_def kstats_zero_def)
qed

lemma count_key_merged:
  "kstats.count (key_merged x k) = (\<Sum>j<length (threads x). kstats.count (stats_base (thr x j) (k_index k)))"
proof -
  have "(case map_option (\<lambda>f. f (k_index k)) (stats t) of None \<Rightarrow> 0 | Some s \<Rightarrow> kstats.count s) =
      kstats.count (stats_base t (k_index k))" for t :: "'a thread"
    by (simp add: stats_base_def kstats_zero_def split: option.split)
  then have "kstats.count (key_merged x k) = (\<Sum>t\<leftarrow>rev (threads x). kstats.count (stats_base t (k_index k)))"
    by (simp add: key_merged_def count_merge_stats comp_def)
  also have "\<dots> = (\<Sum>t\<leftarrow>threads x. kstats.count (stats_base t (k_index k)))" by (simp only: rev_map [symmetric] sum_list_rev)
  also have "\<dots> = (\<Sum>j<length (threads x). kstats.count (stats_base (thr x j) (k_index k)))"
    by (simp add: sum_list_sum_nth atLeast0LessThan)
  finally show ?thesis .
qed

lemma threads_at_exit: "threads (at_exit A w) = threads w"
  by (simp add: at_exit_def world.defs)

end
