(* ===== verification/Inclusive.thy ===== *)
theory Inclusive
  imports Instances
begin

text \<open>
  The inclusive cost of a region: while a region stays open its frame keeps what it noted at the
  begin, and the thread's clocks advance by what the thread executes, so the instance that the end
  closes has exactly the instructions and system calls of its thread in between.
\<close>

definition noted :: "'h thread \<Rightarrow> (nat \<times> u64 \<times> u64) list" where
  "noted t = map (\<lambda>f. (f_key f, total_at_begin f, sys_at_begin f)) (stack t)"

lemma length_noted [simp]: "length (noted t) = depth t"
  by (simp add: noted_def)

text \<open>Frames are pushed and popped, but what they noted stays.\<close>

definition moved :: "'h thread \<Rightarrow> 'h thread \<Rightarrow> bool" where
  "moved t t' \<longleftrightarrow> (\<exists>ys. noted t' = noted t @ ys) \<or> (\<exists>n. noted t' = take n (noted t))"

definition clocks :: "'h thread \<Rightarrow> u64 \<times> u64" where
  "clocks t = (total t, sys t)"

lemma moved_same: "noted t' = noted t \<Longrightarrow> moved t t'"
  by (auto simp: moved_def intro: exI [of _ "[]"])

lemma moved_nth: "moved t t' \<Longrightarrow> d < depth t \<Longrightarrow> d < depth t' \<Longrightarrow> noted t' ! d = noted t ! d"
  by (auto simp: moved_def nth_append simp flip: length_noted)

lemma noted_rest: "rest t = rest t' \<Longrightarrow> noted t = noted t'" and clocks_rest: "rest t = rest t' \<Longrightarrow> clocks t = clocks t'"
  using restD(1,2,5) [of t t'] by (simp_all add: noted_def clocks_def)

subsection \<open>Closing\<close>

lemma noted_popped: "noted (t\<lparr>stack := popped tot u\<rparr>) = butlast (noted u)"
proof (cases "butlast (stack u)" rule: rev_cases)
  case Nil
  then show ?thesis by (simp add: noted_def popped_def map_butlast [symmetric])
next
  case (snoc ys y)
  then show ?thesis by (simp add: noted_def popped_def map_butlast [symmetric])
qed

lemma close_frame_noted:
  assumes "close_frame A i tot se te b c = Some c'" and "i < length (threads c)"
  shows "noted (thr c' i) = butlast (noted (thr c i)) \<and> clocks (thr c' i) = clocks (thr c i)"
proof -
  obtain tr where t: "thr c' i = (thr c i)\<lparr>stats := Some (closed_stats tot b (thr c i)), trace := tr,
       stack := popped tot (thr c i)\<rparr>"
    using close_frame_thr [OF assms] by blast
  show ?thesis
    using noted_popped [where t = "(thr c i)\<lparr>stats := Some (closed_stats tot b (thr c i)), trace := tr\<rparr>" and tot = tot and u = "thr c i"]
    by (simp add: t clocks_def)
qed

lemma close_above_noted:
  assumes "close_above A i tot se te d c = Some c'" and "i < length (threads c)"
  shows "noted (thr c' i) = take d (noted (thr c i)) \<and> clocks (thr c' i) = clocks (thr c i)"
  using assms
proof (induction A i tot se te d c arbitrary: c' rule: close_above.induct)
  case (1 A i tot se te d c)
  show ?case
  proof (cases "d < depth (thr c i)")
    case False
    with "1.prems" show ?thesis by (simp add: close_above.simps [of A i tot se te d c])
  next
    case True
    then obtain c1 where c1: "close_frame A i tot se te True c = Some c1" "close_above A i tot se te d c1 = Some c'"
      using "1.prems" by (auto simp: close_above.simps [of A i tot se te d c] split: Option.bind_splits)
    have i1: "i < length (threads c1)" using close_frame_step [OF c1(1) "1.prems"(2)] "1.prems"(2) by (simp add: own_step_def)
    from "1.IH" [OF conjI [OF "1.prems"(2) True] c1 i1] close_frame_noted [OF c1(1) "1.prems"(2)] True
    show ?thesis by (simp add: take_butlast)
  qed
qed

text \<open>The state after closing and before the pointer is set again.\<close>

lemma closed_noted:
  assumes own: "own_step i c c3" and n: "noted (thr c3 i) = take n (noted (thr c i))" "clocks (thr c3 i) = clocks (thr c i)"
    and I: "inert c' = inert c3" and j: "j < length (threads c)"
  shows "moved (thr c j) (thr c' j) \<and> clocks (thr c' j) = clocks (thr c j)"
proof -
  have "j < length (threads c3)" using own j by (simp add: own_step_def)
  then have "noted (thr c' j) = noted (thr c3 j)" "clocks (thr c' j) = clocks (thr c3 j)"
    using noted_rest clocks_rest inert_thread [OF I] by blast+
  then show ?thesis using own n by (cases "j = i") (auto simp: own_step_def moved_def intro: moved_same)
qed

lemma pre_end_moved:
  assumes res: "pre_end A i reg now c = Some c'" and i: "i < length (threads c)" and j: "j < length (threads c)"
  shows "moved (thr c j) (thr c' j) \<and> clocks (thr c' j) = clocks (thr c j)"
proof (cases "find_frame (keys c) (stack (thr c i)) (region_name reg) (depth (thr c i))")
  case None
  with res have "threads c' = threads c" by (auto simp: pre_end_def Let_def)
  then show ?thesis by (simp add: moved_same)
next
  case (Some m)
  obtain c0 c2 c3 se te where c0: "c0 = c\<lparr>seq_counter := seq_counter c0\<rparr>"
    and c2: "close_above A i (total (thr c i)) se te (m + 1) c0 = Some c2"
    and c3: "close_frame A i (total (thr c i)) se te False c2 = Some c3"
    and c': "c' = (let c4 = reinstall A i c3 in if leader c4 = Some i then update_shared A (Some i) c4 else c4)"
    by (rule pre_end_eq [OF res i Some])
  have t0: "threads c0 = threads c" by (subst c0) simp
  have i0: "i < length (threads c0)" using i by (simp add: t0)
  note S2 = close_above_step [OF c2 i0] and N2 = close_above_noted [OF c2 i0]
  have i2: "i < length (threads c2)" using S2 i0 by (simp add: own_step_def)
  note N3 = close_frame_noted [OF c3 i2]
  have own: "own_step i c0 c3" using S2 close_frame_step [OF c3 i2] own_step_trans by blast
  have "m < depth (thr c i)" using find_frame_Some [OF Some] by simp
  then have "noted (thr c3 i) = take m (noted (thr c0 i))"
    using N2 N3 by (simp add: t0 butlast_take flip: length_noted)
  moreover have "clocks (thr c3 i) = clocks (thr c0 i)" using N2 N3 by simp
  moreover have "inert c' = inert c3" by (simp add: c' Let_def)
  ultimately have "moved (thr c0 j) (thr c' j) \<and> clocks (thr c' j) = clocks (thr c0 j)"
    using j by (intro closed_noted [OF own]) (simp_all add: t0)
  then show ?thesis by (simp add: t0)
qed

lemma thread_exit_moved:
  assumes res: "event_thread_exit A i now c = Some c'" and i: "i < length (threads c)" and j: "j < length (threads c)"
  shows "moved (thr c j) (thr c' j) \<and> clocks (thr c' j) = clocks (thr c j)"
proof -
  let ?c0 = "c\<lparr>seq_counter := seq_counter c + 1\<rparr>"
  obtain c1 where c1: "close_above A i (total (thr c i)) (seq_counter c + 1) now 0 ?c0 = Some c1"
    and c': "c' = (let c2 = upd_thr i (\<lambda>t. t\<lparr>final_total := total (thr c i), alive := False\<rparr>) c1
      in if leader c2 = Some i then update_shared A None c2 else c2)"
    using res by (auto simp: event_thread_exit_def Let_def split: Option.bind_splits)
  let ?c2 = "upd_thr i (\<lambda>t. t\<lparr>final_total := total (thr c i), alive := False\<rparr>) c1"
  have i0: "i < length (threads ?c0)" using i by simp
  have own: "own_step i ?c0 c1" and len: "length (threads c1) = length (threads c)"
    using close_above_step [OF c1 i0] by (simp_all add: own_step_def)
  have n: "noted (thr c1 i) = take 0 (noted (thr ?c0 i))" "clocks (thr c1 i) = clocks (thr ?c0 i)"
    using close_above_noted [OF c1 i0] by blast+
  have "moved (thr ?c0 j) (thr c1 j) \<and> clocks (thr c1 j) = clocks (thr ?c0 j)"
    by (rule closed_noted [OF own n]) (use j in simp_all)
  moreover have "noted (thr ?c2 j) = noted (thr c1 j)" "clocks (thr ?c2 j) = clocks (thr c1 j)"
    by (simp_all add: thr_upd_thr_if noted_def clocks_def)
  moreover have "inert c' = inert ?c2" by (simp add: c' Let_def)
  then have "rest (thr c' j) = rest (thr ?c2 j)" using j by (intro inert_thread) (simp_all add: len)
  then have "noted (thr c' j) = noted (thr ?c2 j)" "clocks (thr c' j) = clocks (thr ?c2 j)"
    using noted_rest clocks_rest by blast+
  ultimately show ?thesis by (simp add: moved_def)
qed

subsection \<open>Opening\<close>

lemma begin_common_moved:
  assumes res: "begin_common A i reg sts now c = Some c'" and i: "i < length (threads c)" and j: "j < length (threads c)"
  shows "moved (thr c j) (thr c' j) \<and> clocks (thr c' j) = clocks (thr c j)"
  using res i
proof (cases rule: begin_common_inert)
  case overflow
  then have "threads c' = threads c" by simp
  then show ?thesis by (simp add: moved_same)
next
  case (opened k' t' c1 f sq)
  let ?d = "upd_thr i (\<lambda>_. t'\<lparr>stack := stack t' @ [f]\<rparr>) (c1\<lparr>seq_counter := sq\<rparr>)"
  have len: "threads c1 = threads c" using same_keyst_client(1) [OF opened(2)] by simp
  have t: "stack t' = stack (thr c i)" "total t' = total (thr c i)" "sys t' = sys (thr c i)"
    using same_caches_thread [OF opened(3)] by simp_all
  have "rest (thr c' j) = rest (thr ?d j)" using j by (intro inert_thread [OF opened(4)]) (simp add: len)
  then have e: "noted (thr c' j) = noted (thr ?d j)" "clocks (thr c' j) = clocks (thr ?d j)"
    using noted_rest clocks_rest by blast+
  show ?thesis
  proof (cases "j = i")
    case True
    then have "noted (thr ?d j) = noted (thr c j) @ [(f_key f, total_at_begin f, sys_at_begin f)]" "clocks (thr ?d j) = clocks (thr c j)"
      using i by (simp_all add: len noted_def clocks_def t)
    with e show ?thesis by (auto simp: moved_def)
  next
    case False
    then have "thr ?d j = thr c j" by (simp add: len)
    with e show ?thesis by (simp add: moved_same)
  qed
qed

subsection \<open>Steps and runs\<close>

fun instrs_by :: "event list \<Rightarrow> nat \<Rightarrow> u64" where
  "instrs_by [] i = 0"
| "instrs_by (Exec j p # es) i = (if j = i then count_of p else 0) + instrs_by es i"
| "instrs_by (e # es) i = instrs_by es i"

fun syscalls_by :: "event list \<Rightarrow> nat \<Rightarrow> u64" where
  "syscalls_by [] i = 0"
| "syscalls_by (Syscall j # es) i = (if j = i then 1 else 0) + syscalls_by es i"
| "syscalls_by (e # es) i = syscalls_by es i"

lemma moved_upd_thr:
  assumes "\<And>t. noted (f t) = noted t" and "\<And>t. clocks (f t) = (total t + x, sys t + y)" and "i < length (threads c)"
  shows "moved (thr c j) (thr (upd_thr i f c) j) \<and>
    clocks (thr (upd_thr i f c) j) = (total (thr c j) + (if i = j then x else 0), sys (thr c j) + (if i = j then y else 0))"
  using assms by (auto simp: thr_upd_thr_if clocks_def intro: moved_same)

lemma step_length:
  assumes inv: "world_inv A w" and res: "step A w e = Some w'"
  shows "length (threads w) \<le> length (threads w')"
proof -
  have en: "enabled w e" and h: "handle A w e = Some w'" using res by (auto simp: step_def split: if_splits)
  show ?thesis
  proof (cases "begins e")
    case True
    then obtain i reg sts now c where b: "begin_common A i reg sts now c = Some w'" "actor e = Some i"
      "c = w \<or> c = w\<lparr>state_overflows := state_overflows w + 1\<rparr>"
      using h by (metis begins_common)
    have t: "threads c = threads w" using b(3) by auto
    then have "i < length (threads c)" using b(2) en by (auto simp: enabled_def)
    from b(1) this show ?thesis
    proof (cases rule: begin_common_inert)
      case (opened k t' c1 f sq)
      then show ?thesis using inertD(6) [OF opened(4)] same_keyst_client(1) [OF opened(2)] by (simp add: t)
    qed (simp add: t)
  next
    case False
    have "length (map caches_of (threads w)) \<le> length (map caches_of (threads w'))"
      using handle_interned [OF inv en h False] by (auto simp: interned_def simp del: length_map)
    then show ?thesis by simp
  qed
qed

lemma thread_init_rest:
  assumes "event_thread_init A tno c = Some c'" and "j < length (threads c)"
  shows "rest (thr c' j) = rest (thr c j)"
proof -
  define c1 where "c1 = c\<lparr>threads := threads c @ [new_thread A tno (nthreads_seen c)], nthreads_seen := nthreads_seen c + 1\<rparr>"
  obtain a c2 where s: "slots_for A (shared_key c1) (index (thr c1 (length (threads c)))) c1 = (a, c2)"
    by (cases "slots_for A (shared_key c1) (index (thr c1 (length (threads c)))) c1")
  have "c' = set_thread_cur (length (threads c)) a c2"
    using assms s by (simp add: event_thread_init_def Let_def c1_def split: if_splits)
  then have "inert c' = inert c1" using inert_slots_for_eq [OF s] by simp
  from inert_thread [OF this, of j] assms(2) show ?thesis by (simp add: c1_def nth_append)
qed

lemma step_moved:
  assumes inv: "world_inv A w" and res: "step A w e = Some w'" and j: "j < length (threads w)"
  shows "moved (thr w j) (thr w' j) \<and>
    clocks (thr w' j) = (total (thr w j) + instrs_by [e] j, sys (thr w j) + syscalls_by [e] j)"
proof -
  have en: "enabled w e" and h: "handle A w e = Some w'" using res by (auto simp: step_def split: if_splits)
  have same: ?thesis if "moved (thr w j) (thr w' j) \<and> clocks (thr w' j) = clocks (thr w j)"
      "instrs_by [e] j = 0" "syscalls_by [e] j = 0"
    using that by (simp add: clocks_def)
  show ?thesis
  proof (cases "begins e")
    case True
    then obtain i reg sts now c where b: "begin_common A i reg sts now c = Some w'" "actor e = Some i"
      "c = w \<or> c = w\<lparr>state_overflows := state_overflows w + 1\<rparr>"
      using h by (metis begins_common)
    have t: "threads c = threads w" using b(3) by auto
    then have "i < length (threads c)" using b(2) en by (auto simp: enabled_def)
    from begin_common_moved [OF b(1) this, of j] j True show ?thesis by (intro same) (auto simp: t elim!: begins.elims)
  next
    case False
    show ?thesis
    proof (cases e)
      case (Thread_init tno)
      with h have "rest (thr w' j) = rest (thr w j)" by (intro thread_init_rest [OF _ j]) simp
      then have "noted (thr w' j) = noted (thr w j)" "clocks (thr w' j) = clocks (thr w j)"
        using noted_rest clocks_rest by blast+
      with Thread_init show ?thesis by (intro same) (simp_all add: moved_same)
    next
      case (Thread_exit i now)
      with h en j thread_exit_moved [of A i now w w' j] show ?thesis by (intro same) (auto simp: enabled_def)
    next
      case (End i r now)
      with h en j pre_end_moved [of A i r now w w' j] show ?thesis by (intro same) (auto simp: enabled_def)
    next
      case (State i nm v)
      have "noted (t\<lparr>stack := upd_last (\<lambda>f. f\<lparr>f_states := g f\<rparr>) (stack t)\<rparr>) = noted t" for g t
        by (cases "stack t" rule: rev_cases) (simp_all add: noted_def)
      then have "moved (thr w j) (thr (pre_state i nm v w) j) \<and> clocks (thr (pre_state i nm v w) j) = clocks (thr w j)"
        by (auto simp: pre_state_def Let_def thr_upd_thr_if clocks_def intro!: moved_same)
      with State h show ?thesis by (intro same) auto
    next
      case (Syscall i)
      have "moved (thr w j) (thr (event_pre_syscall i w) j) \<and> clocks (thr (event_pre_syscall i w) j) =
          (total (thr w j) + (if i = j then 0 else 0), sys (thr w j) + (if i = j then 1 else 0))"
        unfolding event_pre_syscall_def
        by (rule moved_upd_thr) (use Syscall en in \<open>simp_all add: noted_def clocks_def enabled_def\<close>)
      with Syscall h show ?thesis by auto
    next
      case (Load d)
      with h have "threads w' = threads w" using event_module_load_same(4) [of A d w] by auto
      with Load show ?thesis by (intro same) (simp_all add: moved_same)
    next
      case (Build i x pc n mo)
      have "threads (build_block A i x pc n mo w) = threads (event_app2app x i w)"
        by (cases rule: event_analysis_cases [of A "event_app2app x i w" pc i n mo])
          (simp_all add: build_block_def assign_slot_def)
      moreover have "moved (thr w j) (thr (event_app2app x i w) j) \<and> clocks (thr (event_app2app x i w) j) = clocks (thr w j)"
        by (simp add: event_app2app_def thr_upd_thr_if noted_def clocks_def moved_same)
      ultimately show ?thesis using Build h by (intro same) auto
    next
      case (Exec i p)
      have i: "i < length (threads w)" and p: "p \<in> code w" using en Exec by (simp_all add: enabled_def)
      have t: "threads (counted i s n w) = threads (upd_thr i (\<lambda>t. t\<lparr>total := total t + n\<rparr>) w)" for s n
        by (simp add: counted_def Let_def)
      have "moved (thr w j) (thr (counted i s n w) j) \<and> clocks (thr (counted i s n w) j) =
          (total (thr w j) + (if i = j then n else 0), sys (thr w j) + (if i = j then 0 else 0))" for s n
        unfolding t by (rule moved_upd_thr) (use i in \<open>simp_all add: noted_def clocks_def\<close>)
      moreover have "w' = (if count_of p = 0 then w else counted i (of_nat (slot_of p)) (count_of p) w)"
        using h Exec exec_block_spec [OF inv p i] by simp
      ultimately show ?thesis using Exec by (auto simp: moved_same clocks_def)
    qed (use False in simp_all)
  qed
qed

text \<open>The first \<open>d + 1\<close> regions of thread \<open>i\<close> stay open during the whole of a run.\<close>

fun stays_open :: "('h, 'p) dr_api \<Rightarrow> ('h, 'p) world \<Rightarrow> event list \<Rightarrow> nat \<Rightarrow> nat \<Rightarrow> bool" where
  "stays_open A w [] i d = (d < depth (thr w i))"
| "stays_open A w (e # es) i d =
     (d < depth (thr w i) \<and> (case step A w e of None \<Rightarrow> False | Some w' \<Rightarrow> stays_open A w' es i d))"

lemma stays_open_now: "stays_open A w es i d \<Longrightarrow> d < depth (thr w i)"
  by (cases es) simp_all

lemma instrs_by_Cons: "instrs_by (e # es) i = instrs_by [e] i + instrs_by es i"
  by (cases e) simp_all

lemma syscalls_by_Cons: "syscalls_by (e # es) i = syscalls_by [e] i + syscalls_by es i"
  by (cases e) simp_all

lemma run_noted:
  assumes "world_inv A w" "list_all event_ok es" "run (step A) w es = Some w'" "i < length (threads w)" "stays_open A w es i d"
  shows "noted (thr w' i) ! d = noted (thr w i) ! d \<and> i < length (threads w') \<and> d < depth (thr w' i) \<and>
    clocks (thr w' i) = (total (thr w i) + instrs_by es i, sys (thr w i) + syscalls_by es i)"
  using assms
proof (induction es arbitrary: w)
  case Nil
  then show ?case by (simp add: clocks_def)
next
  case (Cons e es)
  from Cons.prems(3) obtain u where u: "step A w e = Some u" "run (step A) u es = Some w'"
    by (auto split: Option.bind_splits)
  have iu: "world_inv A u" using Cons.prems u(1) callbacks.step_inv by auto
  have d: "d < depth (thr w i)" "stays_open A u es i d" using Cons.prems(5) u(1) by simp_all
  have l: "i < length (threads u)" using step_length [OF Cons.prems(1) u(1)] Cons.prems(4) by simp
  note M = step_moved [OF Cons.prems(1) u(1) Cons.prems(4)]
  have "noted (thr u i) ! d = noted (thr w i) ! d"
    using moved_nth [OF conjunct1 [OF M] d(1) stays_open_now [OF d(2)]] .
  moreover have "total (thr u i) = total (thr w i) + instrs_by [e] i" "sys (thr u i) = sys (thr w i) + syscalls_by [e] i"
    using M by (simp_all add: clocks_def)
  ultimately show ?case
    using Cons.IH [OF iu _ u(2) l d(2)] Cons.prems(2) instrs_by_Cons [of e es i] syscalls_by_Cons [of e es i]
    by (simp add: add.assoc)
qed

subsection \<open>The end\<close>

lemma stats_base_Some: "stats_base (t\<lparr>stats := Some g, trace := tr, stack := st\<rparr>) = g"
  by (simp add: stats_base_def)

lemma close_frame_sums:
  assumes "close_frame A i tot se te b c = Some c'" and "i < length (threads c)"
    and "noted (thr c i) ! d = (k, t0, s0)" and "depth (thr c i) = Suc d"
  shows "incl_sum (stats_base (thr c' i) k) = incl_sum (stats_base (thr c i) k) + (tot - t0) \<and>
    sys_sum (stats_base (thr c' i) k) = sys_sum (stats_base (thr c i) k) + (sys (thr c i) - s0) \<and>
    kstats.count (stats_base (thr c' i) k) = kstats.count (stats_base (thr c i) k) + 1"
proof -
  obtain tr where t: "thr c' i = (thr c i)\<lparr>stats := Some (closed_stats tot b (thr c i)), trace := tr,
       stack := popped tot (thr c i)\<rparr>"
    using close_frame_thr [OF assms(1,2)] by blast
  have "stack (thr c i) \<noteq> []" using assms(4) by auto
  then have "last (stack (thr c i)) = stack (thr c i) ! d" using assms(4) by (simp add: last_conv_nth)
  then have "f_key (last (stack (thr c i))) = k" "total_at_begin (last (stack (thr c i))) = t0"
    "sys_at_begin (last (stack (thr c i))) = s0"
    using assms(3,4) by (simp_all add: noted_def)
  then show ?thesis
    by (simp add: t stats_base_Some closed_stats_def Let_def top_sample_def top_incl_def stats_add_def stats_touch_def)
qed

lemma pre_end_sums:
  assumes res: "pre_end A i reg now c = Some c'" and i: "i < length (threads c)"
    and n: "noted (thr c i) ! d = (k, t0, s0)" and d: "depth (thr c i) = Suc d" and r: "region (keys c ! k) = region_name reg"
  shows "depth (thr c' i) = d \<and>
    incl_sum (stats_base (thr c' i) k) = incl_sum (stats_base (thr c i) k) + (total (thr c i) - t0) \<and>
    sys_sum (stats_base (thr c' i) k) = sys_sum (stats_base (thr c i) k) + (sys (thr c i) - s0) \<and>
    kstats.count (stats_base (thr c' i) k) = kstats.count (stats_base (thr c i) k) + 1"
proof -
  have "f_key (stack (thr c i) ! d) = k" using n d by (simp add: noted_def)
  then have f: "find_frame (keys c) (stack (thr c i)) (region_name reg) (depth (thr c i)) = Some d"
    using d r by simp
  obtain c0 c2 c3 se te where c0: "c0 = c\<lparr>seq_counter := seq_counter c0\<rparr>"
    and c2: "close_above A i (total (thr c i)) se te (d + 1) c0 = Some c2"
    and c3: "close_frame A i (total (thr c i)) se te False c2 = Some c3"
    and c': "c' = (let c4 = reinstall A i c3 in if leader c4 = Some i then update_shared A (Some i) c4 else c4)"
    by (rule pre_end_eq [OF res i f])
  have t0: "threads c0 = threads c" by (subst c0) simp
  then have "c2 = c0" using c2 d by (simp add: close_above.simps [of A i "total (thr c i)" se te "Suc d" c0])
  then have t2: "threads c2 = threads c" by (simp add: t0)
  have i2: "i < length (threads c2)" using i by (simp add: t2)
  have "noted (thr c2 i) ! d = (k, t0, s0)" "depth (thr c2 i) = Suc d" using n d by (simp_all add: t2)
  note S = close_frame_sums [OF c3 i2 this]
  have I: "inert c' = inert c3" by (simp add: c' Let_def)
  have "i < length (threads c3)" using close_frame_step [OF c3 i2] i2 by (simp add: own_step_def)
  note R = restD [OF inert_thread [OF I this]]
  have "noted (thr c' i) = noted (thr c3 i)" "stats_base (thr c' i) = stats_base (thr c3 i)"
    using R by (simp_all add: noted_def stats_base_def)
  moreover have "length (noted (thr c3 i)) = d" using close_frame_noted [OF c3 i2] d by (simp add: t2)
  moreover have "depth (thr c' i) = depth (thr c3 i)" using R(1) by simp
  ultimately show ?thesis using S by (simp add: t2)
qed

lemma begin_notes:
  assumes "step A w b = Some w1" and "begins b" and "actor b = Some i" and "depth (thr w i) < MAX_DEPTH"
  shows "i < length (threads w) \<and> i < length (threads w1) \<and> depth (thr w1 i) = Suc (depth (thr w i)) \<and>
    (\<exists>k. top_key (thr w1 i) = Some k \<and> noted (thr w1 i) ! depth (thr w i) = (k, clocks (thr w1 i)))"
proof -
  have en: "enabled w b" and h: "handle A w b = Some w1" using assms(1) by (auto simp: step_def split: if_splits)
  obtain reg sts now c where b: "begin_common A i reg sts now c = Some w1"
    and c: "c = w \<or> c = w\<lparr>state_overflows := state_overflows w + 1\<rparr>"
    using begins_common [OF assms(2) h] assms(3) by (metis option.inject)
  have t: "threads c = threads w" using c by auto
  have i: "i < length (threads c)" using assms(3) en by (simp add: enabled_def t)
  from b i show ?thesis
  proof (cases rule: begin_common_inert)
    case overflow
    with assms(4) show ?thesis by (simp add: t)
  next
    case (opened k t' c1 f sq)
    let ?d = "upd_thr i (\<lambda>_. t'\<lparr>stack := stack t' @ [f]\<rparr>) (c1\<lparr>seq_counter := sq\<rparr>)"
    have len: "threads c1 = threads c" using same_keyst_client(1) [OF opened(2)] by simp
    have R: "rest (thr w1 i) = rest (thr ?d i)" using i by (intro inert_thread [OF opened(4)]) (simp add: len)
    have d: "thr ?d i = t'\<lparr>stack := stack (thr w i) @ [f]\<rparr>" using i same_caches_thread(1) [OF opened(3)] by (simp add: len t)
    have st: "stack (thr w1 i) = stack (thr w i) @ [f]" using restD(1) [OF R] by (simp add: d)
    have "clocks (thr w1 i) = (total_at_begin f, sys_at_begin f)"
      using clocks_rest [OF R] opened(6,7) same_caches_thread(3,4) [OF opened(3)] by (simp add: d clocks_def)
    moreover have "length (threads w1) = length (threads c)" using inertD(6) [OF opened(4)] by (simp add: len)
    ultimately show ?thesis using i st by (simp add: t top_key_def noted_def nth_append)
  qed
qed

end
