(* ===== verification/Options.thy ===== *)
theory Options
  imports Names
begin

text \<open>
  Start of the client: the command line (\<open>parse_options\<close>) and \<open>dr_client_main\<close>. Reading a number
  (\<open>dr_sscanf\<close> with \<open>%d\<close>) and whether the extensions and buffers come up are the record
  \<open>start_api\<close>; \<open>scan_laws\<close> says that a number read is a 32-bit \<open>int\<close>.
\<close>

record start_api =
  scan_d :: "string \<Rightarrow> int option"
  start_pid :: int
  exts_ok :: bool           \<comment> \<open>\<open>drmgr_init\<close> .. \<open>drx_init\<close>, the TLS slots and the registrations\<close>
  drsym_ok :: bool
  bufs_ok :: bool           \<comment> \<open>\<open>slot_pc\<close>, \<open>slot_mod\<close>, \<open>slot_sym\<close> and \<open>dummy_slots\<close>\<close>
  main_start :: "addr option"

definition scan_laws :: "start_api \<Rightarrow> bool" where
  "scan_laws S \<longleftrightarrow> (\<forall>s v. scan_d S s = Some v \<longrightarrow> - (2 ^ 31) \<le> v \<and> v < 2 ^ 31)"

definition default_options :: options where
  "default_options = \<lparr>opt_out = ''drperf.json'', opt_top = 25, opt_max_slots = 1024 * 1024, opt_trace = 500000,
     opt_rep_expand = True, opt_symbols = True, opt_verbose = False, opt_block_counters = True, opt_blocks = False\<rparr>"

text \<open>\<open>strstr(opt_out, "%p")\<close>, as a position.\<close>

fun find_pid :: "string \<Rightarrow> nat option" where
  "find_pid [] = None"
| "find_pid (c # s) = (if take 2 (c # s) = ''%p'' then Some 0 else map_option Suc (find_pid s))"

text \<open>The number of the process is written over it, with what followed put back behind.\<close>

definition out_name :: "('h, 'p) dr_api \<Rightarrow> int \<Rightarrow> string \<Rightarrow> string" where
  "out_name A n arg =
     (let s = safe_strcpy (Some arg) 512 in
      case find_pid s of
        None \<Rightarrow> s
      | Some i \<Rightarrow> take 511 (take i s @
          fst (snprintf A (512 - i) (show_int n @ safe_strcpy (Some (drop (i + 2) s)) 512))))"

definition at_least :: "int \<Rightarrow> int option \<Rightarrow> int" where
  "at_least lo v = (case v of None \<Rightarrow> lo | Some v \<Rightarrow> if v < lo then lo else v)"

text \<open>The options that take a value, and those that do not.\<close>

definition value_option :: "('h, 'p) dr_api \<Rightarrow> start_api \<Rightarrow> string \<Rightarrow> string \<Rightarrow> (options \<Rightarrow> options) option" where
  "value_option A S a x =
     (if a = ''-o'' then Some (\<lambda>oc. oc\<lparr>opt_out := out_name A (start_pid S) x\<rparr>)
      else if a = ''-top'' then Some (\<lambda>oc. oc\<lparr>opt_top := at_least 1 (scan_d S x)\<rparr>)
      else if a = ''-max_slots'' then Some (\<lambda>oc. oc\<lparr>opt_max_slots := of_int (at_least 1024 (scan_d S x))\<rparr>)
      else if a = ''-trace'' then Some (\<lambda>oc. oc\<lparr>opt_trace := at_least 0 (scan_d S x)\<rparr>)
      else None)"

definition flag_option :: "string \<Rightarrow> (options \<Rightarrow> options) option" where
  "flag_option a =
     (if a = ''-blocks'' then Some (\<lambda>oc. oc\<lparr>opt_blocks := True\<rparr>)
      else if a = ''-no_rep_expand'' then Some (\<lambda>oc. oc\<lparr>opt_rep_expand := False\<rparr>)
      else if a = ''-no_block_counters'' then Some (\<lambda>oc. oc\<lparr>opt_block_counters := False\<rparr>)
      else if a = ''-no_symbols'' then Some (\<lambda>oc. oc\<lparr>opt_symbols := False\<rparr>)
      else if a = ''-verbose'' then Some (\<lambda>oc. oc\<lparr>opt_verbose := True\<rparr>)
      else None)"

text \<open>The loop over the arguments behind the name of the program; \<open>None\<close> is \<open>dr_abort\<close>. An option
  that takes a value is unknown when it comes last.\<close>

fun parse_options :: "('h, 'p) dr_api \<Rightarrow> start_api \<Rightarrow> string list \<Rightarrow> options \<Rightarrow> options option" where
  "parse_options A S [] oc = Some oc"
| "parse_options A S [a] oc = (case flag_option a of Some f \<Rightarrow> Some (f oc) | None \<Rightarrow> None)"
| "parse_options A S (a # x # args) oc = (case value_option A S a x of
     Some f \<Rightarrow> parse_options A S args (f oc)
   | None \<Rightarrow> (case flag_option a of
       Some f \<Rightarrow> parse_options A S (x # args) (f oc)
     | None \<Rightarrow> None))"

text \<open>With assertions compiled out the code goes on when an extension or a buffer is missing; that is
  outside the model, which ends there.\<close>

definition dr_client_main :: "('h, 'p) dr_api \<Rightarrow> start_api \<Rightarrow> string list \<Rightarrow> ('h, 'p) world option" where
  "dr_client_main A S args =
     (case parse_options A S args default_options of
        None \<Rightarrow> None
      | Some oc \<Rightarrow>
          if \<not> exts_ok S \<or> \<not> bufs_ok S then None
          else
            (let oc1 = (if opt_symbols oc \<and> \<not> drsym_ok S then oc\<lparr>opt_symbols := False\<rparr> else oc)
             in Some (init_world A oc1 (case main_start S of None \<Rightarrow> 0 | Some a \<Rightarrow> a))))"

subsection \<open>The options are in range\<close>

definition options_inv :: "options \<Rightarrow> bool" where
  "options_inv oc \<longleftrightarrow> opts_ok oc \<and> 1 \<le> opt_top oc \<and> 0 \<le> opt_trace oc \<and> opt_trace oc < 2 ^ 31 \<and>
     length (opt_out oc) < 512"

lemma at_least_range:
  assumes "scan_laws S" and "lo < 2 ^ 31"
  shows "lo \<le> at_least lo (scan_d S x)" "at_least lo (scan_d S x) < 2 ^ 31"
  using assms by (auto simp: at_least_def scan_laws_def split: option.split)

lemma unat_of_int_small: "0 \<le> v \<Longrightarrow> v < 2 ^ 31 \<Longrightarrow> unat (of_int v :: u64) = nat v"
  by (simp add: unat_eq_nat_uint uint_word_of_int)

lemma length_out_name: "length (out_name A n arg) < 512"
  using length_safe_strcpy [of 512 "Some arg"] by (auto simp: out_name_def Let_def split: option.split)

lemma options_inv_upd:
  "options_inv oc \<Longrightarrow> options_inv (oc\<lparr>opt_out := out_name A n x\<rparr>)"
  "scan_laws S \<Longrightarrow> options_inv oc \<Longrightarrow> options_inv (oc\<lparr>opt_top := at_least 1 (scan_d S x)\<rparr>)"
  "scan_laws S \<Longrightarrow> options_inv oc \<Longrightarrow> options_inv (oc\<lparr>opt_trace := at_least 0 (scan_d S x)\<rparr>)"
  "options_inv oc \<Longrightarrow> options_inv (oc\<lparr>opt_blocks := b\<rparr>)" "options_inv oc \<Longrightarrow> options_inv (oc\<lparr>opt_rep_expand := b\<rparr>)"
  "options_inv oc \<Longrightarrow> options_inv (oc\<lparr>opt_block_counters := b\<rparr>)" "options_inv oc \<Longrightarrow> options_inv (oc\<lparr>opt_symbols := b\<rparr>)"
  "options_inv oc \<Longrightarrow> options_inv (oc\<lparr>opt_verbose := b\<rparr>)"
  using at_least_range [of S 1 x] at_least_range [of S 0 x]
  by (simp_all add: options_inv_def opts_ok_def length_out_name)

lemma options_inv_slots:
  assumes "scan_laws S" and "options_inv oc"
  shows "options_inv (oc\<lparr>opt_max_slots := of_int (at_least 1024 (scan_d S x))\<rparr>)"
proof -
  have r: "1024 \<le> at_least 1024 (scan_d S x)" "at_least 1024 (scan_d S x) < 2 ^ 31"
    using at_least_range [OF assms(1), of 1024 x] by simp_all
  then have "unat (of_int (at_least 1024 (scan_d S x)) :: u64) = nat (at_least 1024 (scan_d S x))"
    by (intro unat_of_int_small) simp_all
  then show ?thesis using assms(2) r by (simp add: options_inv_def opts_ok_def nat_less_iff le_nat_iff)
qed

lemma option_steps_inv:
  "scan_laws S \<Longrightarrow> options_inv oc \<Longrightarrow> value_option A S a x = Some f \<Longrightarrow> options_inv (f oc)"
  "options_inv oc \<Longrightarrow> flag_option a = Some f \<Longrightarrow> options_inv (f oc)"
  by (auto simp: value_option_def flag_option_def options_inv_upd options_inv_slots split: if_splits)

lemma parse_options_inv:
  "scan_laws S \<Longrightarrow> options_inv oc \<Longrightarrow> parse_options A S args oc = Some oc' \<Longrightarrow> options_inv oc'"
  by (induction A S args oc rule: parse_options.induct)
    (auto simp: option_steps_inv split: option.splits)

lemma options_inv_default: "options_inv default_options"
  by (simp add: options_inv_def default_options_def opts_ok_def)

text \<open>What a started client is.\<close>

lemma dr_client_main_inv:
  assumes "dr_client_main A S args = Some w" and "scan_laws S"
  obtains oc main where "w = init_world A oc main" "options_inv oc"
proof -
  obtain oc where oc: "parse_options A S args default_options = Some oc"
    and w: "w = init_world A (if opt_symbols oc \<and> \<not> drsym_ok S then oc\<lparr>opt_symbols := False\<rparr> else oc)
      (case main_start S of None \<Rightarrow> 0 | Some a \<Rightarrow> a)"
    using assms(1) by (auto simp: dr_client_main_def Let_def split: option.splits if_splits)
  have "options_inv oc" by (rule parse_options_inv [OF assms(2) options_inv_default oc])
  then show ?thesis using that [OF w] options_inv_upd(7) [of oc False] by simp
qed

text \<open>The file name of a process that has \<open>%p\<close> in it.\<close>

lemma find_pid_Some: "find_pid s = Some i \<Longrightarrow> i + 2 \<le> length s \<and> s = take i s @ ''%p'' @ drop (i + 2) s"
proof (induction s arbitrary: i)
  case (Cons c s)
  show ?case
  proof (cases "take 2 (c # s) = ''%p''")
    case True
    then obtain t where "c # s = ''%p'' @ t" using append_take_drop_id [of 2 "c # s"] by metis
    with True Cons.prems show ?thesis by auto
  next
    case False
    with Cons show ?thesis by auto
  qed
qed simp

lemma find_pid_append: "find_pid (a @ ''%p'' @ b) = Some i \<Longrightarrow> i \<le> length a"
  by (induction a arbitrary: i) (auto split: if_splits)

end
