(* ===== verification/Demo.thy ===== *)
theory Demo
  imports Inclusive Options
begin

text \<open>
  A short run of the client with its default options on the concrete services \<open>assoc_api\<close>, worked
  out state by state: one thread starts, opens a region, builds and runs a block and closes the
  region. The witnesses of the properties of whole runs are about this run.
\<close>

definition demo_options :: options where
  "demo_options = \<lparr>opt_out = ''drperf.json'', opt_top = 25, opt_max_slots = 2 ^ 20, opt_trace = 500000,
     opt_rep_expand = True, opt_symbols = True, opt_verbose = False, opt_block_counters = True, opt_blocks = False\<rparr>"

definition demo :: "((string \<times> nat) list, (addr \<times> nat) list) world" where
  "demo = init_world assoc_api demo_options 0"

definition demo1 :: "((string \<times> nat) list, (addr \<times> nat) list) world" where
  "demo1 = demo\<lparr>threads := [new_thread assoc_api 1 0], nthreads_seen := 1\<rparr>"

text \<open>One thread opens the region \<open>a\<close>, builds and runs a block of five instructions and closes it.\<close>

lemma demo_step1: "step assoc_api demo (Thread_init 1) = Some demo1"
  by (simp add: demo1_def demo_def init_world_def step_def enabled_def event_thread_init_def assoc_simps new_thread_def
    slots_for_def set_thread_cur_def upd_thr_def upd_nth_def split: prod.split)

definition demo_key :: "rkey" where
  "demo_key = make_key ''a'' [([], 0)] False [] [] 0"

definition demo_frame :: "frame" where
  "demo_frame = \<lparr>f_key = 0, f_cur = Arr 0, total_at_begin = 0, sys_at_begin = 0, children_incl = 0,
   seq_begin = 1, t_begin_us = 7, f_states = []\<rparr>"

definition demo_h :: "u64" where
  "demo_h = key_hash ''a'' [] [([], 0)]"

definition demo_txt :: "string" where
  "demo_txt = kbuf_of assoc_api ''a'' [([], 0)] []"

definition demo_thread :: "u64 \<Rightarrow> (string \<times> nat) list thread" where
  "demo_thread n = (new_thread assoc_api 1 0)\<lparr>key_cache := [(demo_txt, 0)],
   fast := (\<lambda>_. (0, None))(fast_index demo_h := (demo_h, Some 0)),
   cur := Arr 0, followed := Arr 0, stack := [demo_frame], total := n\<rparr>"

definition demo2 :: "((string \<times> nat) list, (addr \<times> nat) list) world" where
  "demo2 = demo1\<lparr>nallocs := 1, counter_bytes := 2 ^ 23, tslots := (\<lambda>_ _. None)(0 := [0 \<mapsto> 0]),
    arrays := (\<lambda>_ _. 0)(0 := (\<lambda>_. 0)), narrays := 1, keys := [demo_key], key_table := [(demo_txt, 0)],
    region_keys := [(''a'', 1)], 
    threads := [demo_thread 0], shared_key := Some 0, leader := Some 0, seq_counter := 1, marker_seen := True\<rparr>"

lemma demo_get_key: "get_key assoc_api ''a'' [([], 0)] [] [] (new_thread assoc_api 1 0) (demo1\<lparr>marker_seen := True\<rparr>) =
   Some (0, (new_thread assoc_api 1 0)\<lparr>key_cache := [(demo_txt, 0)], fast := (\<lambda>_. (0, None))(fast_index demo_h := (demo_h, Some 0))\<rparr>,
    demo1\<lparr>marker_seen := True, keys := [demo_key], key_table := [(demo_txt, 0)], region_keys := [(''a'', 1)]\<rparr>)"
  by (simp add: get_key_def fast_hit_def new_thread_def get_key_slow_def demo_h_def [symmetric] demo_txt_def [symmetric]
   intern_key_def demo1_def demo_def init_world_def assoc_simps assoc_add_def add_key_def demo_key_def remember_key_def
   region_key_budget_def MAX_KEYS_def COUNTER_BUDGET_def demo_options_def NREGION_KEYS_def safe_strcpy_def RNAME_MAX_def Let_def)

lemma demo_step2: "step assoc_api demo1 (Begin 0 (Some ''a'') None 0 7) = Some demo2"
proof -
  have t: "thr demo1 0 = new_thread assoc_api 1 0" "length (threads demo1) = 1" "stack (new_thread assoc_api 1 0) = []"
    "alive (new_thread assoc_api 1 0)" "index (new_thread assoc_api 1 0) = 0"
    by (simp_all add: demo1_def new_thread_def MAX_THREADS_def)
  show ?thesis
    by (simp add: step_def enabled_def t pre_begin_def begin_common_def Let_def demo_get_key region_name_def MAX_DEPTH_def)
      (simp add: demo2_def demo1_def demo_def init_world_def demo_options_def upd_thr_def upd_nth_def set_thread_cur_def
      slots_for_def slots_for_locked_def COUNTER_BUDGET_def assoc_simps update_shared_def top_key_def new_thread_def MAX_THREADS_def
      demo_thread_def demo_frame_def Let_def)
qed

definition demo3 :: "((string \<times> nat) list, (addr \<times> nat) list) world" where
  "demo3 = demo2\<lparr>slot_pc := (\<lambda>_. 0)(0 := 4096), slot_mod := (\<lambda>_. 0)(0 := -1), slot_sym := (\<lambda>_. 0)(0 := -1),
   slot_table := [(4096, 1)], next_slot := 1, code := {packed_word 0 5}\<rparr>"

lemma demo_step3: "step assoc_api demo2 (Build 0 False 4096 5 None) = Some demo3"
  by (simp add: step_def enabled_def build_block_def event_app2app_def event_analysis_def demo3_def demo2_def demo1_def
   demo_def init_world_def demo_options_def upd_thr_def upd_nth_def demo_thread_def new_thread_def assoc_simps assoc_add_def
   module_index_for_pc_def Let_def)

definition demo4 :: "((string \<times> nat) list, (addr \<times> nat) list) world" where
  "demo4 = demo3\<lparr>threads := [demo_thread 5], arrays := (\<lambda>_ _. 0)(0 := (\<lambda>_. 0)(0 := 5))\<rparr>"

lemma demo_step4: "step assoc_api demo3 (Exec 0 (packed_word 0 5)) = Some demo4"
proof -
  have "exec_block 0 (packed_word 0 5) demo3 = Some (counted 0 0 5 demo3)"
    by (rule exec_block_counted) (simp_all add: demo3_def demo2_def)
  then show ?thesis
   by (simp add: step_def enabled_def counted_def bump_def demo4_def demo3_def demo2_def demo1_def demo_def init_world_def demo_options_def
      upd_thr_def upd_nth_def demo_thread_def Let_def new_thread_def fun_upd_idem_iff)
qed

definition demo_sample :: sample where
  "demo_sample = \<lparr>s_incl = 5, s_self = 5, s_sys = 0, s_implicit = False\<rparr>"

definition demo_closed :: "(string \<times> nat) list thread" where
  "demo_closed = (demo_thread 5)\<lparr>cur := Dummy, followed := Dummy, stack := [],
     stats := Some ((\<lambda>_. kstats_zero)(0 := stats_add demo_sample (stats_touch kstats_zero))),
     trace := [[\<lparr>r_key = 0, r_seq_begin = 1, r_seq_end = 2, r_t_begin_us = 7, r_t_end_us = 9, clock_begin = 0,
       r_incl = 5, r_self = 5, r_sys = 0, r_implicit = False, r_states = []\<rparr>]]\<rparr>"

definition demo5 :: "((string \<times> nat) list, (addr \<times> nat) list) world" where
  "demo5 = demo4\<lparr>threads := [demo_closed], seq_counter := 2, trace_records := 1,
     shared_key := None, leader := None\<rparr>"

lemma demo_find: "find_frame (keys demo4) (stack (demo_thread 5)) ''a'' 1 = Some 0"
  by (simp add: demo4_def demo3_def demo2_def demo_thread_def demo_frame_def demo_key_def make_key_def
      safe_strcpy_def RNAME_MAX_def)

lemma demo_depth: "depth (demo_thread n) = 1"
  by (simp add: demo_thread_def)

definition demo45 :: "((string \<times> nat) list, (addr \<times> nat) list) world" where
  "demo45 = demo4\<lparr>threads := [demo_closed\<lparr>cur := Arr 0, followed := Arr 0\<rparr>], seq_counter := 2, trace_records := 1\<rparr>"

lemma demo_fields:
  "threads demo4 = [demo_thread 5]" "opt_trace demo4 = 500000" "trace_records demo4 = 0" "leader demo4 = Some 0"
  "shared_key demo4 = Some 0" "nthreads_seen demo4 = 1" "seq_counter demo4 = 1" "trace_dropped demo4 = 0"
  by (simp_all add: demo4_def demo3_def demo2_def demo1_def demo_def init_world_def demo_options_def)

lemma demo_thread_fields:
  "stack (demo_thread n) = [demo_frame]" "stats (demo_thread n) = None" "trace (demo_thread n) = []"
  "total (demo_thread n) = n" "sys (demo_thread n) = 0" "alive (demo_thread n)" "index (demo_thread n) = 0"
  by (simp_all add: demo_thread_def new_thread_def MAX_THREADS_def)

lemma demo_close: "close_frame assoc_api 0 5 2 9 False (demo4\<lparr>seq_counter := 2\<rparr>) = Some demo45"
proof -
  have "demo_closed\<lparr>cur := Arr 0, followed := Arr 0\<rparr> = (demo_thread 5)\<lparr>stack := [],
     stats := Some ((\<lambda>_. kstats_zero)(0 := stats_add demo_sample (stats_touch kstats_zero))),
     trace := [[\<lparr>r_key = 0, r_seq_begin = 1, r_seq_end = 2, r_t_begin_us = 7, r_t_end_us = 9, clock_begin = 0,
       r_incl = 5, r_self = 5, r_sys = 0, r_implicit = False, r_states = []\<rparr>]]\<rparr>"
    by (simp add: demo_closed_def demo_thread_def)
  then show ?thesis
    by (simp add: close_frame_def stats_for_def stats_upd_def trace_append_def push_trace_def upd_thr_def upd_nth_def
        Let_def assoc_simps demo_fields demo_thread_fields demo_frame_def demo45_def demo_sample_def MAX_KEYS_def)
qed

lemma demo_step5: "step assoc_api demo4 (End 0 (Some ''a'') 9) = Some demo5"
proof -
  have c: "close_above assoc_api 0 5 2 9 (Suc 0) (demo4\<lparr>seq_counter := 2\<rparr>) = Some (demo4\<lparr>seq_counter := 2\<rparr>)"
    by (simp add: close_above.simps demo_fields demo_thread_fields)
  have f: "index demo_closed = 0" "stack demo_closed = []" by (simp_all add: demo_closed_def demo_thread_fields)
  have k: "slots_for assoc_api (Some 0) 0 (demo4\<lparr>threads := x, seq_counter := 2, trace_records := 1\<rparr>) =
     (Arr 0, demo4\<lparr>threads := x, seq_counter := 2, trace_records := 1\<rparr>)" for x
    by (simp add: slots_for_def demo4_def demo3_def demo2_def)
  have r: "region (keys demo4 ! f_key demo_frame) = ''a''"
    by (simp add: demo4_def demo3_def demo2_def demo_frame_def demo_key_def make_key_def safe_strcpy_def RNAME_MAX_def)
  have d: "demo_closed\<lparr>cur := Dummy, followed := Dummy\<rparr> = demo_closed" by (simp add: demo_closed_def)
  have u: "set_thread_cur 0 a (demo4\<lparr>threads := [t], seq_counter := 2, trace_records := 1\<rparr>) =
      demo4\<lparr>threads := [t\<lparr>cur := a, followed := a\<rparr>], seq_counter := 2, trace_records := 1\<rparr>" for a t
    by (simp add: set_thread_cur_def upd_thr_def upd_nth_def)
  show ?thesis
    by (simp add: step_def enabled_def pre_end_def Let_def region_name_def demo_depth demo_find demo_fields
        demo_thread_fields c demo_close demo45_def f k r u)
      (simp add: update_shared_def demo_fields f slots_for_def set_thread_cur_def upd_thr_def upd_nth_def d demo5_def)
qed

text \<open>The whole run.\<close>

definition demo_run :: "event list" where
  "demo_run = [Thread_init 1, Begin 0 (Some ''a'') None 0 7, Build 0 False 4096 5 None,
     Exec 0 (packed_word 0 5), End 0 (Some ''a'') 9]"

lemma demo_runs: "run (step assoc_api) demo demo_run = Some demo5"
  by (simp add: demo_run_def demo_step1 demo_step2 demo_step3 demo_step4 demo_step5)

lemma demo_inv: "world_inv assoc_api demo"
  unfolding demo_def by (rule init_world_inv) (simp_all add: demo_options_def)

lemma demo_ok: "list_all event_ok demo_run"
  by (simp add: demo_run_def)

text \<open>What the witnesses read off the last state and the run.\<close>

lemma demo5_threads: "threads demo5 = [demo_closed]" "cur demo_closed = Dummy" "stack demo_closed = []"
    "alive demo_closed"
  by (simp_all add: demo5_def demo_closed_def demo_thread_fields)

lemma demo5_denied: "counter_denied demo5 = 0"
  by (simp add: demo5_def demo4_def demo3_def demo2_def demo1_def demo_def init_world_def)

lemma demo_packed: "slot_of (packed_word 0 5) = 0" "count_of (packed_word 0 5) = 5"
  using packed_parts [of 0 5] by simp_all

lemma demo_charge: "charge demo3 (Exec 0 (packed_word 0 5)) k s = (if k = 0 \<and> s = 0 then 5 else 0)"
  by (simp add: demo_packed demo3_def demo2_def demo1_def demo_def init_world_def demo_options_def focus_def
      top_key_def demo_thread_fields demo_frame_def)

lemma demo_inside: "inside1 demo3 (Exec 0 (packed_word 0 5)) 0 = 5"
  by (simp add: demo_packed demo3_def demo2_def demo_thread_fields)

lemma demo_tally: "tally assoc_api demo demo_run 0 0 = 5"
  by (simp add: demo_run_def demo_step1 demo_step2 demo_step3 demo_step4 demo_step5 demo_charge
      del: charge.simps(1))

lemma demo_inside_run: "inside assoc_api demo demo_run 0 = 5"
  by (simp add: demo_run_def demo_step1 demo_step2 demo_step3 demo_step4 demo_step5 demo_inside
      del: inside1.simps(1))

lemma demo_opens: "begins_of assoc_api demo demo_run 0 0 = 1"
proof -
  have "begin_adds demo1 demo2 0 0 = 1"
    by (simp add: begin_adds_def demo1_def demo2_def new_thread_def MAX_DEPTH_def demo_thread_def demo_frame_def top_key_def)
  then show ?thesis
    by (simp add: demo_run_def begins_of1_def demo_step1 demo_step2 demo_step3 demo_step4 demo_step5)
qed

lemma demo_executed: "executed demo_run = 5"
  by (simp add: demo_run_def demo_packed)

lemma demo_max_slots: "1024 \<le> unat (opt_max_slots demo_options)" "opt_max_slots demo_options \<le> 2 ^ 28"
    "opt_block_counters demo_options"
  by (simp_all add: demo_options_def)

subsection \<open>Keys\<close>

text \<open>Several threads after the region has been opened once.\<close>

definition demo_call :: call where
  "demo_call = (''a'', [([], 0)], [], [])"

definition demo_shared ::
  "((string \<times> nat) list, (addr \<times> nat) list) world \<times> (nat \<Rightarrow> (string \<times> nat) list thread)" where
  "demo_shared = (demo2, \<lambda>_. demo_thread 0)"

lemma demo_clean: "clean_call ''a'' [([], 0)] []"
  by (simp add: clean_call_def short_call_def fits_def nul_free_def sep_free_def key_limits)

lemma demo_call_ok: "call_ok demo_call"
  by (simp add: call_ok_def demo_call_def demo_clean)

lemma demo_txt_plain: "demo_txt = plain_key ''a'' [([], 0)] []"
  using kbuf_of_plain [OF assoc_api_laws(3) clean_short [OF demo_clean]] by (simp add: demo_txt_def)

lemma demo_key_call:
  "key_text demo_key = demo_txt" "key_clean demo_key" "region demo_key = ''a''" "root demo_key = []"
  "key_states demo_key = [([], 0)]" "\<not> overflow demo_key" "k_index demo_key = 0"
  using make_key_call [OF demo_clean] by (simp_all add: demo_key_def demo_txt_plain)

lemma demo2_keys: "keys demo2 = [demo_key]" "key_table demo2 = [(demo_txt, 0)]"
  by (simp_all add: demo2_def)

lemma demo_table_inv: "table_inv assoc_api demo2"
  by (auto simp: table_inv_def assoc_simps demo2_keys demo_key_call)

lemma demo_cache_inv: "cache_inv assoc_api demo2 (demo_thread 0)"
  by (auto simp: cache_inv_def assoc_simps demo2_keys demo_thread_def demo_key_call demo_h_def split: if_splits)

lemma demo_fast_hit: "fast_hit (keys demo2) (demo_thread 0) ''a'' [([], 0)] [] = Some 0"
  by (simp add: fast_hit_def Let_def demo_thread_def demo_h_def demo2_keys key_matches_def want_states_def demo_key_call)
    (simp add: demo_key_def make_key_def want_states_def)

lemma demo_shared_inv: "interned_inv assoc_api demo_shared"
  by (simp add: interned_inv_def demo_shared_def demo_table_inv demo_cache_inv)

lemma demo_call_stored: "stored assoc_api demo_shared demo_call 0"
  by (simp add: stored_def demo_shared_def demo_call_def assoc_simps demo2_keys demo_txt_plain)

text \<open>The first call of all.\<close>

definition demo_fresh ::
  "((string \<times> nat) list, (addr \<times> nat) list) world \<times> (nat \<Rightarrow> (string \<times> nat) list thread)" where
  "demo_fresh = (demo1\<lparr>marker_seen := True\<rparr>, \<lambda>_. new_thread assoc_api 1 0)"

lemma demo_first_call:
  "\<exists>s' ts'. gets (get_at assoc_api) [(0, demo_call)] demo_fresh = Some (s', ts') \<and> region_keys s' = [(''a'', 1)]"
  by (simp add: demo_fresh_def get_at_def demo_call_def demo_get_key)

lemma demo_fresh_empty: "keys (fst demo_fresh) = []" "region_keys (fst demo_fresh) = []"
  by (simp_all add: demo_fresh_def demo1_def demo_def init_world_def)

subsection \<open>The run as a run\<close>

lemma demo_ran: "ran assoc_api demo_options 0 demo_run demo5"
  using demo_runs demo_ok demo_max_slots by (simp add: ran_def demo_def)

lemma demo_run_clean: "list_all event_clean demo_run"
  using demo_clean by (simp add: demo_run_def region_name_def clean_name_def clean_call_def short_call_def)

lemma demo1_ran: "ran assoc_api demo_options 0 [Thread_init 1] demo1"
  using demo_step1 demo_max_slots by (simp add: ran_def demo_def)

lemma demo2_ran: "ran assoc_api demo_options 0 [Thread_init 1, Begin 0 (Some ''a'') None 0 7] demo2"
  using demo_step1 demo_step2 demo_max_slots by (simp add: ran_def demo_def)

lemma demo4_ran: "ran assoc_api demo_options 0
    [Thread_init 1, Begin 0 (Some ''a'') None 0 7, Build 0 False 4096 5 None, Exec 0 (packed_word 0 5)] demo4"
  using demo_step1 demo_step2 demo_step3 demo_step4 demo_max_slots by (simp add: ran_def demo_def)

definition demo_exit :: exit_api where
  "demo_exit = \<lparr>opens = (\<lambda>_. True), pid = 7, app_name = ''app'', stamp_text = (\<lambda>_. ''0.0'')\<rparr>"

end
