(* ===== verification/Allocation.thy ===== *)
theory Allocation
  imports Counters
begin

text \<open>
  \<open>slots_for\<close> as it runs on several threads at once: the unlocked read, the lock, the second read, the
  request for memory, the accounting and the store of the pointer are steps of their own, and other
  callers may move between any two of them. Every interleaving gives what \<open>slots_for\<close> as one step
  gives when the calls are made one after the other in some order, which is what the rest of the
  development takes it for. The last read of the pointer is done with the lock held and is one with
  the step that found or stored it. A call is a number; \<open>args\<close> gives the key and the thread index it is for.
\<close>

datatype apc = A_read | A_lock | A_locked | A_bytes nat | A_store nat | A_unlock carr | A_done carr

record alloc_state =
  shared :: mem
  keys_lock :: "nat option"     \<comment> \<open>the call that holds it\<close>
  pcs :: "nat \<Rightarrow> apc"

type_synonym slot_args = "nat \<Rightarrow> nat \<times> nat"

definition pointer :: "slot_args \<Rightarrow> nat \<Rightarrow> mem \<Rightarrow> nat option" where
  "pointer args c m = tslots m (fst (args c)) (snd (args c))"

definition over_budget :: "mem \<Rightarrow> bool" where
  "over_budget m \<longleftrightarrow> COUNTER_BUDGET < counter_bytes m + opt_max_slots m * 8"

definition new_array :: "mem \<Rightarrow> mem" where
  "new_array m = m\<lparr>nallocs := nallocs m + 1, arrays := (arrays m)(narrays m := (\<lambda>_. 0)), narrays := narrays m + 1\<rparr>"

definition account_bytes :: "mem \<Rightarrow> mem" where
  "account_bytes m = m\<lparr>counter_bytes := counter_bytes m + opt_max_slots m * 8\<rparr>"

definition set_pointer :: "slot_args \<Rightarrow> nat \<Rightarrow> nat \<Rightarrow> mem \<Rightarrow> mem" where
  "set_pointer args c a m = m\<lparr>tslots := (tslots m)(fst (args c) := (tslots m (fst (args c)))(snd (args c) \<mapsto> a))\<rparr>"

definition goto :: "nat \<Rightarrow> apc \<Rightarrow> alloc_state \<Rightarrow> alloc_state" where
  "goto c p s = s\<lparr>pcs := (pcs s)(c := p)\<rparr>"

text \<open>The next step of call \<open>c\<close>; \<open>None\<close> when it waits for the lock or has returned.\<close>

definition call_step :: "('h, 'p) dr_api \<Rightarrow> slot_args \<Rightarrow> nat \<Rightarrow> alloc_state \<Rightarrow> alloc_state option" where
  "call_step A args c s = (let m = shared s in case pcs s c of
     A_read \<Rightarrow> Some (goto c (case pointer args c m of Some a \<Rightarrow> A_done (Arr a) | None \<Rightarrow> A_lock) s)
   | A_lock \<Rightarrow> (case keys_lock s of None \<Rightarrow> Some (goto c A_locked (s\<lparr>keys_lock := Some c\<rparr>)) | Some _ \<Rightarrow> None)
   | A_locked \<Rightarrow> Some (case pointer args c m of
         Some a \<Rightarrow> goto c (A_unlock (Arr a)) s
       | None \<Rightarrow>
           if over_budget m then goto c (A_unlock Dummy) (s\<lparr>shared := m\<lparr>counter_denied := counter_denied m + 1\<rparr>\<rparr>)
           else if \<not> raw_alloc A (nallocs m)
           then goto c (A_unlock Dummy) (s\<lparr>shared := m\<lparr>nallocs := nallocs m + 1, counter_denied := counter_denied m + 1\<rparr>\<rparr>)
           else goto c (A_bytes (narrays m)) (s\<lparr>shared := new_array m\<rparr>))
   | A_bytes a \<Rightarrow> Some (goto c (A_store a) (s\<lparr>shared := account_bytes m\<rparr>))
   | A_store a \<Rightarrow> Some (goto c (A_unlock (Arr a)) (s\<lparr>shared := set_pointer args c a m\<rparr>))
   | A_unlock r \<Rightarrow> Some (goto c (A_done r) (s\<lparr>keys_lock := None\<rparr>))
   | A_done r \<Rightarrow> None)"

definition calls_start :: "mem \<Rightarrow> alloc_state" where
  "calls_start m = \<lparr>shared = m, keys_lock = None, pcs = (\<lambda>_. A_read)\<rparr>"

text \<open>What the calls can make of a state, in any interleaving of their steps.\<close>

inductive interleaved :: "('h, 'p) dr_api \<Rightarrow> slot_args \<Rightarrow> alloc_state \<Rightarrow> alloc_state \<Rightarrow> bool" for A args s0 where
  nothing_yet: "interleaved A args s0 s0"
| moves: "interleaved A args s0 s \<Longrightarrow> call_step A args c s = Some s' \<Longrightarrow> interleaved A args s0 s'"

subsection \<open>One after the other\<close>

text \<open>The calls in the given order, each as the one step \<open>slots_for\<close>.\<close>

fun in_order :: "('h, 'p) dr_api \<Rightarrow> slot_args \<Rightarrow> nat list \<Rightarrow> mem \<Rightarrow> (nat \<times> carr) list \<times> mem" where
  "in_order A args [] m = ([], m)"
| "in_order A args (c # cs) m =
     (let (r, m1) = slots_for A (Some (fst (args c))) (snd (args c)) m; (rs, m2) = in_order A args cs m1
      in ((c, r) # rs, m2))"

lemma in_order_snoc:
  assumes "in_order A args cs m = (rs, m1)" and "slots_for A (Some (fst (args c))) (snd (args c)) m1 = (r, m2)"
  shows "in_order A args (cs @ [c]) m = (rs @ [(c, r)], m2)"
  using assms by (induction cs arbitrary: m rs) (auto split: prod.splits)

lemma in_order_append:
  "in_order A args (cs @ cs') m = (rs, m2) \<Longrightarrow>
     \<exists>rs1 m1 rs2. in_order A args cs m = (rs1, m1) \<and> in_order A args cs' m1 = (rs2, m2) \<and> rs = rs1 @ rs2"
  by (induction cs arbitrary: m rs) (fastforce split: prod.splits)+

lemma in_order_calls: "in_order A args cs m = (rs, m1) \<Longrightarrow> map fst rs = cs"
  by (induction cs arbitrary: m rs) (auto split: prod.splits)

text \<open>The one step, by what it finds.\<close>

lemma slots_for_pointer:
  "pointer args c m = Some a \<Longrightarrow> slots_for A (Some (fst (args c))) (snd (args c)) m = (Arr a, m)"
  by (simp add: slots_for_def pointer_def)

lemma slots_for_over:
  "pointer args c m = None \<Longrightarrow> over_budget m \<Longrightarrow>
     slots_for A (Some (fst (args c))) (snd (args c)) m = (Dummy, m\<lparr>counter_denied := counter_denied m + 1\<rparr>)"
  by (simp add: slots_for_def slots_for_locked_def pointer_def over_budget_def Let_def)

lemma slots_for_nomem:
  "pointer args c m = None \<Longrightarrow> \<not> over_budget m \<Longrightarrow> \<not> raw_alloc A (nallocs m) \<Longrightarrow>
     slots_for A (Some (fst (args c))) (snd (args c)) m =
       (Dummy, m\<lparr>nallocs := nallocs m + 1, counter_denied := counter_denied m + 1\<rparr>)"
  by (simp add: slots_for_def slots_for_locked_def pointer_def over_budget_def Let_def)

lemma slots_for_new:
  "pointer args c m = None \<Longrightarrow> \<not> over_budget m \<Longrightarrow> raw_alloc A (nallocs m) \<Longrightarrow>
     slots_for A (Some (fst (args c))) (snd (args c)) m =
       (Arr (narrays m), set_pointer args c (narrays m) (account_bytes (new_array m)))"
  by (cases m)
    (simp add: slots_for_def slots_for_locked_def pointer_def over_budget_def Let_def set_pointer_def account_bytes_def new_array_def)

subsection \<open>The invariant\<close>

fun outcome :: "apc \<Rightarrow> carr option" where
  "outcome (A_unlock r) = Some r"
| "outcome (A_done r) = Some r"
| "outcome _ = None"

fun holds_lock :: "apc \<Rightarrow> bool" where
  "holds_lock A_read = False"
| "holds_lock A_lock = False"
| "holds_lock (A_done r) = False"
| "holds_lock _ = True"

text \<open>The memory, when \<open>m\<close> is what the finished calls have made of it.\<close>

definition granted :: "('h, 'p) dr_api \<Rightarrow> slot_args \<Rightarrow> nat \<Rightarrow> nat \<Rightarrow> mem \<Rightarrow> bool" where
  "granted A args c a m \<longleftrightarrow> pointer args c m = None \<and> \<not> over_budget m \<and> raw_alloc A (nallocs m) \<and> a = narrays m"

fun memory_ok :: "('h, 'p) dr_api \<Rightarrow> slot_args \<Rightarrow> nat \<Rightarrow> apc \<Rightarrow> mem \<Rightarrow> mem \<Rightarrow> bool" where
  "memory_ok A args c (A_bytes a) m m' \<longleftrightarrow> granted A args c a m \<and> m' = new_array m"
| "memory_ok A args c (A_store a) m m' \<longleftrightarrow> granted A args c a m \<and> m' = account_bytes (new_array m)"
| "memory_ok A args c _ m m' \<longleftrightarrow> m' = m"

definition linear :: "('h, 'p) dr_api \<Rightarrow> slot_args \<Rightarrow> mem \<Rightarrow> alloc_state \<Rightarrow> nat list \<Rightarrow> (nat \<times> carr) list \<Rightarrow> mem \<Rightarrow> bool" where
  "linear A args m0 s cs rs m \<longleftrightarrow> in_order A args cs m0 = (rs, m) \<and> distinct cs \<and>
     (\<forall>c r. (c, r) \<in> set rs \<longleftrightarrow> outcome (pcs s c) = Some r) \<and>
     (\<forall>c. holds_lock (pcs s c) \<longleftrightarrow> keys_lock s = Some c) \<and>
     (case keys_lock s of None \<Rightarrow> shared s = m | Some c \<Rightarrow> memory_ok A args c (pcs s c) m (shared s))"

lemma linear_parts:
  assumes "linear A args m0 s cs rs m"
  shows "in_order A args cs m0 = (rs, m)" "distinct cs" "\<forall>c r. (c, r) \<in> set rs \<longleftrightarrow> outcome (pcs s c) = Some r"
    "keys_lock s = None \<longrightarrow> shared s = m"
  using assms by (auto simp: linear_def)

lemma pointer_pending [simp]: "pointer args c (new_array m) = pointer args c m" "pointer args c (account_bytes m) = pointer args c m"
  by (simp_all add: pointer_def new_array_def account_bytes_def)

text \<open>Whoever looks at a pointer sees what the finished calls have made of it.\<close>

lemma pointer_seen:
  assumes "linear A args m0 s cs rs m"
  shows "pointer args c (shared s) = pointer args c m"
proof (cases "keys_lock s")
  case (Some d)
  then have "memory_ok A args d (pcs s d) m (shared s)" using assms by (simp add: linear_def)
  then show ?thesis by (cases "pcs s d") auto
qed (use assms in \<open>simp add: linear_def\<close>)

text \<open>A call that has no outcome yet and gets one.\<close>

lemma linear_outcome:
  assumes "linear A args m0 s cs rs m" and "outcome (pcs s c) = None" and "outcome p = Some r"
    and "slots_for A (Some (fst (args c))) (snd (args c)) m = (r, m')"
  shows "in_order A args (cs @ [c]) m0 = (rs @ [(c, r)], m')" "distinct (cs @ [c])"
    "\<forall>d r'. (d, r') \<in> set (rs @ [(c, r)]) \<longleftrightarrow> outcome (((pcs s)(c := p)) d) = Some r'"
proof -
  note L = assms(1) [unfolded linear_def]
  show "in_order A args (cs @ [c]) m0 = (rs @ [(c, r)], m')" using L assms(4) by (blast intro: in_order_snoc)
  have "c \<notin> fst ` set rs" using L assms(2) by auto
  moreover have "map fst rs = cs" using L by (blast intro: in_order_calls)
  ultimately show "distinct (cs @ [c])" using L by auto
  show "\<forall>d r'. (d, r') \<in> set (rs @ [(c, r)]) \<longleftrightarrow> outcome (((pcs s)(c := p)) d) = Some r'"
    using L assms(2,3) by auto
qed

lemma linear_moves:
  assumes "linear A args m0 s cs rs m" and "outcome p = outcome (pcs s c)"
  shows "\<forall>d r. (d, r) \<in> set rs \<longleftrightarrow> outcome (((pcs s)(c := p)) d) = Some r"
  using assms by (auto simp: linear_def)

lemma linear_step:
  assumes L: "linear A args m0 s cs rs m" and step: "call_step A args c s = Some s'"
  shows "\<exists>cs' rs m. linear A args m0 s' (cs @ cs') rs m"
proof -
  have same: "linear A args m0 s' cs rs m' \<Longrightarrow> ?thesis" for rs m' by (metis append_Nil2)
  note D = L [unfolded linear_def]
  have in_lock: "holds_lock (pcs s c) \<Longrightarrow> keys_lock s = Some c \<and> memory_ok A args c (pcs s c) m (shared s)"
    using D by (auto split: option.splits)
  have out_lock: "\<not> holds_lock (pcs s c) \<Longrightarrow> keys_lock s \<noteq> Some c" using D by auto
  show ?thesis
  proof (cases "pcs s c")
    case A_read
    then have k: "keys_lock s \<noteq> Some c" using out_lock by simp
    show ?thesis
    proof (cases "pointer args c (shared s)")
      case None
      then have "s' = goto c A_lock s" using step A_read by (simp add: call_step_def)
      then have "linear A args m0 s' cs rs m"
        using D k linear_moves [OF L, of A_lock c] A_read by (auto simp: linear_def goto_def split: option.splits)
      then show ?thesis by (rule same)
    next
      case (Some a)
      then have s': "s' = goto c (A_done (Arr a)) s" using step A_read by (simp add: call_step_def)
      have "pointer args c m = Some a" using Some pointer_seen [OF L] by simp
      from slots_for_pointer [OF this] have "slots_for A (Some (fst (args c))) (snd (args c)) m = (Arr a, m)" .
      from linear_outcome [OF L _ _ this, of "A_done (Arr a)"] D A_read k
      have "linear A args m0 s' (cs @ [c]) (rs @ [(c, Arr a)]) m"
        by (auto simp: linear_def s' goto_def split: option.splits)
      then show ?thesis by blast
    qed
  next
    case A_lock
    then have k: "keys_lock s = None" "s' = goto c A_locked (s\<lparr>keys_lock := Some c\<rparr>)"
      using step by (auto simp: call_step_def split: option.splits)
    then have "linear A args m0 s' cs rs m"
      using D linear_moves [OF L, of A_locked c] A_lock by (auto simp: linear_def goto_def)
    then show ?thesis by (rule same)
  next
    case A_locked
    then have k: "keys_lock s = Some c" "shared s = m" using in_lock by simp_all
    show ?thesis
    proof (cases "pointer args c m = None \<and> \<not> over_budget m \<and> raw_alloc A (nallocs m)")
      case True
      then have s': "s' = goto c (A_bytes (narrays m)) (s\<lparr>shared := new_array m\<rparr>)"
        using step A_locked k by (simp add: call_step_def)
      then have "linear A args m0 s' cs rs m"
        using D k True A_locked linear_moves [OF L, of "A_bytes (narrays m)" c] by (simp add: linear_def goto_def granted_def)
      then show ?thesis by (rule same)
    next
      case False
      obtain r m' where r: "slots_for A (Some (fst (args c))) (snd (args c)) m = (r, m')"
        and s': "s' = goto c (A_unlock r) (s\<lparr>shared := m'\<rparr>)"
      proof (cases "pointer args c m")
        case None
        with False step A_locked k slots_for_over [OF None] slots_for_nomem [OF None] that show ?thesis
          by (cases "over_budget m") (auto simp: call_step_def)
      next
        case (Some a)
        have "s' = goto c (A_unlock (Arr a)) (s\<lparr>shared := m\<rparr>)"
          using step A_locked Some unfolding k(2) [symmetric] by (simp add: call_step_def)
        with slots_for_pointer [OF Some] that show ?thesis by blast
      qed
      from linear_outcome [OF L _ _ r, of "A_unlock r"] D A_locked k
      have "linear A args m0 s' (cs @ [c]) (rs @ [(c, r)]) m'" by (simp add: linear_def s' goto_def)
      then show ?thesis by blast
    qed
  next
    case (A_bytes a)
    then have "keys_lock s = Some c" "granted A args c a m" "shared s = new_array m" using in_lock by simp_all
    then have "linear A args m0 s' cs rs m"
      using step A_bytes D linear_moves [OF L, of "A_store a" c] by (auto simp: call_step_def linear_def goto_def)
    then show ?thesis by (rule same)
  next
    case (A_store a)
    then have k: "keys_lock s = Some c" "granted A args c a m" "shared s = account_bytes (new_array m)" using in_lock by simp_all
    have s': "s' = goto c (A_unlock (Arr a)) (s\<lparr>shared := set_pointer args c a (shared s)\<rparr>)"
      using step A_store by (simp add: call_step_def)
    have "slots_for A (Some (fst (args c))) (snd (args c)) m = (Arr a, set_pointer args c a (shared s))"
      using k slots_for_new [of args c m A] by (simp add: granted_def)
    from linear_outcome [OF L _ _ this, of "A_unlock (Arr a)"] D A_store k
    have "linear A args m0 s' (cs @ [c]) (rs @ [(c, Arr a)]) (set_pointer args c a (shared s))"
      by (simp add: linear_def s' goto_def)
    then show ?thesis by blast
  next
    case (A_unlock r)
    then have k: "keys_lock s = Some c" "shared s = m" using in_lock by simp_all
    have "s' = goto c (A_done r) (s\<lparr>keys_lock := None\<rparr>)" using step A_unlock by (simp add: call_step_def)
    then have "linear A args m0 s' cs rs m"
      using D k A_unlock linear_moves [OF L, of "A_done r" c] by (auto simp: linear_def goto_def)
    then show ?thesis by (rule same)
  next
    case (A_done r)
    then show ?thesis using step by (simp add: call_step_def)
  qed
qed

lemma linear_start: "linear A args m (calls_start m) [] [] m"
  by (simp add: linear_def calls_start_def)

text \<open>What has been decided stays decided: later steps only add calls at the end.\<close>

lemma interleaved_linear:
  assumes "interleaved A args s s'" and "linear A args m0 s cs rs m"
  shows "\<exists>cs' rs' m'. linear A args m0 s' (cs @ cs') rs' m'"
  using assms(1)
proof (induction rule: interleaved.induct)
  case nothing_yet
  show ?case using assms(2) by (metis append_Nil2)
next
  case (moves s' c s'')
  then obtain cs' rs' m' where "linear A args m0 s' (cs @ cs') rs' m'" by blast
  from linear_step [OF this moves.hyps(2)] show ?case by (metis append_assoc)
qed

lemma interleaved_trans: "interleaved A args s0 s \<Longrightarrow> interleaved A args s s' \<Longrightarrow> interleaved A args s0 s'"
  by (rotate_tac 1, induction rule: interleaved.induct) (auto intro: interleaved.moves)

text \<open>A schedule, the calls in the order in which they move.\<close>

fun schedule :: "('h, 'p) dr_api \<Rightarrow> slot_args \<Rightarrow> nat list \<Rightarrow> alloc_state \<Rightarrow> alloc_state option" where
  "schedule A args [] s = Some s"
| "schedule A args (c # cs) s = (case call_step A args c s of None \<Rightarrow> None | Some s' \<Rightarrow> schedule A args cs s')"

lemma schedule_interleaved: "schedule A args cs s = Some s' \<Longrightarrow> interleaved A args s s'"
proof (induction cs arbitrary: s)
  case (Cons c cs)
  then obtain s1 where "call_step A args c s = Some s1" "interleaved A args s1 s'" by (auto split: option.splits)
  then show ?case using interleaved.moves [OF interleaved.nothing_yet] by (blast intro: interleaved_trans)
qed (simp add: interleaved.nothing_yet)

text \<open>Nobody waits for good: while a call has not returned some call can move.\<close>

lemma interleaved_moves:
  assumes "interleaved A args (calls_start m0) s" and "\<forall>r. pcs s c \<noteq> A_done r"
  shows "\<exists>d. call_step A args d s \<noteq> None"
proof -
  obtain cs rs m where "linear A args m0 s cs rs m" using interleaved_linear [OF assms(1) linear_start] by blast
  then have k: "holds_lock (pcs s d) \<longleftrightarrow> keys_lock s = Some d" for d by (simp add: linear_def)
  show ?thesis
  proof (cases "keys_lock s")
    case None
    then have "call_step A args c s \<noteq> None" using assms(2) k [of c] by (cases "pcs s c") (simp_all add: call_step_def Let_def)
    then show ?thesis by blast
  next
    case (Some d)
    then have "call_step A args d s \<noteq> None" using k [of d] by (cases "pcs s d") (simp_all add: call_step_def Let_def)
    then show ?thesis by blast
  qed
qed

subsection \<open>An example\<close>

text \<open>Two threads ask for the array of one key and index; both find no pointer before either has the
  lock, and both get the array that the first one makes.\<close>

definition some_mem :: mem where
  "some_mem = \<lparr>opt_out = [], opt_top = 25, opt_max_slots = 2 ^ 20, opt_trace = 0, opt_rep_expand = True,
     opt_symbols = False, opt_verbose = False, opt_block_counters = True, opt_blocks = False, counter_bytes = 0,
     counter_denied = 0, nallocs = 0, tslots = (\<lambda>_ _. None), narrays = 0, arrays = (\<lambda>_ _. 0), dummy = (\<lambda>_. 0)\<rparr>"

definition same_array :: slot_args where "same_array c = (0, 0)"

definition both_read :: alloc_state where
  "both_read = goto 1 A_lock (goto 0 A_lock (calls_start some_mem))"

definition both_done :: alloc_state where
  "both_done = goto 1 (A_done (Arr 0)) (goto 0 (A_done (Arr 0)) (calls_start (set_pointer same_array 0 0 (account_bytes (new_array some_mem)))))"

lemma both_read_reached: "interleaved assoc_api same_array (calls_start some_mem) both_read"
  by (rule schedule_interleaved [of _ _ "[0, 1]"])
    (simp add: both_read_def calls_start_def call_step_def goto_def pointer_def some_mem_def fun_upd_twist Let_def)

lemma both_done_reached: "interleaved assoc_api same_array both_read both_done"
  by (rule schedule_interleaved [of _ _ "[0, 0, 0, 0, 0, 1, 1, 1]"])
    (simp add: both_read_def both_done_def calls_start_def call_step_def goto_def pointer_def some_mem_def same_array_def
      over_budget_def COUNTER_BUDGET_def account_bytes_def new_array_def set_pointer_def assoc_simps fun_upd_twist Let_def)

lemma both_read_outcome: "outcome (pcs both_read c) = None"
  by (simp add: both_read_def calls_start_def goto_def)

lemma both_done_outcome: "outcome (pcs both_done c) = Some r \<longleftrightarrow> (c, r) \<in> {(0, Arr 0), (1, Arr 0)}"
  by (auto simp: both_done_def calls_start_def goto_def)

lemma both_done_free: "keys_lock both_done = None"
  by (simp add: both_done_def calls_start_def goto_def)

end
