(* ===== verification/Steering.thy ===== *)
theory Steering
  imports Handlers
begin

text \<open>
  Leader and followers on several threads at once. The handlers of \<open>Markers\<close> run as one step each;
  here the part of \<open>begin_common\<close> and \<open>pre_end\<close> that touches what threads share, and the whole of
  \<open>update_shared\<close> and \<open>steer_follower\<close>, are sequences of single reads and writes, and the threads
  take turns between any two of them. The number of threads is fixed, \<open>slots_for\<close> is one step
  (theory \<open>Allocation\<close>), and so is the read of the leader's innermost key. What a handler does to
  statistics, trace and keys is its thread's own or under another lock and is left out.
\<close>

datatype spc =
    Quiet                                             \<comment> \<open>in the program, outside the handlers\<close>
  | Own_slots nat                                     \<comment> \<open>begin: the frame with this key is pushed\<close>
  | Read_shared                                       \<comment> \<open>end: no region is left\<close>
  | Shared_slots "nat option"
  | Store_cur carr bool                               \<comment> \<open>\<open>set_thread_cur\<close>; whether it is in a begin\<close>
  | Store_followed carr bool
  | Ask bool                                          \<comment> \<open>the test before \<open>update_shared\<close>\<close>
  | Enter
  | Choose
  | Read_key
  | Install "nat option"
  | Visit "nat option" "nat list"                     \<comment> \<open>the loop over the threads\<close>
  | Ask_slots "nat option" nat "nat list"
  | Compare "nat option" carr nat "nat list"          \<comment> \<open>\<open>steer_follower\<close>\<close>
  | Exchange "nat option" carr carr nat "nat list"
  | Follow "nat option" carr nat "nat list"
  | Leave

record 'h steering =
  cl :: "'h client"
  leader_lock :: "nat option"
  at :: "nat \<Rightarrow> spc"

definition put :: "nat \<Rightarrow> spc \<Rightarrow> 'h client \<Rightarrow> 'h steering \<Rightarrow> 'h steering" where
  "put i p c s = s\<lparr>cl := c, at := (at s)(i := p)\<rparr>"

text \<open>The leader that \<open>update_shared\<close> settles on when it runs on thread \<open>i\<close>.\<close>

definition choose_leader :: "nat \<Rightarrow> ('h, 'z) client_scheme \<Rightarrow> nat option" where
  "choose_leader i c = (case leader c of
     Some l \<Rightarrow> if alive (thr c l) then Some l else if 0 < depth (thr c i) then Some i else None
   | None \<Rightarrow> if 0 < depth (thr c i) then Some i else None)"

definition steer_step :: "('h, 'p) dr_api \<Rightarrow> nat \<Rightarrow> 'h steering \<Rightarrow> 'h steering option" where
  "steer_step A i s = (let c = cl s in case at s i of
     Quiet \<Rightarrow> None
   | Own_slots k \<Rightarrow>
       (let (a, c') = slots_for A (Some k) (index (thr c i)) c
        in Some (put i (Store_cur a True) (upd_thr i (\<lambda>t. t\<lparr>stack := upd_last (\<lambda>f. f\<lparr>f_cur := a\<rparr>) (stack t)\<rparr>) c') s))
   | Read_shared \<Rightarrow> Some (put i (Shared_slots (shared_key c)) c s)
   | Shared_slots nk \<Rightarrow>
       (let (a, c') = slots_for A nk (index (thr c i)) c in Some (put i (Store_cur a False) c' s))
   | Store_cur a b \<Rightarrow> Some (put i (Store_followed a b) (upd_thr i (\<lambda>t. t\<lparr>cur := a\<rparr>) c) s)
   | Store_followed a b \<Rightarrow> Some (put i (Ask b) (upd_thr i (\<lambda>t. t\<lparr>followed := a\<rparr>) c) s)
   | Ask b \<Rightarrow> Some
       (if leader c = Some i \<or> b \<and> leader c = None
        then if nthreads_seen c \<le> 1 then put i Quiet (update_shared A (Some i) c) s else put i Enter c s
        else put i Quiet c s)
   | Enter \<Rightarrow> (case leader_lock s of None \<Rightarrow> Some (put i Choose c (s\<lparr>leader_lock := Some i\<rparr>)) | Some _ \<Rightarrow> None)
   | Choose \<Rightarrow> Some (put i Read_key (c\<lparr>leader := choose_leader i c\<rparr>) s)
   | Read_key \<Rightarrow> Some (put i (Install (case leader c of None \<Rightarrow> None | Some l \<Rightarrow> top_key (thr c l))) c s)
   | Install nk \<Rightarrow> Some
       (if nk \<noteq> shared_key c then put i (Visit nk (rev [0..<length (threads c)])) (c\<lparr>shared_key := nk\<rparr>) s
        else put i Leave c s)
   | Visit nk ts \<Rightarrow> Some
       (case ts of
          [] \<Rightarrow> put i Leave c s
        | t # ts \<Rightarrow> put i (if alive (thr c t) \<and> depth (thr c t) = 0 then Ask_slots nk t ts else Visit nk ts) c s)
   | Ask_slots nk t ts \<Rightarrow>
       (let (a, c') = slots_for A nk (index (thr c t)) c in Some (put i (Compare nk a t ts) c' s))
   | Compare nk a t ts \<Rightarrow> Some (put i (Exchange nk a (followed (thr c t)) t ts) c s)
   | Exchange nk a f t ts \<Rightarrow> Some
       (if cur (thr c t) = f then put i (Follow nk a t ts) (upd_thr t (\<lambda>t. t\<lparr>cur := a\<rparr>) c) s
        else put i (Visit nk ts) c s)
   | Follow nk a t ts \<Rightarrow> Some (put i (Visit nk ts) (upd_thr t (\<lambda>t. t\<lparr>followed := a\<rparr>) c) s)
   | Leave \<Rightarrow> Some (put i Quiet c (s\<lparr>leader_lock := None\<rparr>)))"

text \<open>A begin of the key \<open>f_key f\<close> pushes its frame, whose pointer is set in the next step; an end
  keeps the outer \<open>d\<close> frames.\<close>

definition open_region :: "nat \<Rightarrow> frame \<Rightarrow> 'h steering \<Rightarrow> 'h steering option" where
  "open_region i f s =
     (if at s i = Quiet \<and> i < length (threads (cl s)) \<and> alive (thr (cl s) i) \<and> depth (thr (cl s) i) < MAX_DEPTH
      then Some (put i (Own_slots (f_key f)) (upd_thr i (\<lambda>t. t\<lparr>stack := stack t @ [f\<lparr>f_cur := Dummy\<rparr>]\<rparr>) (cl s)) s)
      else None)"

definition close_regions :: "nat \<Rightarrow> nat \<Rightarrow> 'h steering \<Rightarrow> 'h steering option" where
  "close_regions i d s =
     (if at s i = Quiet \<and> i < length (threads (cl s)) \<and> alive (thr (cl s) i) \<and> d < depth (thr (cl s) i)
      then (let st = take d (stack (thr (cl s) i))
            in Some (put i (if st = [] then Read_shared else Store_cur (f_cur (last st)) False)
                 (upd_thr i (\<lambda>t. t\<lparr>stack := st\<rparr>) (cl s)) s))
      else None)"

inductive steered :: "('h, 'p) dr_api \<Rightarrow> 'h steering \<Rightarrow> 'h steering \<Rightarrow> bool" for A s0 where
  begins: "steered A s0 s0"
| opens: "steered A s0 s \<Longrightarrow> open_region i f s = Some s' \<Longrightarrow> steered A s0 s'"
| closes: "steered A s0 s \<Longrightarrow> close_regions i d s = Some s' \<Longrightarrow> steered A s0 s'"
| moves: "steered A s0 s \<Longrightarrow> steer_step A i s = Some s' \<Longrightarrow> steered A s0 s'"

subsection \<open>One thread alone\<close>

lemma put_simps [simp]:
  "cl (put i p c s) = c" "leader_lock (put i p c s) = leader_lock s"
  "at (put i p c s) = (at s)(i := p)" "put i q d (put i p c s) = put i q d s"
  "(put i p c s)\<lparr>leader_lock := l\<rparr> = put i p c (s\<lparr>leader_lock := l\<rparr>)"
  by (simp_all add: put_def)

text \<open>The handlers' ends, as \<open>Markers\<close> has them in one step.\<close>

definition begin_shared :: "('h, 'p) dr_api \<Rightarrow> nat \<Rightarrow> frame \<Rightarrow> ('h, 'z) client_scheme \<Rightarrow> ('h, 'z) client_scheme" where
  "begin_shared A i f c =
     (let (a, c1) = slots_for A (Some (f_key f)) (index (thr c i)) c;
          c2 = set_thread_cur i a (upd_thr i (\<lambda>u. u\<lparr>stack := stack u @ [f\<lparr>f_cur := a\<rparr>]\<rparr>) c1)
      in if leader c2 = None \<or> leader c2 = Some i then update_shared A (Some i) c2 else c2)"

definition end_shared :: "('h, 'p) dr_api \<Rightarrow> nat \<Rightarrow> ('h, 'z) client_scheme \<Rightarrow> ('h, 'z) client_scheme" where
  "end_shared A i c =
     (let c1 = (if 0 < depth (thr c i) then set_thread_cur i (f_cur (last (stack (thr c i)))) c
                else (let (a, c') = slots_for A (shared_key c) (index (thr c i)) c in set_thread_cur i a c'))
      in if leader c1 = Some i then update_shared A (Some i) c1 else c1)"

lemma begin_common_shared:
  assumes res: "begin_common A i reg sts now c = Some c'" and i: "i < length (threads c)"
    and d: "depth (thr c i) < MAX_DEPTH"
  obtains f d where "c' = begin_shared A i f d" "stack (thr d i) = stack (thr c i)" "leader d = leader c"
    "shared_key d = shared_key c" "length (threads d) = length (threads c)"
proof -
  obtain k t' c1 where
    same: "same_keyst (c\<lparr>marker_seen := True\<rparr>) c1" "same_caches (thr c i) t'"
    and c': "c' = (let c6 = begun A i k now t' c1 in
       if leader c1 = None \<or> leader c1 = Some i then update_shared A (Some i) c6 else c6)"
    by (rule begin_common_eq [OF assms])
  define d where "d = upd_thr i (\<lambda>_. t') (if 0 < opt_trace c1 then c1\<lparr>seq_counter := seq_counter c1 + 1\<rparr> else c1)"
  define f where "f = \<lparr>f_key = k, f_cur = Dummy, total_at_begin = total t', sys_at_begin = sys t', children_incl = 0,
    seq_begin = (if 0 < opt_trace c1 then seq_counter c1 + 1 else 0),
    t_begin_us = (if 0 < opt_trace c1 then now else 0), f_states = []\<rparr>"
  have t: "thr d i = t'" "leader d = leader c1" using i same_keyst_client(1) [OF same(1)] by (simp_all add: d_def)
  obtain a c4 where s: "slots_for A (Some k) (index t') d = (a, c4)" by (cases "slots_for A (Some k) (index t') d")
  have c4: "c4 = snd (slots_for A (Some k) (index t') d)" by (simp add: s)
  have b: "begun A i k now t' c1 = set_thread_cur i a (upd_thr i (\<lambda>u. u\<lparr>stack := stack u @ [f\<lparr>f_cur := a\<rparr>]\<rparr>) c4)"
    unfolding begun_def Let_def d_def [symmetric] s prod.case set_thread_cur_def upd_thr_upd_thr
    by (rule upd_thr_cong) (simp add: c4 t f_def)
  have "leader (begun A i k now t' c1) = leader c1" by (simp add: b set_thread_cur_def c4 t)
  moreover have "f_key f = k" by (simp add: f_def)
  ultimately have "c' = begin_shared A i f d"
    unfolding c' begin_shared_def by (simp add: s t(1) b Let_def)
  then show thesis
    using that same_keyst_client [OF same(1)] same_caches_thread(1) [OF same(2)] t by (simp add: d_def)
qed

lemma pre_end_shared:
  assumes "pre_end A i reg now c = Some c'" and "i < length (threads c)"
    and "find_frame (keys c) (stack (thr c i)) (region_name reg) (depth (thr c i)) = Some j"
  obtains d where "c' = end_shared A i d"
proof (rule pre_end_eq [OF assms])
  fix d assume "c' = (let c4 = reinstall A i d in if leader c4 = Some i then update_shared A (Some i) c4 else c4)"
  then show thesis using that by (simp only: end_shared_def reinstall_def set_own_def)
qed

abbreviation solo :: "('h, 'p) dr_api \<Rightarrow> nat \<Rightarrow> 'h steering \<Rightarrow> 'h steering \<Rightarrow> bool" where
  "solo A i \<equiv> (\<lambda>s s'. steer_step A i s = Some s')\<^sup>*\<^sup>*"

lemma solo_one: "steer_step A i s = Some s' \<Longrightarrow> solo A i s s'"
  by (rule r_into_rtranclp)

lemma solo_trans: "solo A i s s' \<Longrightarrow> solo A i s' s'' \<Longrightarrow> solo A i s s''"
  by (rule rtranclp_trans)

lemma steer_solo:
  "solo A i (put i (Ask_slots nk t ts) c s)
     (put i (Visit nk ts) (let (a, c') = slots_for A nk (index (thr c t)) c in steer_follower t a c') s)"
proof -
  obtain a c' where a: "slots_for A nk (index (thr c t)) c = (a, c')" by (cases "slots_for A nk (index (thr c t)) c")
  let ?f = "followed (thr c' t)"
  have 1: "solo A i (put i (Ask_slots nk t ts) c s) (put i (Compare nk a t ts) c' s)"
    by (rule solo_one) (simp add: steer_step_def a)
  have 2: "solo A i (put i (Compare nk a t ts) c' s) (put i (Exchange nk a ?f t ts) c' s)"
    by (rule solo_one) (simp add: steer_step_def)
  have "solo A i (put i (Exchange nk a ?f t ts) c' s) (put i (Visit nk ts) (steer_follower t a c') s)"
  proof (cases "cur (thr c' t) = ?f")
    case True
    let ?c = "upd_thr t (\<lambda>t. t\<lparr>cur := a\<rparr>) c'"
    have "steer_follower t a c' = upd_thr t (\<lambda>t. t\<lparr>followed := a\<rparr>) ?c"
      unfolding steer_follower_def upd_thr_upd_thr by (rule upd_thr_cong) (simp add: True)
    moreover have "solo A i (put i (Exchange nk a ?f t ts) c' s) (put i (Follow nk a t ts) ?c s)"
      by (rule solo_one) (simp add: steer_step_def True)
    moreover have "solo A i (put i (Follow nk a t ts) ?c s) (put i (Visit nk ts) (upd_thr t (\<lambda>t. t\<lparr>followed := a\<rparr>) ?c) s)"
      by (rule solo_one) (simp add: steer_step_def)
    ultimately show ?thesis by (metis solo_trans)
  next
    case False
    then have "steer_follower t a c' = c'" by (simp add: steer_follower_def upd_thr_def upd_nth_def)
    then show ?thesis using False by (intro solo_one) (simp add: steer_step_def)
  qed
  with 1 2 show ?thesis unfolding a prod.case Let_def by (blast intro: solo_trans)
qed

lemma visit_solo: "solo A i (put i (Visit nk ts) c s) (put i Leave (steer_all A nk ts c) s)"
proof (induction ts arbitrary: c)
  case Nil
  show ?case by (rule solo_one) (simp add: steer_step_def)
next
  case (Cons t ts)
  have "solo A i (put i (Visit nk (t # ts)) c s)
      (put i (if alive (thr c t) \<and> depth (thr c t) = 0 then Ask_slots nk t ts else Visit nk ts) c s)"
    by (rule solo_one) (simp add: steer_step_def)
  then show ?case using solo_trans [OF steer_solo Cons.IH] Cons.IH by (auto intro: solo_trans split: if_splits)
qed

lemma update_solo:
  assumes "leader_lock s = None" and "\<not> nthreads_seen c \<le> 1"
  shows "solo A i (put i Enter c s) (put i Quiet (update_shared A (Some i) c) s)"
proof -
  let ?s = "s\<lparr>leader_lock := Some i\<rparr>" and ?c = "c\<lparr>leader := choose_leader i c\<rparr>"
  let ?nk = "case choose_leader i c of None \<Rightarrow> None | Some l \<Rightarrow> top_key (thr c l)"
  let ?d = "if ?nk \<noteq> shared_key c then steer_all A ?nk (rev [0..<length (threads c)]) (?c\<lparr>shared_key := ?nk\<rparr>) else ?c"
  have "s\<lparr>leader_lock := None\<rparr> = s" using assms(1) by (cases s) simp
  then have 5: "solo A i (put i Leave d ?s) (put i Quiet d s)" for d by (intro solo_one) (simp add: steer_step_def)
  have 1: "solo A i (put i Enter c s) (put i Choose c ?s)" using assms(1) by (intro solo_one) (simp add: steer_step_def)
  have 2: "solo A i (put i Choose c ?s) (put i Read_key ?c ?s)" by (rule solo_one) (simp add: steer_step_def)
  have 3: "solo A i (put i Read_key ?c ?s) (put i (Install ?nk) ?c ?s)"
    by (rule solo_one) (simp add: steer_step_def cong: option.case_cong)
  have 4: "solo A i (put i (Install ?nk) ?c ?s) (put i Leave ?d ?s)"
  proof (cases "?nk \<noteq> shared_key c")
    case True
    then have "solo A i (put i (Install ?nk) ?c ?s)
        (put i (Visit ?nk (rev [0..<length (threads c)])) (?c\<lparr>shared_key := ?nk\<rparr>) ?s)"
      by (intro solo_one) (simp add: steer_step_def)
    from solo_trans [OF this visit_solo] True show ?thesis by simp
  next
    case False
    then show ?thesis by (intro solo_one) (simp add: steer_step_def)
  qed
  have "update_shared A (Some i) c = ?d"
    using assms(2) by (simp add: update_shared_def choose_leader_def Let_def split: option.split)
  then show ?thesis using solo_trans [OF 1 solo_trans [OF 2 solo_trans [OF 3 solo_trans [OF 4 5]]]] by simp
qed

lemma ask_solo:
  assumes "leader_lock s = None"
  shows "solo A i (put i (Ask b) c s)
    (put i Quiet (if leader c = Some i \<or> b \<and> leader c = None then update_shared A (Some i) c else c) s)"
proof (cases "(leader c = Some i \<or> b \<and> leader c = None) \<and> \<not> nthreads_seen c \<le> 1")
  case True
  then have "solo A i (put i (Ask b) c s) (put i Enter c s)" by (intro solo_one) (simp add: steer_step_def)
  from solo_trans [OF this update_solo [OF assms]] True show ?thesis by simp
next
  case False
  then show ?thesis by (intro solo_one) (auto simp: steer_step_def)
qed

lemma set_solo: "solo A i (put i (Store_cur a b) c s) (put i (Ask b) (set_thread_cur i a c) s)"
proof -
  let ?c = "upd_thr i (\<lambda>t. t\<lparr>cur := a\<rparr>) c"
  have "solo A i (put i (Store_cur a b) c s) (put i (Store_followed a b) ?c s)" by (rule solo_one) (simp add: steer_step_def)
  moreover have "solo A i (put i (Store_followed a b) ?c s) (put i (Ask b) (upd_thr i (\<lambda>t. t\<lparr>followed := a\<rparr>) ?c) s)"
    by (rule solo_one) (simp add: steer_step_def)
  moreover have "upd_thr i (\<lambda>t. t\<lparr>followed := a\<rparr>) ?c = set_thread_cur i a c"
    unfolding set_thread_cur_def upd_thr_upd_thr by (rule upd_thr_cong) simp
  ultimately show ?thesis by (metis solo_trans)
qed

text \<open>\<open>slots_for\<close> looks at no thread.\<close>

lemma slots_for_upd_thr: "slots_for A ko j (upd_thr i g c) = (fst (slots_for A ko j c), upd_thr i g (snd (slots_for A ko j c)))"
  by (simp add: slots_for_def slots_for_locked_def upd_thr_def Let_def split: option.split)

lemma begin_alone:
  assumes "open_region i f s = Some s1" and "leader_lock s = None"
  shows "solo A i s1 (put i Quiet (begin_shared A i f (cl s)) s)"
proof -
  let ?push = "\<lambda>a. upd_thr i (\<lambda>u. u\<lparr>stack := stack u @ [f\<lparr>f_cur := a\<rparr>]\<rparr>)"
  have i: "i < length (threads (cl s))" and s1: "s1 = put i (Own_slots (f_key f)) (?push Dummy (cl s)) s"
    using assms(1) by (auto simp: open_region_def split: if_splits)
  obtain a c1 where a: "slots_for A (Some (f_key f)) (index (thr (cl s) i)) (cl s) = (a, c1)"
    by (cases "slots_for A (Some (f_key f)) (index (thr (cl s) i)) (cl s)")
  have "upd_thr i (\<lambda>t. t\<lparr>stack := upd_last (\<lambda>f. f\<lparr>f_cur := a\<rparr>) (stack t)\<rparr>) (?push Dummy c1) = ?push a c1"
    unfolding upd_thr_upd_thr by (rule upd_thr_cong) simp
  then have "solo A i s1 (put i (Store_cur a True) (?push a c1) s)"
    using i by (intro solo_one) (simp add: s1 steer_step_def slots_for_upd_thr a)
  from solo_trans [OF this solo_trans [OF set_solo ask_solo [OF assms(2)]]]
  show ?thesis by (simp add: begin_shared_def a Let_def disj_commute)
qed

lemma end_alone:
  assumes "close_regions i d s = Some s1" and "leader_lock s = None"
  shows "solo A i s1 (put i Quiet (end_shared A i (cl s1)) s)"
proof -
  define c where "c = upd_thr i (\<lambda>t. t\<lparr>stack := take d (stack (thr (cl s) i))\<rparr>) (cl s)"
  have t: "stack (thr c i) = take d (stack (thr (cl s) i))" and
    s1: "s1 = put i (if stack (thr c i) = [] then Read_shared else Store_cur (f_cur (last (stack (thr c i)))) False) c s"
    using assms(1) by (auto simp: close_regions_def c_def Let_def split: if_splits)
  show ?thesis
  proof (cases "stack (thr c i) = []")
    case True
    obtain a c' where a: "slots_for A (shared_key c) (index (thr c i)) c = (a, c')"
      by (cases "slots_for A (shared_key c) (index (thr c i)) c")
    have 1: "solo A i s1 (put i (Shared_slots (shared_key c)) c s)"
      using True by (intro solo_one) (simp add: s1 steer_step_def)
    have 2: "solo A i (put i (Shared_slots (shared_key c)) c s) (put i (Store_cur a False) c' s)"
      by (rule solo_one) (simp add: steer_step_def a)
    have 3: "solo A i (put i (Store_cur a False) c' s) (put i Quiet (end_shared A i c) s)"
      using solo_trans [OF set_solo ask_solo [OF assms(2), of A i False]] True by (simp add: end_shared_def a Let_def)
    from solo_trans [OF 1 solo_trans [OF 2 3]] show ?thesis by (simp add: s1)
  next
    case False
    then show ?thesis
      using solo_trans [OF set_solo ask_solo [OF assms(2), of A i False]] by (simp add: s1 end_shared_def Let_def)
  qed
qed

subsection \<open>The lock\<close>

fun in_update :: "spc \<Rightarrow> bool" where
  "in_update Choose = True"
| "in_update Read_key = True"
| "in_update (Install nk) = True"
| "in_update (Visit nk ts) = True"
| "in_update (Ask_slots nk t ts) = True"
| "in_update (Compare nk a t ts) = True"
| "in_update (Exchange nk a f t ts) = True"
| "in_update (Follow nk a t ts) = True"
| "in_update Leave = True"
| "in_update _ = False"

definition lock_ok :: "'h steering \<Rightarrow> bool" where
  "lock_ok s \<longleftrightarrow> (\<forall>i. in_update (at s i) \<longleftrightarrow> leader_lock s = Some i)"

lemma lock_ok_put: "lock_ok s \<Longrightarrow> in_update p = in_update (at s i) \<Longrightarrow> lock_ok (put i p c s)"
  by (simp add: lock_ok_def)

lemma lock_ok_step:
  assumes "lock_ok s" and "steer_step A i s = Some s'"
  shows "lock_ok s'"
proof (cases "at s i")
  case Enter
  then have "leader_lock s = None" "s' = put i Choose (cl s) (s\<lparr>leader_lock := Some i\<rparr>)"
    using assms(2) by (auto simp: steer_step_def split: option.splits)
  then show ?thesis using assms(1) by (auto simp: lock_ok_def)
next
  case Leave
  then have "s' = put i Quiet (cl s) (s\<lparr>leader_lock := None\<rparr>)" using assms(2) by (simp add: steer_step_def)
  then show ?thesis using assms(1) Leave by (auto simp: lock_ok_def)
qed (use assms in \<open>auto simp: steer_step_def Let_def intro!: lock_ok_put split: if_splits prod.splits list.splits\<close>)

lemma lock_ok_steered:
  assumes "steered A s0 s" and "lock_ok s0"
  shows "lock_ok s"
  using assms(1)
proof induction
  case (opens s i f s')
  then show ?case by (auto simp: open_region_def intro!: lock_ok_put split: if_splits)
next
  case (closes s i d s')
  then show ?case by (auto simp: close_regions_def Let_def intro!: lock_ok_put split: if_splits)
qed (use assms(2) lock_ok_step in blast)+

text \<open>Handlers do not block each other for good: while one is under way, some thread can take a step.\<close>

lemma steer_step_moves:
  assumes "at s i \<noteq> Quiet" and "at s i = Enter \<Longrightarrow> leader_lock s = None"
  shows "steer_step A i s \<noteq> None"
  using assms by (cases "at s i") (simp_all add: steer_step_def Let_def split: prod.split)

lemma steered_moves:
  assumes "lock_ok s" and "at s i \<noteq> Quiet"
  shows "\<exists>j. steer_step A j s \<noteq> None"
proof (cases "leader_lock s")
  case None
  then show ?thesis using steer_step_moves [OF assms(2)] by blast
next
  case (Some j)
  then have "in_update (at s j)" using assms(1) by (simp add: lock_ok_def)
  then have "at s j \<noteq> Quiet" "at s j \<noteq> Enter" by auto
  then show ?thesis using steer_step_moves [of s j] by blast
qed

subsection \<open>Whose array a pointer names\<close>

text \<open>An array of the thread \<open>i\<close> itself, of whatever key.\<close>

definition own_array :: "('h, 'z) client_scheme \<Rightarrow> nat \<Rightarrow> carr \<Rightarrow> bool" where
  "own_array c i a \<longleftrightarrow> (case a of Dummy \<Rightarrow> True | Arr x \<Rightarrow> \<exists>k. tslots c k (index (thr c i)) = Some x)"

definition own_pointers :: "('h, 'z) client_scheme \<Rightarrow> nat \<Rightarrow> bool" where
  "own_pointers c i \<longleftrightarrow> (i < length (threads c) \<longrightarrow> alive (thr c i) \<longrightarrow>
     own_array c i (cur (thr c i)) \<and> (\<forall>f \<in> set (stack (thr c i)). own_array c i (f_cur f)))"

fun aims :: "('h, 'z) client_scheme \<Rightarrow> nat \<Rightarrow> spc \<Rightarrow> bool" where
  "aims c i (Store_cur a b) = own_array c i a"
| "aims c i (Compare nk a t ts) = own_array c t a"
| "aims c i (Exchange nk a f t ts) = own_array c t a"
| "aims c i _ = True"

definition private_ok :: "'h steering \<Rightarrow> bool" where
  "private_ok s \<longleftrightarrow> mem_inv (cl s) \<and> (\<forall>i. own_pointers (cl s) i) \<and> (\<forall>i. aims (cl s) i (at s i))"

definition mem_grows :: "('h, 'z) client_scheme \<Rightarrow> ('h, 'z) client_scheme \<Rightarrow> bool" where
  "mem_grows c c' \<longleftrightarrow> (mem_inv c \<longrightarrow> mem_inv c') \<and> length (threads c') = length (threads c) \<and>
     (\<forall>t. index (thr c' t) = index (thr c t)) \<and> (\<forall>k i x. tslots c k i = Some x \<longrightarrow> tslots c' k i = Some x)"

lemma mem_grows_refl [simp]: "mem_grows c c"
  by (simp add: mem_grows_def)

lemma mem_grows_trans: "mem_grows c c' \<Longrightarrow> mem_grows c' c'' \<Longrightarrow> mem_grows c c''"
  by (simp add: mem_grows_def)

lemma mem_grows_slots: "mem_grows c (snd (slots_for A ko j c))"
  by (simp add: mem_grows_def slots_for_inv slots_for_keeps)

lemma mem_grows_upd_thr:
  assumes "\<And>t. index (f t) = index t"
  shows "mem_grows c (upd_thr i f c)"
proof -
  have "index (thr (upd_thr i f c) t) = index (thr c t)" for t using assms by (simp add: thr_upd_thr_if)
  then show ?thesis by (simp add: mem_grows_def upd_thr_def mem_inv_def opts_ok_def)
qed

lemma own_array_grows: "own_array c i a \<Longrightarrow> mem_grows c c' \<Longrightarrow> own_array c' i a"
  by (cases a) (simp_all add: own_array_def mem_grows_def, blast)

lemma own_array_slots: "slots_for A ko (index (thr c i)) c = (a, c') \<Longrightarrow> own_array c' i a"
  using slots_for_Arr [of A ko "index (thr c i)" c _ c'] client_slots_for(1) [of A ko "index (thr c i)" c]
  by (auto simp: own_array_def split: carr.split)

lemma aims_grows: "aims c i p \<Longrightarrow> mem_grows c c' \<Longrightarrow> aims c' i p"
  by (cases p) (auto intro: own_array_grows)

lemma own_pointers_slots: "own_pointers c t \<Longrightarrow> own_pointers (snd (slots_for A ko j c)) t"
  by (auto simp: own_pointers_def intro: own_array_grows [OF _ mem_grows_slots])

lemma own_pointers_upd:
  assumes "own_pointers c t" and "\<And>u. index (f u) = index u" and "\<And>u. alive (f u) = alive u"
    and "t = i \<Longrightarrow> i < length (threads c) \<Longrightarrow> alive (thr c i) \<Longrightarrow> own_array c i (cur (f (thr c i))) \<and> (\<forall>x \<in> set (stack (f (thr c i))). own_array c i (f_cur x))"
  shows "own_pointers (upd_thr i f c) t"
  using assms(1,4) own_array_grows [OF _ mem_grows_upd_thr [OF assms(2)], of c]
  by (simp add: own_pointers_def thr_upd_thr_if assms(3))

lemma private_put:
  assumes "private_ok s" and "mem_grows (cl s) c" and "\<And>t. own_pointers c t" and "aims c i p"
  shows "private_ok (put i p c s)"
  using assms by (auto simp: private_ok_def mem_grows_def [of "cl s" c] intro: aims_grows [OF _ assms(2)])

lemma private_slots:
  assumes P: "private_ok s" and a: "slots_for A ko j (cl s) = (a, c')" and "aims c' i p"
  shows "private_ok (put i p c' s)"
proof -
  have c': "c' = snd (slots_for A ko j (cl s))" by (simp add: a)
  show ?thesis
    by (rule private_put [OF P]) (use P assms(3) in \<open>simp_all add: c' mem_grows_slots own_pointers_slots private_ok_def\<close>)
qed

lemma set_own_grows:
  assumes "mem_inv c" and "\<forall>t. own_pointers c t"
  shows "mem_grows c (set_own A ko i c)" "own_pointers (set_own A ko i c) t"
proof -
  obtain a c' where a: "slots_for A ko (index (thr c i)) c = (a, c')" by (cases "slots_for A ko (index (thr c i)) c")
  have c': "c' = snd (slots_for A ko (index (thr c i)) c)" by (simp add: a)
  have s: "set_own A ko i c = upd_thr i (\<lambda>t. t\<lparr>cur := a, followed := a\<rparr>) c'"
    by (simp add: set_own_def a set_thread_cur_def)
  have own: "own_pointers c' t" for t using assms(2) by (simp add: c' own_pointers_slots)
  show "mem_grows c (set_own A ko i c)"
    unfolding s using mem_grows_slots [of c A ko "index (thr c i)"] by (intro mem_grows_trans [OF _ mem_grows_upd_thr]) (simp_all add: c')
  show "own_pointers (set_own A ko i c) t"
    unfolding s by (rule own_pointers_upd [OF own]) (use own own_array_slots [OF a] in \<open>simp_all add: own_pointers_def\<close>)
qed

lemma mem_grows_roles [simp]: "mem_grows c (c'\<lparr>leader := l\<rparr>) = mem_grows c c'" "mem_grows c (c'\<lparr>shared_key := k\<rparr>) = mem_grows c c'"
  by (simp_all add: mem_grows_def mem_inv_def opts_ok_def)

lemma own_pointers_roles [simp]:
  "own_pointers (c\<lparr>leader := l\<rparr>) t = own_pointers c t" "own_pointers (c\<lparr>shared_key := k\<rparr>) t = own_pointers c t"
  by (simp_all add: own_pointers_def own_array_def cong: carr.case_cong)

lemma update_one_thread:
  assumes "nthreads_seen c \<le> 1" and "mem_inv c" and "\<forall>t. own_pointers c t"
  shows "mem_grows c (update_shared A (Some i) c)" "own_pointers (update_shared A (Some i) c) t"
proof -
  define l where "l = (if 0 < depth (thr c i) then Some i else None)"
  define sk where "sk = (case l of None \<Rightarrow> None | Some i \<Rightarrow> top_key (thr c i))"
  let ?c = "c\<lparr>leader := l, shared_key := sk\<rparr>"
  have u: "update_shared A (Some i) c = (if depth (thr c i) = 0 then set_own A sk i ?c else ?c)"
    using assms(1) by (simp add: update_shared_def l_def sk_def set_own_def Let_def)
  have m: "mem_inv ?c" "\<forall>t. own_pointers ?c t" using assms(2,3) by (simp_all add: mem_inv_def opts_ok_def)
  have g: "mem_grows c ?c" by simp
  show "mem_grows c (update_shared A (Some i) c)" unfolding u using mem_grows_trans [OF g set_own_grows(1) [OF m, of A sk i]] by simp
  show "own_pointers (update_shared A (Some i) c) t" unfolding u using set_own_grows(2) [OF m, of A sk i t] assms(3) by simp
qed

lemma private_step:
  assumes P: "private_ok s" and step: "steer_step A i s = Some s'"
  shows "private_ok s'"
proof -
  have own: "own_pointers (cl s) t" and aim: "aims (cl s) t (at s t)" for t using P by (simp_all add: private_ok_def)
  have same: "private_ok (put i p (cl s) s)" if "aims (cl s) i p" for p by (rule private_put [OF P mem_grows_refl own that])
  have upd: "private_ok (put i p (upd_thr t f (cl s)) s)"
    if "\<And>u. index (f u) = index u" "\<And>u. alive (f u) = alive u" "\<And>u. stack (f u) = stack u"
      "t < length (threads (cl s)) \<Longrightarrow> alive (thr (cl s) t) \<Longrightarrow> own_array (cl s) t (cur (f (thr (cl s) t)))" "aims (upd_thr t f (cl s)) i p" for p t f
    by (rule private_put [OF P mem_grows_upd_thr own_pointers_upd [OF own]]) (use that own in \<open>auto simp: own_pointers_def\<close>)
  show ?thesis
  proof (cases "at s i")
    case (Own_slots k)
    obtain a c' where a: "slots_for A (Some k) (index (thr (cl s) i)) (cl s) = (a, c')"
      by (cases "slots_for A (Some k) (index (thr (cl s) i)) (cl s)")
    have c': "c' = snd (slots_for A (Some k) (index (thr (cl s) i)) (cl s))" by (simp add: a)
    let ?f = "\<lambda>t. t\<lparr>stack := upd_last (\<lambda>f. f\<lparr>f_cur := a\<rparr>) (stack t)\<rparr>"
    have own': "own_pointers c' t" for t using own by (simp add: c' own_pointers_slots)
    have "s' = put i (Store_cur a True) (upd_thr i ?f c') s" using step Own_slots by (simp add: steer_step_def a)
    moreover have "own_pointers (upd_thr i ?f c') t" for t
      by (rule own_pointers_upd [OF own'])
        (use own' own_array_slots [OF a] in \<open>auto simp: own_pointers_def upd_last_def dest: in_set_butlastD\<close>)
    moreover have "mem_grows c' (upd_thr i ?f c')" by (rule mem_grows_upd_thr) simp
    ultimately show ?thesis
      using mem_grows_trans [OF mem_grows_slots, of A "Some k" "index (thr (cl s) i)" "cl s"] own_array_grows [OF own_array_slots [OF a]]
      by (auto simp: c' intro!: private_put [OF P])
  next
    case (Shared_slots nk)
    obtain a c' where a: "slots_for A nk (index (thr (cl s) i)) (cl s) = (a, c')" by (cases "slots_for A nk (index (thr (cl s) i)) (cl s)")
    then have "s' = put i (Store_cur a False) c' s" using step Shared_slots by (simp add: steer_step_def)
    then show ?thesis using private_slots [OF P a] own_array_slots [OF a] by simp
  next
    case (Ask_slots nk t ts)
    obtain a c' where a: "slots_for A nk (index (thr (cl s) t)) (cl s) = (a, c')" by (cases "slots_for A nk (index (thr (cl s) t)) (cl s)")
    then have "s' = put i (Compare nk a t ts) c' s" using step Ask_slots by (simp add: steer_step_def)
    then show ?thesis using private_slots [OF P a] own_array_slots [OF a] by simp
  next
    case (Store_cur a b)
    then have "s' = put i (Store_followed a b) (upd_thr i (\<lambda>t. t\<lparr>cur := a\<rparr>) (cl s)) s" using step by (simp add: steer_step_def)
    then show ?thesis using aim [of i] Store_cur by (simp add: upd)
  next
    case (Store_followed a b)
    then have "s' = put i (Ask b) (upd_thr i (\<lambda>t. t\<lparr>followed := a\<rparr>) (cl s)) s" using step by (simp add: steer_step_def)
    then show ?thesis using own [of i] by (simp add: upd own_pointers_def)
  next
    case (Exchange nk a f t ts)
    then have "s' = (if cur (thr (cl s) t) = f then put i (Follow nk a t ts) (upd_thr t (\<lambda>t. t\<lparr>cur := a\<rparr>) (cl s)) s
        else put i (Visit nk ts) (cl s) s)" using step by (simp add: steer_step_def Let_def)
    then show ?thesis using aim [of i] Exchange by (simp add: upd same)
  next
    case (Follow nk a t ts)
    then have "s' = put i (Visit nk ts) (upd_thr t (\<lambda>t. t\<lparr>followed := a\<rparr>) (cl s)) s" using step by (simp add: steer_step_def)
    then show ?thesis using own [of t] by (simp add: upd own_pointers_def)
  next
    case (Ask b)
    have m: "mem_inv (cl s)" "\<forall>t. own_pointers (cl s) t" using P by (simp_all add: private_ok_def)
    have "private_ok (put i Quiet (update_shared A (Some i) (cl s)) s)" if "nthreads_seen (cl s) \<le> 1"
      by (rule private_put [OF P update_one_thread [OF that m]]) simp
    then show ?thesis using step Ask same by (auto simp: steer_step_def Let_def split: if_splits)
  next
    case Choose
    then have "s' = put i Read_key ((cl s)\<lparr>leader := choose_leader i (cl s)\<rparr>) s" using step by (simp add: steer_step_def Let_def)
    then show ?thesis using own by (simp add: private_put [OF P])
  next
    case (Install nk)
    have "private_ok (put i (Visit nk ts) ((cl s)\<lparr>shared_key := nk\<rparr>) s)" for ts using own by (simp add: private_put [OF P])
    then show ?thesis using step Install same by (auto simp: steer_step_def Let_def split: if_splits)
  next
    case Enter
    then have "s' = put i Choose (cl s) (s\<lparr>leader_lock := Some i\<rparr>)" using step by (auto simp: steer_step_def split: option.splits)
    then show ?thesis using P by (simp add: private_ok_def)
  next
    case Leave
    then have "s' = put i Quiet (cl s) (s\<lparr>leader_lock := None\<rparr>)" using step by (simp add: steer_step_def)
    then show ?thesis using P by (simp add: private_ok_def)
  next
    case (Compare nk a t ts)
    then have "s' = put i (Exchange nk a (followed (thr (cl s) t)) t ts) (cl s) s" using step by (simp add: steer_step_def Let_def)
    then show ?thesis using aim [of i] Compare by (simp add: same)
  qed (use step in \<open>auto simp: steer_step_def Let_def intro!: same split: list.splits if_splits\<close>)
qed

lemma private_opens:
  assumes P: "private_ok s" and "open_region i f s = Some s'"
  shows "private_ok s'"
proof -
  let ?f = "\<lambda>t. t\<lparr>stack := stack t @ [f\<lparr>f_cur := Dummy\<rparr>]\<rparr>"
  have own: "own_pointers (cl s) t" for t using P by (simp add: private_ok_def)
  have "own_pointers (upd_thr i ?f (cl s)) t" for t
    by (rule own_pointers_upd [OF own]) (use own in \<open>auto simp: own_pointers_def own_array_def [of _ _ Dummy]\<close>)
  moreover have "s' = put i (Own_slots (f_key f)) (upd_thr i ?f (cl s)) s"
    using assms(2) by (simp add: open_region_def split: if_splits)
  ultimately show ?thesis by (simp add: private_put [OF P mem_grows_upd_thr])
qed

lemma private_closes:
  assumes P: "private_ok s" and "close_regions i d s = Some s'"
  shows "private_ok s'"
proof -
  let ?st = "take d (stack (thr (cl s) i))" and ?f = "\<lambda>t. t\<lparr>stack := take d (stack (thr (cl s) i))\<rparr>"
  have own: "own_pointers (cl s) t" for t using P by (simp add: private_ok_def)
  have i: "i < length (threads (cl s))" "alive (thr (cl s) i)" using assms(2) by (simp_all add: close_regions_def split: if_splits)
  have "own_pointers (upd_thr i ?f (cl s)) t" for t
    by (rule own_pointers_upd [OF own]) (use own in \<open>auto simp: own_pointers_def dest: in_set_takeD\<close>)
  moreover have "own_array (cl s) i (f_cur (last ?st))" if "?st \<noteq> []"
    using own [of i] in_set_takeD [OF last_in_set [OF that]] i by (simp add: own_pointers_def)
  then have "aims (upd_thr i ?f (cl s)) i (if ?st = [] then Read_shared else Store_cur (f_cur (last ?st)) False)"
    using own_array_grows [OF _ mem_grows_upd_thr [of ?f "cl s" i]] by simp
  moreover have "s' = put i (if ?st = [] then Read_shared else Store_cur (f_cur (last ?st)) False) (upd_thr i ?f (cl s)) s"
    using assms(2) by (auto simp: close_regions_def Let_def split: if_splits)
  ultimately show ?thesis by (simp add: private_put [OF P mem_grows_upd_thr])
qed

lemma private_steered:
  assumes "steered A s0 s" and "private_ok s0"
  shows "private_ok s"
  using assms(1) by induction (use assms(2) private_opens private_closes private_step in blast)+

text \<open>So no two threads of different index ever add to the same array, whatever the interleaving: the
  additions of the inlined code need not be atomic.\<close>

lemma steered_private:
  assumes "steered A s0 s" and "private_ok s0" and "i < length (threads (cl s))" "alive (thr (cl s) i)"
    and "j < length (threads (cl s))" "alive (thr (cl s) j)"
    and "index (thr (cl s) i) \<noteq> index (thr (cl s) j)" and "cur (thr (cl s) i) = Arr x"
  shows "cur (thr (cl s) j) \<noteq> Arr x"
proof
  assume "cur (thr (cl s) j) = Arr x"
  moreover have "mem_inv (cl s)" "own_pointers (cl s) i" "own_pointers (cl s) j"
    using private_steered [OF assms(1,2)] by (simp_all add: private_ok_def)
  ultimately show False using assms(3-8) mem_inv_private by (fastforce simp: own_pointers_def own_array_def)
qed

text \<open>Any state that whole handlers lead to can be the start.\<close>

definition all_quiet :: "'h client \<Rightarrow> 'h steering" where
  "all_quiet c = \<lparr>cl = c, leader_lock = None, at = (\<lambda>_. Quiet)\<rparr>"

lemma all_quiet_lock: "lock_ok (all_quiet c)"
  by (simp add: lock_ok_def all_quiet_def)

lemma all_quiet_private:
  assumes "control_inv A c"
  shows "private_ok (all_quiet c)"
proof -
  have "own_array c i a" if "carr_ok c ko (index (thr c i)) a" for ko i a
    using that by (auto simp: own_array_def carr_ok_def split: carr.splits)
  moreover have "thr_ok A c (shared_key c) (thr c i)" if "i < length (threads c)" for i
    using assms that by (auto simp: control_inv_def dest: threads_okD)
  ultimately have "own_pointers c i" for i
    by (fastforce simp: own_pointers_def thr_ok_def thr_base_def spine_def)
  then show ?thesis using assms by (simp add: private_ok_def all_quiet_def control_inv_def base_inv_def)
qed

subsection \<open>Two races\<close>

datatype act = Open nat frame | Close nat nat | Move nat

fun perform_act :: "('h, 'p) dr_api \<Rightarrow> act \<Rightarrow> 'h steering \<Rightarrow> 'h steering option" where
  "perform_act A (Open i f) s = open_region i f s"
| "perform_act A (Close i d) s = close_regions i d s"
| "perform_act A (Move i) s = steer_step A i s"

fun play :: "('h, 'p) dr_api \<Rightarrow> act list \<Rightarrow> 'h steering \<Rightarrow> 'h steering option" where
  "play A [] s = Some s"
| "play A (a # as) s = Option.bind (perform_act A a s) (play A as)"

lemma play_steered: "steered A s0 s \<Longrightarrow> play A as s = Some s' \<Longrightarrow> steered A s0 s'"
proof (induction as arbitrary: s)
  case (Cons a as)
  then obtain s1 where s1: "perform_act A a s = Some s1" "play A as s1 = Some s'" by (auto split: Option.bind_splits)
  have "steered A s0 s1" using s1(1) Cons.prems(1) by (cases a) (auto intro: steered.intros)
  then show ?case using Cons.IH s1(2) by blast
qed simp

definition frame_of :: "nat \<Rightarrow> frame" where
  "frame_of k = \<lparr>f_key = k, f_cur = Dummy, total_at_begin = 0, sys_at_begin = 0, children_incl = 0, seq_begin = 0,
     t_begin_us = 0, f_states = []\<rparr>"

definition two_threads :: "(string \<times> nat) list steering" where
  "two_threads = \<lparr>cl = \<lparr>opt_out = [], opt_top = 25, opt_max_slots = 2 ^ 20, opt_trace = 0, opt_rep_expand = True,
       opt_symbols = False, opt_verbose = False, opt_block_counters = True, opt_blocks = False, counter_bytes = 0,
       counter_denied = 0, nallocs = 0, tslots = (\<lambda>_ _. None), narrays = 0, arrays = (\<lambda>_ _. 0), dummy = (\<lambda>_. 0),
       keys = [], key_table = [], region_keys = [],
       threads = [new_thread assoc_api 1 0, new_thread assoc_api 2 1], nthreads_seen = 2, shared_key = None,
       leader = None, seq_counter = 0, trace_records = 0, trace_dropped = 0, unmatched_ends = 0, depth_overflows = 0,
       state_overflows = 0, marker_seen = True\<rparr>,
     leader_lock = None, at = (\<lambda>_. Quiet)\<rparr>"

text \<open>Thread 0 opens key 0 and finds thread 1 without a region; thread 1 opens key 1; thread 0 goes on.\<close>

definition opened_meanwhile :: "act list" where
  "opened_meanwhile = [Open 0 (frame_of 0)] @ replicate 9 (Move 0) @ [Open 1 (frame_of 1)] @ replicate 4 (Move 1) @
     replicate 7 (Move 0)"

text \<open>Thread 1 closes its region and reads the shared key 0; thread 0 opens key 2 and points thread 1 at
  it; thread 1 installs what it has read.\<close>

definition changed_meanwhile :: "act list" where
  "changed_meanwhile = [Open 0 (frame_of 0)] @ replicate 16 (Move 0) @ [Open 1 (frame_of 1)] @ replicate 4 (Move 1) @
     [Close 1 0, Move 1, Open 0 (frame_of 2)] @ replicate 16 (Move 0) @ replicate 4 (Move 1)"

lemma opened_meanwhile:
  "map_option (\<lambda>s. (at s 0, at s 1, top_key (thr (cl s) 1), cur (thr (cl s) 1), tslots (cl s) 0 1)) (play assoc_api opened_meanwhile two_threads)
    = Some (Quiet, Quiet, Some 1, Arr 2, Some 2)"
  by code_simp

lemma changed_meanwhile:
  "map_option (\<lambda>s. (at s 0, at s 1, stack (thr (cl s) 1), shared_key (cl s), cur (thr (cl s) 1), tslots (cl s) 0 1))
    (play assoc_api changed_meanwhile two_threads) = Some (Quiet, Quiet, [], Some 2, Arr 1, Some 1)"
  by code_simp

lemma two_threads_ok: "private_ok two_threads" "lock_ok two_threads"
proof -
  have "own_pointers (cl two_threads) i" for i
    by (auto simp: own_pointers_def two_threads_def own_array_def new_thread_def less_Suc_eq)
  then show "private_ok two_threads"
    by (simp add: private_ok_def two_threads_def mem_inv_def opts_ok_def COUNTER_BUDGET_def)
  show "lock_ok two_threads" by (simp add: lock_ok_def two_threads_def)
qed

lemma opened_threads:
  "map_option (\<lambda>s. (map alive (threads (cl s)), map index (threads (cl s)))) (play assoc_api opened_meanwhile two_threads)
    = Some ([True, True], [0, 1])"
  by code_simp

lemma control_inv_truncate:
  assumes "control_inv A w"
  shows "control_inv A (client.truncate w)"
proof -
  have c: "carr_ok (client.truncate w) = carr_ok w"
    by (intro ext) (simp add: carr_ok_def client.defs split: carr.split)
  have t: "thr_ok A (client.truncate w) = thr_ok A w"
    by (intro ext) (simp add: thr_ok_def thr_base_def c, simp add: client.defs)
  have "mem_inv (client.truncate w) = mem_inv w" by (simp add: mem_inv_def opts_ok_def client.defs)
  moreover have "keys_below A (client.truncate w) = keys_below A w" by (simp add: keys_below_def client.defs)
  ultimately have "base_inv A (client.truncate w)"
    using assms by (simp add: control_inv_def base_inv_def) (simp add: client.defs)
  moreover have "threads_ok A (client.truncate w)"
    using assms by (simp add: control_inv_def threads_ok_def t) (simp add: client.defs)
  moreover have "leader_ok (client.truncate w)"
    using assms by (simp add: control_inv_def leader_ok_def client.defs cong: option.case_cong)
  ultimately show ?thesis by (simp add: control_inv_def)
qed

end
