(* ===== verification/Perfmark.thy ===== *)
theory Perfmark
  imports Client
begin

text \<open>
  The marker library (\<open>perfmark/perfmark.c\<close>, \<open>perfmark/attach.c\<close>). Its exported functions are empty
  but for the late attach: the first begin may start DynamoRIO and then calls itself again, so
  that the client, which sees a call at the entry of the function, sees this one too. The state
  is \<open>attach_state\<close>, whether the process runs under DynamoRIO, and the calls the client has seen.
\<close>

datatype mark =
    Mark_begin string string i64
  | Mark_begin_v string "(string \<times> i64) list"
  | Mark_end string
  | Mark_state string string

text \<open>What the environment holds: whether \<open>DRPERF_LATE\<close> is set, and what \<open>dlsym\<close> finds and the
  function returns when it is called (\<open>None\<close>: no \<open>drperf_attach_now\<close> in the process).\<close>

record mark_env =
  late :: bool
  start_code :: "int option"

record mark_lib =
  attach_state :: nat
  under_dr :: bool
  seen :: "mark list"

text \<open>\<open>dr_app_setup_and_start\<close> returns 0 when the process runs under DynamoRIO from then on.\<close>

definition drperf_attach_now :: "int \<Rightarrow> mark_lib \<Rightarrow> int \<times> mark_lib" where
  "drperf_attach_now code m = (code, if code = 0 then m\<lparr>under_dr := True\<rparr> else m)"

definition late_attach :: "mark_env \<Rightarrow> mark_lib \<Rightarrow> bool \<times> mark_lib" where
  "late_attach E m =
     (if attach_state m \<noteq> 0 then (False, m)
      else
        (let m1 = m\<lparr>attach_state := 1\<rparr> in
         if \<not> late E then (False, m1\<lparr>attach_state := 2\<rparr>)
         else case start_code E of
             None \<Rightarrow> (False, m1\<lparr>attach_state := 2\<rparr>)
           | Some code \<Rightarrow>
               (let (rc, m2) = drperf_attach_now code m1
                in if rc \<noteq> 0 then (False, m2\<lparr>attach_state := 2\<rparr>) else (True, m2\<lparr>attach_state := 2\<rparr>))))"

text \<open>Entering an exported function: the client sees the call when it is running.\<close>

definition entered :: "mark \<Rightarrow> mark_lib \<Rightarrow> mark_lib" where
  "entered c m = (if under_dr m then m\<lparr>seen := seen m @ [c]\<rparr> else m)"

lemma attach_state_entered [simp]: "attach_state (entered c m) = attach_state m"
  by (simp add: entered_def)

lemma late_attach_done: "attach_state m = 0 \<Longrightarrow> attach_state (snd (late_attach E m)) = 2"
  by (simp add: late_attach_def Let_def drperf_attach_now_def split: option.split prod.split)

text \<open>\<open>perfmark_begin\<close> and \<open>perfmark_begin_v\<close> have this body; the call through \<open>again\<close> enters the
  function once more.\<close>

function begin_marker :: "mark_env \<Rightarrow> mark \<Rightarrow> mark_lib \<Rightarrow> mark_lib" where
  "begin_marker E c m =
     (let m1 = entered c m in
      if attach_state m1 = 0
      then (let (ok, m2) = late_attach E m1 in if ok then begin_marker E c m2 else m2)
      else m1)"
  by pat_completeness auto
termination
proof (relation "measure (\<lambda>(E, c, m). if attach_state m = 0 then 1 else 0)", goal_cases)
  case (2 E c m m1 p ok m2)
  then have "attach_state m2 = 2" by (metis late_attach_done snd_conv attach_state_entered)
  then show ?case using 2 by simp
qed simp

declare begin_marker.simps [simp del]

definition perfmark_begin :: "mark_env \<Rightarrow> string \<Rightarrow> string \<Rightarrow> i64 \<Rightarrow> mark_lib \<Rightarrow> mark_lib" where
  "perfmark_begin E r nm v = begin_marker E (Mark_begin r nm v)"

definition perfmark_begin_v :: "mark_env \<Rightarrow> string \<Rightarrow> (string \<times> i64) list \<Rightarrow> mark_lib \<Rightarrow> mark_lib" where
  "perfmark_begin_v E r sts = begin_marker E (Mark_begin_v r sts)"

definition perfmark_end :: "string \<Rightarrow> mark_lib \<Rightarrow> mark_lib" where
  "perfmark_end r = entered (Mark_end r)"

definition perfmark_state :: "string \<Rightarrow> string \<Rightarrow> mark_lib \<Rightarrow> mark_lib" where
  "perfmark_state nm v = entered (Mark_state nm v)"

fun perform :: "mark_env \<Rightarrow> mark \<Rightarrow> mark_lib \<Rightarrow> mark_lib" where
  "perform E (Mark_begin r nm v) = perfmark_begin E r nm v"
| "perform E (Mark_begin_v r sts) = perfmark_begin_v E r sts"
| "perform E (Mark_end r) = perfmark_end r"
| "perform E (Mark_state nm v) = perfmark_state nm v"

subsection \<open>What the client sees\<close>

definition fresh_lib :: mark_lib where
  "fresh_lib = \<lparr>attach_state = 0, under_dr = False, seen = []\<rparr>"

definition attaches :: "mark_env \<Rightarrow> bool" where
  "attaches E \<longleftrightarrow> late E \<and> start_code E = Some 0"

fun is_begin :: "mark \<Rightarrow> bool" where
  "is_begin (Mark_begin r nm v) = True"
| "is_begin (Mark_begin_v r sts) = True"
| "is_begin _ = False"

lemma begin_marker_checked: "attach_state m \<noteq> 0 \<Longrightarrow> begin_marker E c m = entered c m"
  by (simp add: begin_marker.simps [of E c m] Let_def)

lemma begin_marker_first:
  assumes "attach_state m = 0" and "\<not> under_dr m"
  shows "begin_marker E c m = m\<lparr>attach_state := 2, under_dr := attaches E, seen := seen m @ (if attaches E then [c] else [])\<rparr>"
proof -
  have e: "entered c m = m" using assms(2) by (simp add: entered_def)
  show ?thesis
    using assms
    by (subst begin_marker.simps)
      (auto simp: e late_attach_def attaches_def drperf_attach_now_def Let_def begin_marker_checked entered_def split: option.split)
qed

lemma perform_begin: "is_begin c \<Longrightarrow> perform E c = begin_marker E c"
  by (cases c) (simp_all add: perfmark_begin_def perfmark_begin_v_def)

lemma perform_other: "\<not> is_begin c \<Longrightarrow> perform E c = entered c"
  by (cases c) (simp_all add: perfmark_end_def perfmark_state_def)

text \<open>After the first begin everything that is called is seen, if and only if the process was attached.\<close>

lemma perform_checked:
  assumes "attach_state m = 2"
  shows "fold (perform E) cs m = m\<lparr>seen := seen m @ (if under_dr m then cs else [])\<rparr>"
  using assms
proof (induction cs arbitrary: m)
  case (Cons c cs)
  have "perform E c m = entered c m"
    using Cons.prems by (cases "is_begin c") (simp_all add: perform_begin perform_other begin_marker_checked)
  then show ?case using Cons by (simp add: entered_def)
qed simp

text \<open>From the start of a process that does not run under DynamoRIO: nothing before the first begin is
  seen, and everything from it on is seen exactly once, in order, when the process attaches.\<close>

lemma late_attach_seen:
  "seen (fold (perform E) cs fresh_lib) = (if attaches E then dropWhile (\<lambda>c. \<not> is_begin c) cs else [])"
proof (induction cs)
  case (Cons c cs)
  show ?case
  proof (cases "is_begin c")
    case True
    have "perform E c fresh_lib = \<lparr>attach_state = 2, under_dr = attaches E, seen = if attaches E then [c] else []\<rparr>"
      using True begin_marker_first [of fresh_lib E c] by (simp add: perform_begin) (simp add: fresh_lib_def)
    then show ?thesis using True by (simp add: perform_checked)
  next
    case False
    have "perform E c fresh_lib = fresh_lib" using False by (simp add: perform_other entered_def fresh_lib_def)
    then show ?thesis using False Cons by simp
  qed
qed (simp add: fresh_lib_def)

lemma attach_state_after:
  "attach_state (fold (perform E) cs fresh_lib) = (if list_ex is_begin cs then 2 else 0)"
proof (induction cs)
  case (Cons c cs)
  show ?case
  proof (cases "is_begin c")
    case True
    then show ?thesis by (simp add: perform_begin begin_marker_first perform_checked fresh_lib_def)
  next
    case False
    then have "perform E c fresh_lib = fresh_lib" by (simp add: perform_other entered_def fresh_lib_def)
    then show ?thesis using False Cons by simp
  qed
qed (simp add: fresh_lib_def)

text \<open>A process that is already under DynamoRIO and has \<open>DRPERF_LATE\<close> set has its first begin seen
  twice, when starting again succeeds.\<close>

lemma begin_marker_twice:
  assumes "attach_state m = 0" and "under_dr m" and "attaches E"
  shows "seen (begin_marker E c m) = seen m @ [c, c]"
  using assms
  by (subst begin_marker.simps)
    (simp add: late_attach_def attaches_def drperf_attach_now_def Let_def begin_marker_checked entered_def)

end
