(* ===== verification/Playground.thy ===== *)
theory Playground
  imports Perfmark "HOL-Library.Signed_Division"
begin

text \<open>
  The log-processing example (\<open>examples/playground/system.c\<close>, built without \<open>DELTA\<close>): lines are
  ingested into a ring buffer, handled in rounds by one or more workers, parsed against a hash table
  and emitted. The static variables are the record \<open>system\<close>. A \<open>long\<close> is an \<open>int\<close> with C's division
  (\<open>sdiv\<close>, \<open>smod\<close>); the generator and the hash are machine words; a buffer is a function from
  positions to bytes, with any contents at first. \<open>None\<close> is a division by zero or an access to a
  buffer that could not be had. The workers of a round take their steps, one line each, in an order
  that is an argument of the definitions.
\<close>

type_synonym byte = "8 word"
type_synonym memory = "nat \<Rightarrow> byte"

definition store :: "nat \<Rightarrow> byte list \<Rightarrow> memory \<Rightarrow> memory" where
  "store a bs m = (\<lambda>i. if a \<le> i \<and> i < a + length bs then bs ! (i - a) else m i)"

definition fetch :: "nat \<Rightarrow> nat \<Rightarrow> memory \<Rightarrow> byte list" where
  "fetch a n m = map m [a..<a + n]"

definition WORD :: nat where "WORD = 7"
definition BUCKETS :: nat where "BUCKETS = 256"
definition LOOKUPS :: nat where "LOOKUPS = 4"

record system =
  rng_state :: u64
  vocab :: "byte list list"
  buckets :: "nat \<Rightarrow> byte list list"
  entries :: int
  line_max :: int                \<comment> \<open>\<open>len\<close>\<close>
  queue :: memory
  llen :: "int list"
  qcap :: int
  qhead :: int
  qtail :: int
  outbuf :: memory
  out_bytes :: int
  out_cap :: int
  checksum :: int
  marks :: "(nat \<times> mark) list"  \<comment> \<open>the marker calls with the thread that made them, 0 for \<open>main\<close>\<close>

subsection \<open>Arguments\<close>

definition is_space :: "char \<Rightarrow> bool" where
  "is_space c \<longleftrightarrow> c = CHR 0x20 \<or> c = CHR 0x09 \<or> c = CHR 0x0A \<or> c = CHR 0x0B \<or> c = CHR 0x0C \<or> c = CHR 0x0D"

definition is_digit :: "char \<Rightarrow> bool" where
  "is_digit c \<longleftrightarrow> 48 \<le> (of_char c :: nat) \<and> (of_char c :: nat) \<le> 57"

definition digits_value :: "string \<Rightarrow> int" where
  "digits_value s = foldl (\<lambda>v c. v * 10 + (of_char c - 48)) 0 (takeWhile is_digit s)"

definition atol :: "string \<Rightarrow> int" where
  "atol s = (case dropWhile is_space s of
     [] \<Rightarrow> 0
   | c # t \<Rightarrow> if c = CHR ''-'' then - digits_value t else if c = CHR ''+'' then digits_value t else digits_value (c # t))"

fun arg :: "string list \<Rightarrow> string \<Rightarrow> int \<Rightarrow> int" where
  "arg [] key d = d"
| "arg (a # as) key d =
     (if take (length key) a = key \<and> length key < length a \<and> a ! length key = CHR ''=''
      then atol (drop (length key + 1) a) else arg as key d)"

subsection \<open>The lookup table\<close>

definition rnd :: "u64 \<Rightarrow> 32 word \<times> u64" where
  "rnd s = (let s' = s * 6364136223846793005 + 1442695040888963407 in (ucast (drop_bit 33 s'), s'))"

definition hash_word :: "byte list \<Rightarrow> 32 word" where
  "hash_word w = foldl (\<lambda>h c. (h XOR ucast c) * 16777619) 2166136261 w"

definition bucket :: "byte list \<Rightarrow> nat" where
  "bucket w = unat (hash_word w mod 256)"

fun random_word :: "nat \<Rightarrow> u64 \<Rightarrow> byte list \<times> u64" where
  "random_word 0 s = ([], s)"
| "random_word (Suc j) s = (let (r, s1) = rnd s; (w, s2) = random_word j s1
     in (word_of_nat (97 + unat r mod 26) # w, s2))"

text \<open>The loop of \<open>table_init\<close>, \<open>n\<close> words still to come.\<close>

fun add_words :: "nat \<Rightarrow> system \<Rightarrow> system" where
  "add_words 0 st = st"
| "add_words (Suc n) st = (let (w, s) = random_word WORD (rng_state st); b = bucket w in
     add_words n (st\<lparr>rng_state := s, vocab := vocab st @ [w], buckets := (buckets st)(b := w # buckets st b)\<rparr>))"

definition table_init :: "int \<Rightarrow> system \<Rightarrow> system" where
  "table_init n st = add_words (nat n) (st\<lparr>entries := n\<rparr>)"

fun in_chain :: "byte list list \<Rightarrow> byte list \<Rightarrow> bool" where
  "in_chain [] w = False"
| "in_chain (x # xs) w = (if x = w then True else in_chain xs w)"

definition lookup_word :: "(nat \<Rightarrow> byte list list) \<Rightarrow> byte list \<Rightarrow> int" where
  "lookup_word B w = (if in_chain (B (bucket w)) w then 1 else 0)"

subsection \<open>Ingest\<close>

text \<open>The bytes of a line: words of the vocabulary with a blank behind each while one fits, then
  blanks. \<open>rnd() % entries\<close> divides by zero for an empty table.\<close>

fun make_words :: "nat \<Rightarrow> byte list list \<Rightarrow> int \<Rightarrow> u64 \<Rightarrow> (byte list \<times> u64) option" where
  "make_words 0 vs n s = Some ([], s)"
| "make_words (Suc k) vs n s =
     (if n \<le> 0 then None
      else do {
        let (r, s1) = rnd s;
        (l, s2) \<leftarrow> make_words k vs n s1;
        Some (vs ! nat (int (unat r) smod n) @ [0x20] @ l, s2)
      })"

definition make_line :: "int \<Rightarrow> system \<Rightarrow> (byte list \<times> u64) option" where
  "make_line n st = do {
     (l, s) \<leftarrow> make_words (nat n div (WORD + 1)) (vocab st) (entries st) (rng_state st);
     Some (l @ replicate (nat n mod (WORD + 1)) 0x20, s)
   }"

definition line_len :: "int \<Rightarrow> int \<Rightarrow> int" where
  "line_len n i = (n sdiv 4) * ([1, 2, 3, 4] ! nat (i smod 4))"

definition mark :: "nat \<Rightarrow> mark \<Rightarrow> system \<Rightarrow> system" where
  "mark t m st = st\<lparr>marks := marks st @ [(t, m)]\<rparr>"

fun ingest_lines :: "nat \<Rightarrow> system \<Rightarrow> system option" where
  "ingest_lines 0 st = Some st"
| "ingest_lines (Suc k) st =
     (if qcap st \<le> 0 then None
      else do {
        let i = qtail st smod qcap st;
        (l, s) \<leftarrow> make_line (llen st ! nat i) st;
        ingest_lines k (st\<lparr>rng_state := s, queue := store (nat (i * line_max st)) l (queue st), qtail := qtail st + 1\<rparr>)
      })"

definition ingest :: "int \<Rightarrow> int \<Rightarrow> system \<Rightarrow> system option" where
  "ingest batch bytes st = do {
     st1 \<leftarrow> ingest_lines (nat batch)
       (mark 0 (Mark_begin_v ''ingest'' [(''batch'', of_int batch), (''bytes'', of_int bytes)]) st);
     Some (mark 0 (Mark_end ''ingest'') st1)
   }"

subsection \<open>Parse and emit\<close>

definition parse :: "nat \<Rightarrow> nat \<Rightarrow> int \<Rightarrow> system \<Rightarrow> (int \<times> system) option" where
  "parse t a n st =
     (if n - int WORD = 0 then None
      else
        (let st1 = mark t (Mark_begin_v ''parse'' [(''len'', of_int n), (''entries'', of_int (entries st))]) st;
             s1 = (\<Sum>i<nat n. uint (queue st (a + i)));
             s2 = (\<Sum>k<LOOKUPS. lookup_word (buckets st)
               (fetch (a + nat (int k * (int WORD + 1) smod (n - int WORD))) WORD (queue st)))
         in Some (s1 + s2, mark t (Mark_end ''parse'') st1)))"

text \<open>\<open>"%06ld "\<close>\<close>

definition header :: "int \<Rightarrow> byte list" where
  "header s =
     (let v = s smod 1000000; d = show_nat (nat \<bar>v\<bar>); w = (if v < 0 then 5 else 6)
      in map of_char ((if v < 0 then ''-'' else []) @ replicate (w - length d) CHR ''0'' @ d @ '' ''))"

text \<open>The steps inside the lock.\<close>

definition emit :: "byte list \<Rightarrow> int \<Rightarrow> system \<Rightarrow> system" where
  "emit line s st =
     (let h = header s; n = int (length line);
          st1 = (if out_bytes st + int (length h) + n + 1 \<le> out_cap st
            then st\<lparr>outbuf := store (nat (out_bytes st)) (h @ line @ [0x0A]) (outbuf st),
                    out_bytes := out_bytes st + int (length h) + n + 1\<rparr>
            else st)
      in st1\<lparr>checksum := checksum st1 + s\<rparr>)"

subsection \<open>Handle\<close>

record job =
  j_first :: int
  j_count :: int

text \<open>One turn of the loop of \<open>worker\<close>, by thread \<open>t\<close>.\<close>

definition work :: "nat \<Rightarrow> job \<Rightarrow> nat \<Rightarrow> system \<Rightarrow> system option" where
  "work t j i st =
     (if qcap st \<le> 0 then None
      else do {
        let idx = (j_first j + int i) smod qcap st;
        let a = nat (idx * line_max st);
        let n = llen st ! nat idx;
        (s, st1) \<leftarrow> parse t a n st;
        Some (emit (fetch a (nat n) (queue st)) s st1)
      })"

fun worker_from :: "nat \<Rightarrow> job \<Rightarrow> nat \<Rightarrow> nat \<Rightarrow> system \<Rightarrow> system option" where
  "worker_from t j i 0 st = Some st"
| "worker_from t j i (Suc k) st = do {
     st1 \<leftarrow> work t j i st;
     worker_from t j (i + 1) k st1
   }"

definition worker :: "nat \<Rightarrow> job \<Rightarrow> system \<Rightarrow> system option" where
  "worker t j st = worker_from t j 0 (nat (j_count j)) st"

text \<open>The jobs of a round: \<open>per\<close> lines each from \<open>first\<close> on, up to \<open>lim\<close>.\<close>

function make_jobs :: "int \<Rightarrow> int \<Rightarrow> int \<Rightarrow> int \<Rightarrow> int \<Rightarrow> job list" where
  "make_jobs workers per lim t first =
     (if t < workers \<and> first < lim
      then (let c = (if first + per \<le> lim then per else lim - first)
            in \<lparr>j_first = first, j_count = c\<rparr> # make_jobs workers per lim (t + 1) (first + c))
      else [])"
  by pat_completeness auto
termination
  by (relation "measure (\<lambda>(workers, per, lim, t, first). nat (workers - t))") auto

declare make_jobs.simps [simp del]

text \<open>The workers take turns in the given order; a turn of one that is done is skipped. \<open>done ! t\<close> is
  the number of lines that worker \<open>t\<close> has done; it runs as thread \<open>t + 1\<close>.\<close>

fun turns :: "job list \<Rightarrow> nat list \<Rightarrow> nat list \<Rightarrow> system \<Rightarrow> (nat list \<times> system) option" where
  "turns js [] ds st = Some (ds, st)"
| "turns js (t # ts) ds st =
     (if t < length js \<and> int (ds ! t) < j_count (js ! t)
      then do {
        st1 \<leftarrow> work (t + 1) (js ! t) (ds ! t) st;
        turns js ts (ds[t := ds ! t + 1]) st1
      }
      else turns js ts ds st)"

text \<open>\<open>pthread_join\<close>: whatever the order has left is done behind it.\<close>

definition all_turns :: "job list \<Rightarrow> nat list" where
  "all_turns js = concat (map (\<lambda>t. replicate (nat (j_count (js ! t))) t) [0..<length js])"

definition run_jobs :: "job list \<Rightarrow> nat list \<Rightarrow> system \<Rightarrow> system option" where
  "run_jobs js order st = map_option snd (turns js (order @ all_turns js) (replicate (length js) 0) st)"

definition handle_lines :: "int \<Rightarrow> int \<Rightarrow> int \<Rightarrow> nat list \<Rightarrow> system \<Rightarrow> system option" where
  "handle_lines q inflight workers order st = do {
     let st1 = mark 0 (Mark_begin_v ''handle'' [(''q'', of_int q), (''inflight'', of_int inflight)]) st;
     st2 \<leftarrow> (if workers \<le> 1 then worker 0 \<lparr>j_first = qhead st1, j_count = q\<rparr> st1
       else run_jobs (make_jobs workers ((q + workers - 1) sdiv workers) (qhead st1 + q) 0 (qhead st1)) order st1);
     Some (mark 0 (Mark_end ''handle'') (st2\<lparr>qhead := qhead st2 + q, out_bytes := 0\<rparr>))
   }"

subsection \<open>Main\<close>

record config =
  reqs :: int
  batch :: int
  pop_cap :: int
  threads_arg :: int
  len_arg :: int
  entries_arg :: int

definition read_config :: "string list \<Rightarrow> config" where
  "read_config as = \<lparr>reqs = arg as ''reqs'' 600, batch = arg as ''batch'' 16, pop_cap = arg as ''cap'' 12,
     threads_arg = (let t = arg as ''threads'' 1 in if 64 < t then 64 else t),
     len_arg = (let l = arg as ''len'' 64 in if l < 2 * (int WORD + 1) then 2 * (int WORD + 1) else l),
     entries_arg = arg as ''entries'' 4096\<rparr>"

definition start_system :: "config \<Rightarrow> memory \<Rightarrow> memory \<Rightarrow> system" where
  "start_system c qm om =
     (let st = table_init (entries_arg c)
            \<lparr>rng_state = 0x9E3779B97F4A7C15, vocab = [], buckets = (\<lambda>_. []), entries = 0, line_max = len_arg c, queue = qm,
             llen = [], qcap = 0, qhead = 0, qtail = 0, outbuf = om, out_bytes = 0, out_cap = 0, checksum = 0, marks = []\<rparr>;
          qc = reqs c + 4 * batch c
      in st\<lparr>qcap := qc, llen := map (\<lambda>i. line_len (len_arg c) (int i)) [0..<nat qc],
            out_cap := (2 * pop_cap c + 8) * (len_arg c + 40)\<rparr>)"

text \<open>One turn of the loop of \<open>main\<close>; \<open>loop_state\<close> adds its local variables.\<close>

record 's loop_state =
  produced :: int
  rounds :: int
  sys_state :: 's

definition busy :: "config \<Rightarrow> system loop_state \<Rightarrow> bool" where
  "busy c l \<longleftrightarrow> produced l < reqs c \<or> qhead (sys_state l) < qtail (sys_state l)"

definition batch_size :: "config \<Rightarrow> 's loop_state \<Rightarrow> int" where
  "batch_size c l = (let b = batch c + (rounds l smod 3) * (batch c sdiv 2) in
     if reqs c - produced l < b then reqs c - produced l else b)"

definition batch_bytes :: "int \<Rightarrow> system \<Rightarrow> int option" where
  "batch_bytes b st = (if 0 < b \<and> qcap st \<le> 0 then None
     else Some (\<Sum>i<nat b. llen st ! nat ((qtail st + int i) smod qcap st)))"

definition fill :: "config \<Rightarrow> system loop_state \<Rightarrow> system loop_state option" where
  "fill c l =
     (if produced l < reqs c
      then do {
        let b = batch_size c l;
        bytes \<leftarrow> batch_bytes b (sys_state l);
        st \<leftarrow> ingest b bytes (sys_state l);
        Some (l\<lparr>produced := produced l + b, sys_state := st\<rparr>)
      }
      else Some l)"

definition drain :: "config \<Rightarrow> nat list \<Rightarrow> system loop_state \<Rightarrow> system loop_state option" where
  "drain c order l =
     (let st = sys_state l; inflight = qtail st - qhead st;
          room = pop_cap c - (rounds l smod 4) * (pop_cap c sdiv 8);
          q = (if room < inflight then room else inflight)
      in do {
        st1 \<leftarrow> (if 0 < q then handle_lines q inflight (threads_arg c) order st else Some st);
        Some (l\<lparr>rounds := rounds l + 1, sys_state := st1\<rparr>)
      })"

definition turn :: "config \<Rightarrow> (int \<Rightarrow> nat list) \<Rightarrow> system loop_state \<Rightarrow> system loop_state option" where
  "turn c sched l = do {
     l1 \<leftarrow> fill c l;
     drain c (sched (rounds l1)) l1
   }"

partial_function (option) main_loop :: "config \<Rightarrow> (int \<Rightarrow> nat list) \<Rightarrow> system loop_state \<Rightarrow> system loop_state option" where
  "main_loop c sched l = (if busy c l then turn c sched l \<bind> main_loop c sched else Some l)"

declare main_loop.simps [code]

definition playground :: "config \<Rightarrow> (int \<Rightarrow> nat list) \<Rightarrow> memory \<Rightarrow> memory \<Rightarrow> system loop_state option" where
  "playground c sched qm om = main_loop c sched \<lparr>produced = 0, rounds = 0, sys_state = start_system c qm om\<rparr>"

end
