(* ===== verification/Rounds.thy ===== *)
theory Rounds
  imports Playground
begin

text \<open>
  A round of the playground: what the workers of \<open>handle\<close> do together, in whatever order they take
  their turns. Every line of the round is parsed and emitted once and none is dropped; the sums do
  not depend on the order.
\<close>

subsection \<open>Lines\<close>

lemma sdiv_nonneg: "0 \<le> a \<Longrightarrow> 0 < b \<Longrightarrow> a sdiv b = a div b" for a b :: int
  by (auto simp: signed_divide_int_def sgn_if)

lemma smod_nonneg: "0 \<le> a \<Longrightarrow> 0 < b \<Longrightarrow> a smod b = a mod b" for a b :: int
  by (auto simp: signed_modulo_int_def sgn_if)

lemma length_fetch [simp]: "length (fetch a n m) = n"
  by (simp add: fetch_def)

lemma nth_fetch: "i < n \<Longrightarrow> fetch a n m ! i = m (a + i)"
  by (simp add: fetch_def)

lemma fetch_inside: "d + k \<le> n \<Longrightarrow> fetch (a + d) k m = take k (drop d (fetch a n m))"
  by (rule nth_equalityI) (simp_all add: nth_fetch add.assoc)

lemma sum_fetch: "(\<Sum>i<n. f (m (a + i))) = (\<Sum>b\<leftarrow>fetch a n m. f b)"
  by (induction n) (simp_all add: fetch_def)

text \<open>What a line is worth: a function of its bytes and the table alone.\<close>

definition line_value :: "(nat \<Rightarrow> byte list list) \<Rightarrow> byte list \<Rightarrow> int" where
  "line_value B l = (\<Sum>b\<leftarrow>l. uint b) +
     (\<Sum>k<LOOKUPS. lookup_word B (take WORD (drop (nat (int k * 8 mod (int (length l) - 7))) l)))"

lemma line_value_nonneg: "0 \<le> line_value B l"
  unfolding line_value_def
  by (intro add_nonneg_nonneg sum_list_nonneg sum_nonneg) (auto simp: lookup_word_def)

definition parse_marks :: "nat \<Rightarrow> int \<Rightarrow> system \<Rightarrow> (nat \<times> mark) list" where
  "parse_marks t n st = [(t, Mark_begin_v ''parse'' [(''len'', of_int n), (''entries'', of_int (entries st))]), (t, Mark_end ''parse'')]"

lemma parse_value:
  assumes "8 \<le> n"
  shows "parse t a n st =
    Some (line_value (buckets st) (fetch a (nat n) (queue st)), st\<lparr>marks := marks st @ parse_marks t n st\<rparr>)"
proof -
  have "fetch (a + nat (int k * 8 smod (n - 7))) 7 (queue st) =
      take 7 (drop (nat (int k * 8 mod (n - 7))) (fetch a (nat n) (queue st)))" for k
  proof -
    have "int k * 8 mod (n - 7) < n - 7" using assms by simp
    then have "nat (int k * 8 mod (n - 7)) + 7 \<le> nat n" using assms by linarith
    then show ?thesis using assms by (simp add: fetch_inside smod_nonneg)
  qed
  then show ?thesis
    using assms by (simp add: parse_def line_value_def WORD_def sum_fetch mark_def Let_def parse_marks_def)
qed

lemma length_header: "0 \<le> s \<Longrightarrow> length (header s) = 7"
proof -
  assume s: "0 \<le> s"
  then have "length (show_nat (nat (s mod 1000000))) \<le> Suc 5"
    by (intro length_show_nat) (simp add: nat_less_iff)
  moreover have "\<not> s smod 1000000 < 0" "\<bar>s smod 1000000\<bar> = s mod 1000000" using s by (simp_all add: smod_nonneg)
  ultimately show ?thesis by (simp add: header_def Let_def)
qed

subsection \<open>One turn of a worker\<close>

definition slot_index :: "system \<Rightarrow> int \<Rightarrow> nat" where
  "slot_index st x = nat (x smod qcap st)"

definition line_at :: "system \<Rightarrow> int \<Rightarrow> byte list" where
  "line_at st x = fetch (nat (x smod qcap st * line_max st)) (nat (llen st ! slot_index st x)) (queue st)"

definition value_at :: "system \<Rightarrow> int \<Rightarrow> int" where
  "value_at st x = line_value (buckets st) (line_at st x)"

text \<open>The bytes of the line in the output, with the header and the line end.\<close>

definition space_at :: "system \<Rightarrow> int \<Rightarrow> int" where
  "space_at st x = int (length (line_at st x)) + 8"

definition rest_sys :: "system \<Rightarrow> system" where
  "rest_sys st = st\<lparr>marks := [], outbuf := (\<lambda>_. 0), out_bytes := 0, checksum := 0\<rparr>"

lemma rest_sysD:
  assumes "rest_sys st = rest_sys st'"
  shows "queue st = queue st'" "llen st = llen st'" "qcap st = qcap st'" "line_max st = line_max st'"
    "buckets st = buckets st'" "entries st = entries st'" "out_cap st = out_cap st'" "qhead st = qhead st'"
    "qtail st = qtail st'" "rng_state st = rng_state st'" "vocab st = vocab st'"
  using arg_cong [OF assms, of queue] arg_cong [OF assms, of llen] arg_cong [OF assms, of qcap]
    arg_cong [OF assms, of line_max] arg_cong [OF assms, of buckets] arg_cong [OF assms, of entries]
    arg_cong [OF assms, of out_cap] arg_cong [OF assms, of qhead] arg_cong [OF assms, of qtail]
    arg_cong [OF assms, of rng_state] arg_cong [OF assms, of vocab]
  by (simp_all add: rest_sys_def)

lemma at_rest:
  assumes "rest_sys st = rest_sys st'"
  shows "slot_index st = slot_index st'" "line_at st = line_at st'" "value_at st = value_at st'" "space_at st = space_at st'"
  by (intro ext; simp add: slot_index_def line_at_def value_at_def space_at_def rest_sysD [OF assms])+

definition parse_mark :: "nat \<times> mark \<Rightarrow> bool" where
  "parse_mark tm = (case snd tm of Mark_begin_v r sts \<Rightarrow> r = ''parse'' | Mark_end r \<Rightarrow> True | _ \<Rightarrow> False)"

text \<open>What workers may have changed, with the worth \<open>v\<close> and the space \<open>b\<close> of the lines they did.\<close>

definition worked :: "system \<Rightarrow> system \<Rightarrow> int \<Rightarrow> int \<Rightarrow> bool" where
  "worked st st' v b \<longleftrightarrow> rest_sys st' = rest_sys st \<and> checksum st' = checksum st + v \<and>
     out_bytes st' = out_bytes st + b \<and> (\<exists>ps. marks st' = marks st @ ps \<and> list_all parse_mark ps)"

lemma worked_refl: "worked st st 0 0"
  by (simp add: worked_def)

lemma worked_trans: "worked st st1 v b \<Longrightarrow> worked st1 st2 v' b' \<Longrightarrow> worked st st2 (v + v') (b + b')"
  by (auto simp: worked_def)

definition line_ok :: "system \<Rightarrow> int \<Rightarrow> bool" where
  "line_ok st x \<longleftrightarrow> 0 < qcap st \<and> 8 \<le> llen st ! slot_index st x"

lemma line_ok_rest: "rest_sys st = rest_sys st' \<Longrightarrow> line_ok st = line_ok st'"
  using at_rest(1) [of st st'] rest_sysD [of st st'] by (simp add: fun_eq_iff line_ok_def)

lemma work_worked:
  assumes "line_ok st (j_first j + int i)" and "out_bytes st + space_at st (j_first j + int i) \<le> out_cap st"
  shows "\<exists>st'. work t j i st = Some st' \<and>
    worked st st' (value_at st (j_first j + int i)) (space_at st (j_first j + int i))"
proof -
  let ?x = "j_first j + int i"
  let ?n = "llen st ! slot_index st ?x"
  let ?st = "st\<lparr>marks := marks st @ parse_marks t ?n st\<rparr>"
  have w: "work t j i st = Some (emit (line_at st ?x) (value_at st ?x) ?st)"
    using assms(1) parse_value [of ?n t "nat (?x smod qcap st * line_max st)" st]
    by (simp add: work_def line_ok_def Let_def slot_index_def value_at_def line_at_def)
  have "worked st (emit (line_at st ?x) (value_at st ?x) ?st) (value_at st ?x) (space_at st ?x)"
    using assms(2) length_header [of "value_at st ?x"]
    by (simp add: worked_def emit_def space_at_def rest_sys_def Let_def value_at_def line_value_nonneg
        parse_marks_def parse_mark_def)
  with w show ?thesis by blast
qed

subsection \<open>A worker on its own\<close>

lemma sum_split_lessThan: "(\<Sum>x<a + b. g x) = (\<Sum>x<a. g x) + (\<Sum>x<b. g (a + x))" for a b :: nat and g :: "nat \<Rightarrow> int"
  by (induction b) simp_all

lemma worker_from_worked:
  assumes "\<And>x. i \<le> x \<Longrightarrow> x < i + k \<Longrightarrow> line_ok st (j_first j + int x)"
    and "out_bytes st + (\<Sum>x<k. space_at st (j_first j + int (i + x))) \<le> out_cap st"
  shows "\<exists>st'. worker_from t j i k st = Some st' \<and>
    worked st st' (\<Sum>x<k. value_at st (j_first j + int (i + x))) (\<Sum>x<k. space_at st (j_first j + int (i + x)))"
  using assms
proof (induction k arbitrary: i st)
  case (Suc k)
  have split: "(\<Sum>x<Suc k. g (j_first j + int (i + x))) = g (j_first j + int i) + (\<Sum>x<k. g (j_first j + int (Suc i + x)))" for g :: "int \<Rightarrow> int"
    using sum_split_lessThan [of "\<lambda>x. g (j_first j + int (i + x))" 1 k] by simp
  have "0 \<le> (\<Sum>x<k. space_at st (j_first j + int (Suc i + x)))" by (rule sum_nonneg) (simp add: space_at_def)
  with Suc.prems split [of "space_at st"] have "out_bytes st + space_at st (j_first j + int i) \<le> out_cap st" by linarith
  with work_worked [of st j i t] Suc.prems(1) [of i] obtain st1 where
    st1: "work t j i st = Some st1" "worked st st1 (value_at st (j_first j + int i)) (space_at st (j_first j + int i))" by auto
  then have r: "rest_sys st1 = rest_sys st" and b: "out_bytes st1 = out_bytes st + space_at st (j_first j + int i)"
    by (simp_all add: worked_def)
  have "\<exists>st'. worker_from t j (Suc i) k st1 = Some st' \<and>
    worked st1 st' (\<Sum>x<k. value_at st1 (j_first j + int (Suc i + x))) (\<Sum>x<k. space_at st1 (j_first j + int (Suc i + x)))"
  proof (rule Suc.IH)
    fix x assume "Suc i \<le> x" "x < Suc i + k"
    then show "line_ok st1 (j_first j + int x)" unfolding line_ok_rest [OF r] by (intro Suc.prems(1)) simp_all
  next
    show "out_bytes st1 + (\<Sum>x<k. space_at st1 (j_first j + int (Suc i + x))) \<le> out_cap st1"
      unfolding at_rest [OF r] rest_sysD [OF r] b using Suc.prems(2) unfolding split by linarith
  qed
  then show ?case
    using st1 worked_trans [OF st1(2)] unfolding at_rest [OF r] split by auto
qed (simp add: worked_refl)

subsection \<open>The jobs of a round\<close>

text \<open>The jobs cover the lines of the round once, in order.\<close>

lemma make_jobs_range:
  "1 \<le> per \<Longrightarrow>
   list_all (\<lambda>j. 1 \<le> j_count j \<and> first \<le> j_first j \<and> j_first j + j_count j \<le> lim) (make_jobs w per lim t first)"
proof (induction w per lim t first rule: make_jobs.induct)
  case (1 w per lim t first)
  let ?c = "if first + per \<le> lim then per else lim - first"
  show ?case
  proof (cases "t < w \<and> first < lim")
    case True
    then have "1 \<le> ?c" "first + ?c \<le> lim" using 1(2) by auto
    with True "1.IH" [OF True refl 1(2)] show ?thesis
      by (subst make_jobs.simps) (fastforce simp: list_all_iff Let_def)
  next
    case False
    then show ?thesis by (subst make_jobs.simps) auto
  qed
qed

lemma length_make_jobs: "int (length (make_jobs w per lim t first)) \<le> max 0 (w - t)"
proof (induction w per lim t first rule: make_jobs.induct)
  case (1 w per lim t first)
  show ?case
  proof (cases "t < w \<and> first < lim")
    case True
    with "1.IH" [OF True refl] show ?thesis
      by (subst make_jobs.simps) (simp add: Let_def)
  qed (simp add: make_jobs.simps)
qed

definition job_lines :: "job \<Rightarrow> int list" where
  "job_lines j = [j_first j..j_first j + j_count j - 1]"

lemma job_lines_made [simp]: "job_lines \<lparr>j_first = a, j_count = c\<rparr> = [a..a + c - 1]"
  by (simp add: job_lines_def)

lemma make_jobs_lines:
  assumes "1 \<le> per" and "lim - first \<le> (w - t) * per"
  shows "concat (map job_lines (make_jobs w per lim t first)) = [first..lim - 1]"
  using assms
proof (induction w per lim t first rule: make_jobs.induct)
  case (1 w per lim t first)
  show ?case
  proof (cases "t < w \<and> first < lim")
    case True
    define c where "c = (if first + per \<le> lim then per else lim - first)"
    have c: "1 \<le> c" "first + c \<le> lim" using 1(2) True by (auto simp: c_def)
    have "lim - (first + c) \<le> (w - (t + 1)) * per"
    proof (cases "first + per \<le> lim")
      case False
      have "0 \<le> (w - (t + 1)) * per" using True 1(2) by simp
      then show ?thesis using False by (simp add: c_def)
    qed (use 1(3) in \<open>simp add: c_def algebra_simps\<close>)
    note IH = "1.IH" [OF True c_def 1(2) this]
    have "make_jobs w per lim t first = \<lparr>j_first = first, j_count = c\<rparr> # make_jobs w per lim (t + 1) (first + c)"
      using True by (subst make_jobs.simps) (simp add: Let_def c_def)
    then have "concat (map job_lines (make_jobs w per lim t first)) = [first..first + c - 1] @ [first + c..lim - 1]"
      using IH by simp
    then show ?thesis using c upto_split2 [of first "first + c - 1" "lim - 1"] by simp
  next
    case False
    have "lim \<le> first"
    proof (rule ccontr)
      assume "\<not> lim \<le> first"
      then have "0 < (w - t) * per" using 1(3) by linarith
      then have "0 < w - t" using 1(2) by (simp add: zero_less_mult_iff)
      then show False using False \<open>\<not> lim \<le> first\<close> by simp
    qed
    then show ?thesis using False by (simp add: make_jobs.simps)
  qed
qed

lemma sum_upto: "(\<Sum>x<n. f (a + int x)) = (\<Sum>x\<leftarrow>[a..a + int n - 1]. f x)" for f :: "int \<Rightarrow> int"
proof (induction n)
  case (Suc n)
  have "[a..a + int (Suc n) - 1] = [a..a + int n - 1] @ [a + int n]" using upto_rec2 [of a "a + int n"] by simp
  then show ?case using Suc by simp
qed simp

lemma sum_concat: "(\<Sum>x\<leftarrow>concat (map g js). f x) = (\<Sum>j\<leftarrow>js. \<Sum>x\<leftarrow>g j. f x)" for f :: "'a \<Rightarrow> int"
  by (induction js) simp_all

lemma make_jobs_sum:
  fixes f :: "int \<Rightarrow> int"
  assumes "1 \<le> per" and "lim - first \<le> (w - t) * per"
  shows "(\<Sum>j\<leftarrow>make_jobs w per lim t first. \<Sum>i<nat (j_count j). f (j_first j + int i)) =
    (\<Sum>x<nat (lim - first). f (first + int x))"
proof -
  let ?js = "make_jobs w per lim t first"
  have "(\<Sum>j\<leftarrow>?js. \<Sum>i<nat (j_count j). f (j_first j + int i)) = (\<Sum>j\<leftarrow>?js. \<Sum>x\<leftarrow>job_lines j. f x)"
    using make_jobs_range [OF assms(1), of first lim w t]
    by (intro arg_cong [where f = sum_list] map_cong) (auto simp: list_all_iff sum_upto job_lines_def)
  also have "\<dots> = (\<Sum>x\<leftarrow>concat (map job_lines ?js). f x)"
    by (rule sum_concat [symmetric])
  finally show ?thesis using make_jobs_lines [OF assms] by (cases "first \<le> lim") (simp_all add: sum_upto)
qed

subsection \<open>Workers taking turns\<close>

definition done_sum :: "(int \<Rightarrow> int) \<Rightarrow> job list \<Rightarrow> nat list \<Rightarrow> int" where
  "done_sum f js ds = (\<Sum>t<length js. \<Sum>i<ds ! t. f (j_first (js ! t) + int i))"

lemma done_sum_step:
  assumes "t < length js" and "length ds = length js"
  shows "done_sum f js (ds[t := ds ! t + 1]) = done_sum f js ds + f (j_first (js ! t) + int (ds ! t))"
proof -
  have t: "t \<in> {..<length js}" using assms(1) by simp
  have "(\<Sum>u\<in>{..<length js} - {t}. \<Sum>i<ds[t := ds ! t + 1] ! u. f (j_first (js ! u) + int i)) =
      (\<Sum>u\<in>{..<length js} - {t}. \<Sum>i<ds ! u. f (j_first (js ! u) + int i))"
    by (rule sum.cong) auto
  then show ?thesis using assms by (simp add: done_sum_def sum.remove [OF _ t])
qed

lemma done_sum_mono:
  assumes "\<And>x. 0 \<le> f x" and "\<And>t. t < length js \<Longrightarrow> ds ! t \<le> es ! t"
  shows "done_sum f js ds \<le> done_sum f js es"
  unfolding done_sum_def
  by (intro sum_mono sum_mono2) (use assms in \<open>auto dest: order_less_le_trans\<close>)

definition goals :: "job list \<Rightarrow> nat list" where
  "goals js = map (\<lambda>j. nat (j_count j)) js"

lemma goals_simps [simp]: "length (goals js) = length js" "t < length js \<Longrightarrow> goals js ! t = nat (j_count (js ! t))"
  by (simp_all add: goals_def)

lemma turns_worked:
  assumes "length ds = length js" and "\<And>t. t < length js \<Longrightarrow> ds ! t \<le> goals js ! t"
    and "\<And>t i. t < length js \<Longrightarrow> i < goals js ! t \<Longrightarrow> line_ok st (j_first (js ! t) + int i)"
    and "out_bytes st + (done_sum (space_at st) js (goals js) - done_sum (space_at st) js ds) \<le> out_cap st"
  shows "\<exists>ds' st'. turns js ts ds st = Some (ds', st') \<and> length ds' = length js \<and>
    (\<forall>t<length js. ds' ! t = min (goals js ! t) (ds ! t + count_list ts t)) \<and>
    worked st st' (done_sum (value_at st) js ds' - done_sum (value_at st) js ds)
      (done_sum (space_at st) js ds' - done_sum (space_at st) js ds)"
  using assms
proof (induction ts arbitrary: ds st)
  case Nil
  have "ds ! t = min (goals js ! t) (ds ! t)" if "t < length js" for t using Nil.prems(2) [OF that] by simp
  then show ?case using Nil.prems(1) by (simp add: worked_refl)
next
  case (Cons t ts)
  show ?case
  proof (cases "t < length js \<and> int (ds ! t) < j_count (js ! t)")
    case True
    let ?ds = "ds[t := ds ! t + 1]" and ?x = "j_first (js ! t) + int (ds ! t)"
    have lt: "ds ! t < goals js ! t" using True by (simp add: zless_nat_eq_int_zless)
    have le: "u < length js \<Longrightarrow> ?ds ! u \<le> goals js ! u" for u
      using Cons.prems(1,2) lt by (cases "u = t") auto
    have step: "done_sum f js ?ds = done_sum f js ds + f ?x" for f
      using True Cons.prems(1) done_sum_step [of t js ds f] by simp
    have "done_sum (space_at st) js ?ds \<le> done_sum (space_at st) js (goals js)"
      by (rule done_sum_mono) (use le in \<open>auto simp: space_at_def\<close>)
    then have "out_bytes st + space_at st ?x \<le> out_cap st" using Cons.prems(4) step [of "space_at st"] by linarith
    with work_worked [of st "js ! t" "ds ! t" "t + 1"] Cons.prems(3) True lt obtain st1
      where st1: "work (t + 1) (js ! t) (ds ! t) st = Some st1" "worked st st1 (value_at st ?x) (space_at st ?x)" by blast
    then have r: "rest_sys st1 = rest_sys st" and b: "out_bytes st1 = out_bytes st + space_at st ?x"
      by (simp_all add: worked_def)
    have "\<exists>ds' st'. turns js ts ?ds st1 = Some (ds', st') \<and> length ds' = length js \<and>
        (\<forall>u<length js. ds' ! u = min (goals js ! u) (?ds ! u + count_list ts u)) \<and>
        worked st1 st' (done_sum (value_at st1) js ds' - done_sum (value_at st1) js ?ds)
          (done_sum (space_at st1) js ds' - done_sum (space_at st1) js ?ds)"
    proof (rule Cons.IH)
      show "length ?ds = length js" using Cons.prems(1) by simp
      show "u < length js \<Longrightarrow> ?ds ! u \<le> goals js ! u" for u by (rule le)
      show "u < length js \<Longrightarrow> i < goals js ! u \<Longrightarrow> line_ok st1 (j_first (js ! u) + int i)" for u i
        unfolding line_ok_rest [OF r] by (rule Cons.prems(3))
      show "out_bytes st1 + (done_sum (space_at st1) js (goals js) - done_sum (space_at st1) js ?ds) \<le> out_cap st1"
        unfolding at_rest [OF r] rest_sysD [OF r] b step using Cons.prems(4) by linarith
    qed
    then obtain ds' st' where IH: "turns js ts ?ds st1 = Some (ds', st')" "length ds' = length js"
      "\<forall>u<length js. ds' ! u = min (goals js ! u) (?ds ! u + count_list ts u)"
      "worked st1 st' (done_sum (value_at st1) js ds' - done_sum (value_at st1) js ?ds)
          (done_sum (space_at st1) js ds' - done_sum (space_at st1) js ?ds)" by blast
    have "worked st st' (done_sum (value_at st) js ds' - done_sum (value_at st) js ds)
        (done_sum (space_at st) js ds' - done_sum (space_at st) js ds)"
      using worked_trans [OF st1(2) IH(4) [unfolded at_rest [OF r]]] unfolding step by (simp add: algebra_simps)
    moreover have "?ds ! u + count_list ts u = ds ! u + count_list (t # ts) u" if "u < length js" for u
      using that True Cons.prems(1) by (cases "u = t") simp_all
    ultimately show ?thesis using True st1(1) IH(1-3) by auto
  next
    case False
    have c: "min (goals js ! u) (ds ! u + count_list (t # ts) u) = min (goals js ! u) (ds ! u + count_list ts u)"
      if "u < length js" for u
      using False Cons.prems(2) [OF that] that by (cases "u = t") auto
    from Cons.IH [OF Cons.prems] obtain ds' st' where IH: "turns js ts ds st = Some (ds', st')" "length ds' = length js"
      "\<forall>u<length js. ds' ! u = min (goals js ! u) (ds ! u + count_list ts u)"
      "worked st st' (done_sum (value_at st) js ds' - done_sum (value_at st) js ds)
        (done_sum (space_at st) js ds' - done_sum (space_at st) js ds)" by blast
    have "turns js (t # ts) ds st = Some (ds', st')" using False IH(1) by auto
    with IH(2-4) c show ?thesis by (intro exI conjI) auto
  qed
qed

lemma count_list_all_turns: "t < length js \<Longrightarrow> count_list (all_turns js) t = goals js ! t"
proof -
  assume "t < length js"
  have one: "count_list (replicate n (u::nat)) t = (if u = t then n else 0)" for n u by (induction n) auto
  have "count_list (concat (map (\<lambda>u. replicate (g u) u) us)) t = (\<Sum>u\<leftarrow>us. if u = t then g u else 0)" for g us
    by (induction us) (simp_all add: one)
  moreover have "(\<Sum>u\<leftarrow>[0..<n]. if u = t then g u else 0) = (if t < n then g t else 0)" for g :: "nat \<Rightarrow> nat" and n
    by (induction n) auto
  ultimately show ?thesis using \<open>t < length js\<close> by (simp add: all_turns_def)
qed

text \<open>A whole round of jobs, for every order of the turns.\<close>

lemma run_jobs_worked:
  assumes "\<And>t i. t < length js \<Longrightarrow> i < goals js ! t \<Longrightarrow> line_ok st (j_first (js ! t) + int i)"
    and "out_bytes st + (\<Sum>j\<leftarrow>js. \<Sum>i<nat (j_count j). space_at st (j_first j + int i)) \<le> out_cap st"
  shows "\<exists>st'. run_jobs js order st = Some st' \<and>
    worked st st' (\<Sum>j\<leftarrow>js. \<Sum>i<nat (j_count j). value_at st (j_first j + int i))
      (\<Sum>j\<leftarrow>js. \<Sum>i<nat (j_count j). space_at st (j_first j + int i))"
proof -
  have all: "(\<Sum>j\<leftarrow>js. \<Sum>i<nat (j_count j). f (j_first j + int i)) = done_sum f js (goals js)" for f
    by (simp add: done_sum_def sum_list_sum_nth atLeast0LessThan)
  let ?z = "replicate (length js) (0::nat)"
  have z: "done_sum f js ?z = 0" for f by (simp add: done_sum_def)
  have "\<exists>ds' st'. turns js (order @ all_turns js) ?z st = Some (ds', st') \<and> length ds' = length js \<and>
      (\<forall>t<length js. ds' ! t = min (goals js ! t) (?z ! t + count_list (order @ all_turns js) t)) \<and>
      worked st st' (done_sum (value_at st) js ds' - done_sum (value_at st) js ?z)
        (done_sum (space_at st) js ds' - done_sum (space_at st) js ?z)"
    by (rule turns_worked) (use assms in \<open>simp_all add: all z\<close>)
  then obtain ds' st' where T: "turns js (order @ all_turns js) ?z st = Some (ds', st')" "length ds' = length js"
    "\<forall>t<length js. ds' ! t = min (goals js ! t) (?z ! t + count_list (order @ all_turns js) t)"
    "worked st st' (done_sum (value_at st) js ds') (done_sum (space_at st) js ds')" by (auto simp: z)
  have "ds' = goals js" by (rule nth_equalityI) (use T(2,3) in \<open>simp_all add: count_list_all_turns\<close>)
  with T(1,4) show ?thesis by (simp add: run_jobs_def all)
qed

end
