(* ===== verification/Relations.thy ===== *)
theory Relations
  imports Perfmark
begin

text \<open>
  Relations between the states that marker calls declare: the sum of a declared value over the calls
  so far, and the law that each begin of one region declares what another region has added up to
  less what it has itself.
\<close>

type_synonym calls = "(nat \<times> mark) list"   \<comment> \<open>each with the number of the thread\<close>

fun field_value :: "string \<Rightarrow> string \<Rightarrow> nat \<times> mark \<Rightarrow> i64" where
  "field_value r f (t, Mark_begin r' nm v) = (if r' = r \<and> nm = f then v else 0)"
| "field_value r f (t, Mark_begin_v r' sts) = (if r' = r then (case map_of sts f of None \<Rightarrow> 0 | Some v \<Rightarrow> v) else 0)"
| "field_value r f _ = 0"

definition field_total :: "string \<Rightarrow> string \<Rightarrow> calls \<Rightarrow> i64" where
  "field_total r f ms = (\<Sum>m\<leftarrow>ms. field_value r f m)"

text \<open>Every begin of \<open>r\<close> declares \<open>f\<close>, with the value \<open>n\<close>.\<close>

fun declares :: "string \<Rightarrow> string \<Rightarrow> i64 \<Rightarrow> nat \<times> mark \<Rightarrow> bool" where
  "declares r f n (t, Mark_begin r' nm v) = (r' = r \<longrightarrow> nm = f \<and> v = n)"
| "declares r f n (t, Mark_begin_v r' sts) = (r' = r \<longrightarrow> map_of sts f = Some n)"
| "declares r f n _ = True"

text \<open>\<open>out.f = cum(in.a) - cum(out.b)\<close> at every begin of \<open>out\<close>, with the difference \<open>n\<close> before the calls.\<close>

fun cum_law :: "string \<times> string \<Rightarrow> string \<times> string \<Rightarrow> string \<Rightarrow> i64 \<Rightarrow> calls \<Rightarrow> bool" where
  "cum_law src dst f n [] = True"
| "cum_law src dst f n (m # ms) \<longleftrightarrow> declares (fst dst) f n m \<and>
     cum_law src dst f (n + field_value (fst src) (snd src) m - field_value (fst dst) (snd dst) m) ms"

lemma field_total_simps [simp]:
  "field_total r f [] = 0" "field_total r f (m # ms) = field_value r f m + field_total r f ms"
  "field_total r f (a @ b) = field_total r f a + field_total r f b"
  by (simp_all add: field_total_def)

lemma cum_law_append [simp]:
  "cum_law src dst f n (a @ b) \<longleftrightarrow> cum_law src dst f n a \<and>
     cum_law src dst f (n + field_total (fst src) (snd src) a - field_total (fst dst) (snd dst) a) b"
  by (induction a arbitrary: n) (simp_all add: algebra_simps)

text \<open>What the law says of a call, without the recursion.\<close>

lemma cum_law_at:
  "cum_law src dst f 0 (a @ m # b) \<Longrightarrow>
     declares (fst dst) f (field_total (fst src) (snd src) a - field_total (fst dst) (snd dst) a) m"
  by simp

end
