(* ===== verification/Pipeline.thy ===== *)
theory Pipeline
  imports Rounds Relations
begin

text \<open>
  The main loop of the playground against an abstract FIFO of lines: the ring buffer, the workers and
  the order of their turns are gone there, and so are the first contents of the buffers. The loop
  simulates it turn by turn, and ends.
\<close>

subsection \<open>The parts that never change\<close>

definition nothing :: memory where "nothing = (\<lambda>_. 0)"

definition table :: "config \<Rightarrow> system" where
  "table c = start_system c nothing nothing"

definition static :: "system \<Rightarrow> system" where
  "static st = st\<lparr>rng_state := 0, queue := nothing, qhead := 0, qtail := 0, outbuf := nothing, out_bytes := 0,
     checksum := 0, marks := []\<rparr>"

definition sys_ok :: "config \<Rightarrow> system \<Rightarrow> bool" where
  "sys_ok c st \<longleftrightarrow> static st = static (table c)"

text \<open>Arguments for which the loop ingests, and for which it also drains.\<close>

definition sizes_ok :: "config \<Rightarrow> bool" where
  "sizes_ok c \<longleftrightarrow> 0 \<le> reqs c \<and> 1 \<le> batch c \<and> 1 \<le> entries_arg c \<and> 32 \<le> len_arg c"

definition config_ok :: "config \<Rightarrow> bool" where
  "config_ok c \<longleftrightarrow> sizes_ok c \<and> 1 \<le> pop_cap c"

lemma config_okD [dest]: "config_ok c \<Longrightarrow> sizes_ok c"
  by (simp add: config_ok_def)

lemma add_words_fields:
  "add_words n st = st\<lparr>rng_state := rng_state (add_words n st), vocab := vocab (add_words n st), buckets := buckets (add_words n st)\<rparr>"
  by (induction n st rule: add_words.induct) (simp_all add: Let_def split_beta)

lemma add_words_buffers:
  "add_words n (st\<lparr>queue := q, outbuf := b\<rparr>) = (add_words n st)\<lparr>queue := q, outbuf := b\<rparr>"
proof (induction n arbitrary: st)
  case (Suc n)
  show ?case by (cases st) (simp add: Let_def split_beta Suc.IH [symmetric])
qed simp

lemma start_system_buffers: "start_system c qm om = (table c)\<lparr>queue := qm, outbuf := om\<rparr>"
proof -
  have "add_words n \<lparr>rng_state = r, vocab = v, buckets = b, entries = e, line_max = l, queue = qm, llen = ll, qcap = qc,
      qhead = h, qtail = t, outbuf = om, out_bytes = ob, out_cap = oc, checksum = cs, marks = ms\<rparr> =
    (add_words n \<lparr>rng_state = r, vocab = v, buckets = b, entries = e, line_max = l, queue = nothing, llen = ll, qcap = qc,
      qhead = h, qtail = t, outbuf = nothing, out_bytes = ob, out_cap = oc, checksum = cs, marks = ms\<rparr>)\<lparr>queue := qm, outbuf := om\<rparr>"
    for n r v b e l ll qc h t ob oc cs ms
    by (subst add_words_buffers [symmetric]) simp
  then show ?thesis by (simp add: table_def start_system_def table_init_def Let_def)
qed

lemma table_fields:
  "line_max (table c) = len_arg c" "entries (table c) = entries_arg c" "qcap (table c) = reqs c + 4 * batch c"
  "llen (table c) = map (\<lambda>i. line_len (len_arg c) (int i)) [0..<nat (reqs c + 4 * batch c)]"
  "out_cap (table c) = (2 * pop_cap c + 8) * (len_arg c + 40)" "qhead (table c) = 0" "qtail (table c) = 0"
  "out_bytes (table c) = 0" "checksum (table c) = 0" "marks (table c) = []"
  unfolding table_def start_system_def table_init_def Let_def
  by (subst add_words_fields, simp)+

lemma sys_okD:
  assumes "sys_ok c st"
  shows "vocab st = vocab (table c)" "entries st = entries_arg c" "buckets st = buckets (table c)"
    "line_max st = len_arg c" "qcap st = reqs c + 4 * batch c"
    "llen st = map (\<lambda>i. line_len (len_arg c) (int i)) [0..<nat (reqs c + 4 * batch c)]"
    "out_cap st = (2 * pop_cap c + 8) * (len_arg c + 40)"
  using arg_cong [OF assms [unfolded sys_ok_def], of vocab] arg_cong [OF assms [unfolded sys_ok_def], of entries]
    arg_cong [OF assms [unfolded sys_ok_def], of buckets] arg_cong [OF assms [unfolded sys_ok_def], of line_max]
    arg_cong [OF assms [unfolded sys_ok_def], of qcap] arg_cong [OF assms [unfolded sys_ok_def], of llen]
    arg_cong [OF assms [unfolded sys_ok_def], of out_cap]
  by (simp_all add: static_def table_fields)

lemma sys_ok_upd [simp]:
  "sys_ok c (st\<lparr>rng_state := a\<rparr>) = sys_ok c st" "sys_ok c (st\<lparr>queue := m\<rparr>) = sys_ok c st"
  "sys_ok c (st\<lparr>qhead := i\<rparr>) = sys_ok c st" "sys_ok c (st\<lparr>qtail := i\<rparr>) = sys_ok c st"
  "sys_ok c (st\<lparr>outbuf := m\<rparr>) = sys_ok c st" "sys_ok c (st\<lparr>out_bytes := i\<rparr>) = sys_ok c st"
  "sys_ok c (st\<lparr>checksum := i\<rparr>) = sys_ok c st" "sys_ok c (st\<lparr>marks := ms\<rparr>) = sys_ok c st"
  "sys_ok c (table c)" "sys_ok c (mark t k st) = sys_ok c st"
  by (simp_all add: sys_ok_def static_def mark_def)

lemma sys_ok_rest: "rest_sys st = rest_sys st' \<Longrightarrow> sys_ok c st = sys_ok c st'"
proof -
  assume r: "rest_sys st = rest_sys st'"
  have "static st = static (rest_sys st)" for st by (simp add: static_def rest_sys_def)
  with r show ?thesis by (metis sys_ok_def)
qed

subsection \<open>Lines and their places\<close>

lemma line_len_range:
  assumes "32 \<le> n" and "0 \<le> x"
  shows "8 \<le> line_len n x" "line_len n x \<le> n"
proof -
  have "x smod 4 \<in> {0, 1, 2, 3}" using assms(2) pos_mod_bound [of 4 x] pos_mod_sign [of 4 x] by (auto simp: smod_nonneg)
  then have "[1, 2, 3, 4] ! nat (x smod 4) \<in> {1, 2, 3, 4::int}" by auto
  moreover have "8 \<le> n div 4" "n div 4 * 4 \<le> n" using assms(1) by simp_all
  ultimately show "8 \<le> line_len n x" "line_len n x \<le> n"
    using assms(1) by (auto simp: line_len_def sdiv_nonneg)
qed

definition line_start :: "config \<Rightarrow> int \<Rightarrow> nat" where
  "line_start c x = nat (x * len_arg c)"

lemma line_place:
  assumes "sys_ok c st" and "0 \<le> x" and "x < reqs c + 4 * batch c"
  shows "slot_index st x = nat x" "llen st ! nat x = line_len (len_arg c) x" "x smod qcap st = x"
    "line_at st x = fetch (line_start c x) (nat (line_len (len_arg c) x)) (queue st)"
  using assms sys_okD [OF assms(1)]
  by (simp_all add: slot_index_def line_at_def smod_nonneg line_start_def)

lemma store_same: "fetch a (length l) (store a l m) = l"
  by (rule nth_equalityI) (simp_all add: nth_fetch store_def)

lemma store_other: "a + n \<le> b \<or> b + length l \<le> a \<Longrightarrow> fetch a n (store b l m) = fetch a n m"
  by (rule nth_equalityI) (auto simp: nth_fetch store_def)

lemma line_starts_apart:
  assumes "32 \<le> len_arg c" and "0 \<le> x" and "0 \<le> y" and "x \<noteq> y"
  shows "line_start c x + nat (line_len (len_arg c) x) \<le> line_start c y \<or>
    line_start c y + nat (line_len (len_arg c) y) \<le> line_start c x"
proof -
  have apart: "line_start c u + nat (line_len (len_arg c) u) \<le> line_start c v" if "0 \<le> u" "u < v" for u v
  proof -
    have "u * len_arg c + len_arg c \<le> v * len_arg c"
      using mult_right_mono [of "u + 1" v "len_arg c"] that assms(1) by (simp add: algebra_simps)
    then have "u * len_arg c + line_len (len_arg c) u \<le> v * len_arg c" using line_len_range [OF assms(1) that(1)] by linarith
    moreover have "0 \<le> u * len_arg c" using that assms(1) by simp
    moreover have "0 \<le> line_len (len_arg c) u" using line_len_range [OF assms(1) that(1)] by linarith
    ultimately show ?thesis unfolding line_start_def by linarith
  qed
  show ?thesis using apart [of x y] apart [of y x] assms by (cases "x < y") auto
qed

subsection \<open>The abstract FIFO\<close>

record fifo =
  f_rng :: u64
  f_lines :: "byte list list"
  f_sum :: int

text \<open>The lines number \<open>x\<close>, \<open>x + 1\<close>, .. that the generator makes.\<close>

fun new_lines :: "config \<Rightarrow> int \<Rightarrow> nat \<Rightarrow> u64 \<Rightarrow> (byte list list \<times> u64) option" where
  "new_lines c x 0 s = Some ([], s)"
| "new_lines c x (Suc k) s = do {
     (l, s1) \<leftarrow> make_line (line_len (len_arg c) x) ((table c)\<lparr>rng_state := s\<rparr>);
     (ls, s2) \<leftarrow> new_lines c (x + 1) k s1;
     Some (l # ls, s2)
   }"

definition fifo_fill :: "config \<Rightarrow> fifo loop_state \<Rightarrow> fifo loop_state option" where
  "fifo_fill c f =
     (if produced f < reqs c
      then do {
        (ls, s) \<leftarrow> new_lines c (produced f) (nat (batch_size c f)) (f_rng (sys_state f));
        Some (f\<lparr>produced := produced f + batch_size c f,
                sys_state := (sys_state f)\<lparr>f_rng := s, f_lines := f_lines (sys_state f) @ ls\<rparr>\<rparr>)
      }
      else Some f)"

definition fifo_drain :: "config \<Rightarrow> fifo loop_state \<Rightarrow> fifo loop_state" where
  "fifo_drain c f =
     (let ls = f_lines (sys_state f); q = nat (pop_cap c - (rounds f mod 4) * (pop_cap c div 8))
      in f\<lparr>rounds := rounds f + 1,
           sys_state := (sys_state f)\<lparr>f_lines := drop q ls,
             f_sum := f_sum (sys_state f) + (\<Sum>l\<leftarrow>take q ls. line_value (buckets (table c)) l)\<rparr>\<rparr>)"

definition fifo_turn :: "config \<Rightarrow> fifo loop_state \<Rightarrow> fifo loop_state option" where
  "fifo_turn c f = map_option (fifo_drain c) (fifo_fill c f)"

definition abs_sys :: "system \<Rightarrow> fifo" where
  "abs_sys st = \<lparr>f_rng = rng_state st, f_lines = map (line_at st) [qhead st..qtail st - 1], f_sum = checksum st\<rparr>"

definition abs_loop :: "system loop_state \<Rightarrow> fifo loop_state" where
  "abs_loop l = \<lparr>produced = produced l, rounds = rounds l, sys_state = abs_sys (sys_state l)\<rparr>"

subsection \<open>Ingest\<close>

lemma length_random_word: "length (fst (random_word n s)) = n"
  by (induction n arbitrary: s) (simp_all add: Let_def split_beta)

lemma add_words_vocab:
  "list_all (\<lambda>w. length w = WORD) (vocab st) \<Longrightarrow>
     list_all (\<lambda>w. length w = WORD) (vocab (add_words n st)) \<and> length (vocab (add_words n st)) = length (vocab st) + n"
  by (induction n st rule: add_words.induct) (simp_all add: Let_def split_beta length_random_word)

lemma table_vocab:
  "list_all (\<lambda>w. length w = WORD) (vocab (table c))" "length (vocab (table c)) = nat (entries_arg c)"
  using add_words_vocab [of "\<lparr>rng_state = 0x9E3779B97F4A7C15, vocab = [], buckets = (\<lambda>_. []), entries = entries_arg c,
      line_max = len_arg c, queue = nothing, llen = [], qcap = 0, qhead = 0, qtail = 0, outbuf = nothing, out_bytes = 0,
      out_cap = 0, checksum = 0, marks = []\<rparr>" "nat (entries_arg c)"]
  by (simp_all add: table_def start_system_def table_init_def Let_def)

lemma make_words_made:
  assumes "0 < n" and "length vs = nat n" and "list_all (\<lambda>w. length w = WORD) vs"
  shows "\<exists>l s'. make_words k vs n s = Some (l, s') \<and> length l = 8 * k"
proof (induction k arbitrary: s)
  case (Suc k)
  obtain r s1 where r: "rnd s = (r, s1)" by (cases "rnd s")
  obtain l s' where l: "make_words k vs n s1 = Some (l, s')" "length l = 8 * k" using Suc by blast
  have "int (unat r) mod n < n" using assms(1) by simp
  then have "nat (int (unat r) smod n) < length vs" using assms(1,2) by (simp add: smod_nonneg nat_less_iff)
  then have "length (vs ! nat (int (unat r) smod n)) = 7" using assms(3) by (simp add: list_all_length WORD_def)
  then show ?case using assms(1) r l by simp
qed simp

lemma make_line_made:
  assumes "sizes_ok c" and "sys_ok c st"
  shows "\<exists>l s. make_line n st = Some (l, s) \<and> length l = nat n"
    and "make_line n ((table c)\<lparr>rng_state := rng_state st\<rparr>) = make_line n st"
proof -
  have "0 < entries_arg c" using assms(1) by (simp add: sizes_ok_def)
  from make_words_made [OF this table_vocab(2,1), of "nat n div (WORD + 1)" "rng_state st"]
  obtain l s where l: "make_words (nat n div (WORD + 1)) (vocab (table c)) (entries_arg c) (rng_state st) = Some (l, s)"
    "length l = 8 * (nat n div 8)" by (auto simp: WORD_def)
  have "8 * (nat n div 8) + nat n mod 8 = nat n" by simp
  then show "\<exists>l s. make_line n st = Some (l, s) \<and> length l = nat n"
    using l by (simp add: make_line_def sys_okD [OF assms(2)] WORD_def)
  show "make_line n ((table c)\<lparr>rng_state := rng_state st\<rparr>) = make_line n st"
    by (simp add: make_line_def sys_okD [OF assms(2)] table_fields)
qed

text \<open>Ingesting appends the generator's next lines and leaves the lines before them alone.\<close>

lemma ingest_lines_appends:
  assumes "sizes_ok c" and "sys_ok c st" and "0 \<le> qtail st" and "qtail st + int k \<le> reqs c + 4 * batch c"
    and "0 < reqs c + 4 * batch c"
  shows "\<exists>ls s m. new_lines c (qtail st) k (rng_state st) = Some (ls, s) \<and> length ls = k \<and>
    ingest_lines k st = Some (st\<lparr>rng_state := s, queue := m, qtail := qtail st + int k\<rparr>) \<and>
    (\<forall>x. 0 \<le> x \<longrightarrow> x < qtail st \<longrightarrow> fetch (line_start c x) (nat (line_len (len_arg c) x)) m =
       fetch (line_start c x) (nat (line_len (len_arg c) x)) (queue st)) \<and>
    (\<forall>i<k. fetch (line_start c (qtail st + int i)) (nat (line_len (len_arg c) (qtail st + int i))) m = ls ! i)"
  using assms(2-4)
proof (induction k arbitrary: st)
  case 0
  show ?case by (intro exI [of _ "[]"] exI [of _ "rng_state st"] exI [of _ "queue st"]) simp
next
  case (Suc k)
  let ?x = "qtail st" and ?n = "line_len (len_arg c)"
  have len: "32 \<le> len_arg c" using assms(1) by (simp add: sizes_ok_def)
  have P: "?x smod qcap st = ?x" "llen st ! nat ?x = ?n ?x" using line_place [OF Suc.prems(1,2)] Suc.prems(3) by simp_all
  obtain l s where l: "make_line (?n ?x) st = Some (l, s)" "length l = nat (?n ?x)"
    using make_line_made(1) [OF assms(1) Suc.prems(1)] by blast
  define st1 where "st1 = st\<lparr>rng_state := s, queue := store (line_start c ?x) l (queue st), qtail := ?x + 1\<rparr>"
  have "sys_ok c st1" "0 \<le> qtail st1" "qtail st1 + int k \<le> reqs c + 4 * batch c"
    using Suc.prems by (simp_all add: st1_def)
  from Suc.IH [OF this] obtain ls s' m where IH: "new_lines c (qtail st1) k (rng_state st1) = Some (ls, s')" "length ls = k"
    "ingest_lines k st1 = Some (st1\<lparr>rng_state := s', queue := m, qtail := qtail st1 + int k\<rparr>)"
    "\<And>x. 0 \<le> x \<Longrightarrow> x < qtail st1 \<Longrightarrow> fetch (line_start c x) (nat (?n x)) m = fetch (line_start c x) (nat (?n x)) (queue st1)"
    "\<And>i. i < k \<Longrightarrow> fetch (line_start c (qtail st1 + int i)) (nat (?n (qtail st1 + int i))) m = ls ! i" by blast
  have "ingest_lines (Suc k) st = ingest_lines k st1"
    using Suc.prems assms(5) l P sys_okD [OF Suc.prems(1)] by (simp add: Let_def st1_def line_start_def)
  then have run: "ingest_lines (Suc k) st = Some (st\<lparr>rng_state := s', queue := m, qtail := qtail st + int (Suc k)\<rparr>)"
    using IH(3) by (simp add: st1_def algebra_simps)
  have new: "new_lines c ?x (Suc k) (rng_state st) = Some (l # ls, s')"
    using make_line_made(2) [OF assms(1) Suc.prems(1), of "?n ?x"] l(1) IH(1) by (simp add: st1_def)
  have old: "fetch (line_start c x) (nat (?n x)) m = fetch (line_start c x) (nat (?n x)) (queue st)" if "0 \<le> x" "x < ?x" for x
    using IH(4) [of x] that line_starts_apart [OF len that(1) Suc.prems(2)] l(2)
    by (simp add: st1_def store_other)
  have "fetch (line_start c ?x) (nat (?n ?x)) m = l"
    using IH(4) [of ?x] Suc.prems(2) store_same [of "line_start c ?x" l] l(2) by (simp add: st1_def)
  then have "fetch (line_start c (?x + int i)) (nat (?n (?x + int i))) m = (l # ls) ! i" if "i < Suc k" for i
    using that IH(5) [of "i - 1"] by (cases i) (simp_all add: st1_def algebra_simps)
  with run new old IH(2) show ?case by (intro exI [of _ "l # ls"] exI [of _ s'] exI [of _ m]) simp
qed

text \<open>The state of the loop between its turns.\<close>

definition loop_ok :: "config \<Rightarrow> system loop_state \<Rightarrow> bool" where
  "loop_ok c l \<longleftrightarrow> sys_ok c (sys_state l) \<and> 0 \<le> rounds l \<and> 0 \<le> produced l \<and> produced l \<le> reqs c \<and>
     qtail (sys_state l) = produced l \<and> 0 \<le> qhead (sys_state l) \<and> qhead (sys_state l) \<le> produced l \<and>
     out_bytes (sys_state l) = 0"

lemma batch_size_range:
  assumes "sizes_ok c" and "0 \<le> rounds l" and "produced l < reqs c"
  shows "1 \<le> batch_size c l" "batch_size c l \<le> reqs c - produced l"
proof -
  have "0 \<le> (rounds l smod 3) * (batch c sdiv 2)"
    using assms by (simp add: sizes_ok_def smod_nonneg sdiv_nonneg)
  then show "1 \<le> batch_size c l" "batch_size c l \<le> reqs c - produced l"
    using assms by (auto simp: batch_size_def Let_def sizes_ok_def)
qed

lemma batch_size_abs: "batch_size c (abs_loop l) = batch_size c l"
  by (simp add: batch_size_def abs_loop_def Let_def)

lemma map_upto_append:
  assumes "a \<le> b" and "length ls = k" and "\<And>x. a \<le> x \<Longrightarrow> x < b \<Longrightarrow> g x = f x" and "\<And>i. i < k \<Longrightarrow> g (b + int i) = ls ! i"
  shows "map g [a..b + int k - 1] = map f [a..b - 1] @ ls"
proof (rule nth_equalityI)
  show "length (map g [a..b + int k - 1]) = length (map f [a..b - 1] @ ls)" using assms(1,2) by simp
  fix i assume i: "i < length (map g [a..b + int k - 1])"
  show "map g [a..b + int k - 1] ! i = (map f [a..b - 1] @ ls) ! i"
  proof (cases "i < nat (b - a)")
    case True
    then show ?thesis using assms(1) assms(3) [of "a + int i"] i by (simp add: nth_append nth_upto)
  next
    case False
    then have "b + int (i - nat (b - a)) = a + int i" using assms(1) by simp
    moreover have "i - nat (b - a) < k" using i assms(1) False by (simp add: nat_less_iff)
    ultimately have "g (a + int i) = ls ! (i - nat (b - a))" using assms(4) [of "i - nat (b - a)"] by (simp only:)
    then show ?thesis using assms(1) i False by (simp add: nth_append nth_upto)
  qed
qed

definition begin_ingest :: "int \<Rightarrow> int \<Rightarrow> nat \<times> mark" where
  "begin_ingest b n = (0, Mark_begin_v ''ingest'' [(''batch'', of_int b), (''bytes'', of_int n)])"

definition begin_handle :: "int \<Rightarrow> int \<Rightarrow> nat \<times> mark" where
  "begin_handle q n = (0, Mark_begin_v ''handle'' [(''q'', of_int q), (''inflight'', of_int n)])"

lemma fill_simulates:
  assumes "sizes_ok c" and "loop_ok c l" and "produced l < reqs c"
  shows "\<exists>l' n. fill c l = Some l' \<and> loop_ok c l' \<and> fifo_fill c (abs_loop l) = Some (abs_loop l') \<and>
    produced l' = produced l + batch_size c l \<and> qhead (sys_state l') = qhead (sys_state l) \<and> rounds l' = rounds l \<and>
    marks (sys_state l') = marks (sys_state l) @ [begin_ingest (batch_size c l) n, (0, Mark_end ''ingest'')]"
proof -
  let ?st = "sys_state l" and ?b = "batch_size c l" and ?n = "line_len (len_arg c)"
  note L = assms(2) [unfolded loop_ok_def]
  have b: "1 \<le> ?b" "?b \<le> reqs c - produced l" using batch_size_range [OF assms(1) _ assms(3)] L by auto
  have qc: "0 < reqs c + 4 * batch c" "reqs c \<le> reqs c + 4 * batch c" using assms(1) by (simp_all add: sizes_ok_def)
  obtain n where n: "batch_bytes ?b ?st = Some n" using qc sys_okD(5) [of c ?st] L by (simp add: batch_bytes_def)
  define st0 where "st0 = mark 0 (Mark_begin_v ''ingest'' [(''batch'', of_int ?b), (''bytes'', of_int n)]) ?st"
  have st0: "sys_ok c st0" "qtail st0 = produced l" "rng_state st0 = rng_state ?st" "queue st0 = queue ?st"
    using L by (simp_all add: st0_def) (simp_all add: mark_def)
  have "0 \<le> qtail st0" "qtail st0 + int (nat ?b) \<le> reqs c + 4 * batch c" using st0(2) b L qc(2) by auto
  from ingest_lines_appends [OF assms(1) st0(1) this qc(1)] obtain ls s m where I:
    "new_lines c (produced l) (nat ?b) (rng_state ?st) = Some (ls, s)" "length ls = nat ?b"
    "ingest_lines (nat ?b) st0 = Some (st0\<lparr>rng_state := s, queue := m, qtail := produced l + int (nat ?b)\<rparr>)"
    "\<And>x. 0 \<le> x \<Longrightarrow> x < produced l \<Longrightarrow> fetch (line_start c x) (nat (?n x)) m = fetch (line_start c x) (nat (?n x)) (queue ?st)"
    "\<And>i. i < nat ?b \<Longrightarrow> fetch (line_start c (produced l + int i)) (nat (?n (produced l + int i))) m = ls ! i"
    unfolding st0 by blast
  define st' where "st' = mark 0 (Mark_end ''ingest'') (st0\<lparr>rng_state := s, queue := m, qtail := produced l + ?b\<rparr>)"
  have ing: "ingest ?b n ?st = Some st'" using I(3) b by (simp add: ingest_def st0_def st'_def)
  have st': "sys_ok c st'" "qhead st' = qhead ?st" "qtail st' = produced l + ?b" "rng_state st' = s" "queue st' = m"
    "checksum st' = checksum ?st" "out_bytes st' = 0"
    "marks st' = marks ?st @ [begin_ingest ?b n, (0, Mark_end ''ingest'')]"
    using st0(1) L by (simp_all add: st'_def) (simp_all add: st0_def mark_def begin_ingest_def)
  have place: "line_at st x = fetch (line_start c x) (nat (?n x)) (queue st)" if "sys_ok c st" "0 \<le> x" "x < produced l + ?b" for st x
    using line_place(4) [OF that(1,2)] that(3) b(2) qc(2) by simp
  have "map (line_at st') [qhead ?st..produced l + int (nat ?b) - 1] = map (line_at ?st) [qhead ?st..produced l - 1] @ ls"
  proof (rule map_upto_append)
    show "line_at st' x = line_at ?st x" if "qhead ?st \<le> x" "x < produced l" for x
      using place [OF st'(1), of x] place [of ?st x] I(4) [of x] that L b(1) st'(5) by simp
    show "line_at st' (produced l + int i) = ls ! i" if "i < nat ?b" for i
      using place [OF st'(1), of "produced l + int i"] I(5) [OF that] that L st'(5) by (simp add: zless_nat_eq_int_zless)
  qed (use I(2) L in simp_all)
  then have "f_lines (abs_sys st') = f_lines (abs_sys ?st) @ ls" using st' L b by (simp add: abs_sys_def)
  then have "fifo_fill c (abs_loop l) = Some (abs_loop (l\<lparr>produced := produced l + ?b, sys_state := st'\<rparr>))"
    using I(1) assms(3) st' by (simp add: fifo_fill_def batch_size_abs) (simp add: abs_loop_def abs_sys_def)
  moreover have "fill c l = Some (l\<lparr>produced := produced l + ?b, sys_state := st'\<rparr>)"
    using assms(3) n ing by (simp add: fill_def Let_def)
  moreover have "loop_ok c (l\<lparr>produced := produced l + ?b, sys_state := st'\<rparr>)"
    using L st' b by (simp add: loop_ok_def)
  ultimately show ?thesis using st' by (intro exI conjI) (assumption | simp)+
qed

subsection \<open>Handle\<close>

lemma line_in_place:
  assumes "sizes_ok c" and "sys_ok c st" and "0 \<le> x" and "x < reqs c"
  shows "line_ok st x" "space_at st x \<le> len_arg c + 8"
proof -
  have x: "x < reqs c + 4 * batch c" and len: "32 \<le> len_arg c" and q: "0 < reqs c + 4 * batch c"
    using assms(1,4) by (auto simp: sizes_ok_def)
  note P = line_place [OF assms(2,3) x] and R = line_len_range [OF len assms(3)]
  show "line_ok st x" using P(1,2) R(1) q sys_okD(5) [OF assms(2)] by (simp add: line_ok_def)
  show "space_at st x \<le> len_arg c + 8" using R by (simp add: space_at_def P(4))
qed

lemma jobs_cover:
  fixes q w :: int
  assumes "1 < w" and "0 < q"
  shows "1 \<le> (q + w - 1) sdiv w" "q \<le> w * ((q + w - 1) sdiv w)"
proof -
  let ?p = "(q + w - 1) div w"
  have e: "q + w - 1 = w * ?p + (q + w - 1) mod w" by simp
  have "(q + w - 1) mod w < w" using assms(1) by simp
  with e have "q \<le> w * ?p" by linarith
  moreover have "1 \<le> ?p" using assms pos_imp_zdiv_pos_iff [of w "q + w - 1"] by simp
  ultimately show "1 \<le> (q + w - 1) sdiv w" "q \<le> w * ((q + w - 1) sdiv w)"
    using assms by (simp_all add: sdiv_nonneg)
qed

lemma workers_worked:
  assumes "config_ok c" and "sys_ok c st" and "0 \<le> a" and "a + q \<le> reqs c" and "0 < q" and "q \<le> pop_cap c"
    and "out_bytes st = 0"
  shows "\<exists>st'. (if w \<le> 1 then worker 0 \<lparr>j_first = a, j_count = q\<rparr> st
      else run_jobs (make_jobs w ((q + w - 1) sdiv w) (a + q) 0 a) order st) = Some st' \<and>
    worked st st' (\<Sum>x<nat q. value_at st (a + int x)) (\<Sum>x<nat q. space_at st (a + int x))"
proof -
  have ok: "line_ok st x" "space_at st x \<le> len_arg c + 8" if "a \<le> x" "x < a + q" for x
    using line_in_place [OF config_okD [OF assms(1)] assms(2), of x] that assms(3,4) by simp_all
  have "(\<Sum>x<nat q. space_at st (a + int x)) \<le> (\<Sum>x<nat q. len_arg c + 8)"
    by (rule sum_mono) (use ok(2) in \<open>simp add: zless_nat_eq_int_zless\<close>)
  also have "\<dots> = q * (len_arg c + 8)" using assms(5) by simp
  also have "\<dots> \<le> (2 * pop_cap c + 8) * (len_arg c + 40)"
    by (rule mult_mono) (use assms(1,5,6) in \<open>simp_all add: config_ok_def sizes_ok_def\<close>)
  finally have space: "out_bytes st + (\<Sum>x<nat q. space_at st (a + int x)) \<le> out_cap st"
    using assms(7) sys_okD(7) [OF assms(2)] by simp
  show ?thesis
  proof (cases "w \<le> 1")
    case True
    have "\<exists>st'. worker_from 0 \<lparr>j_first = a, j_count = q\<rparr> 0 (nat q) st = Some st' \<and>
      worked st st' (\<Sum>x<nat q. value_at st (j_first \<lparr>j_first = a, j_count = q\<rparr> + int (0 + x)))
        (\<Sum>x<nat q. space_at st (j_first \<lparr>j_first = a, j_count = q\<rparr> + int (0 + x)))"
      by (rule worker_from_worked) (use ok(1) space in \<open>simp_all add: zless_nat_eq_int_zless\<close>)
    then show ?thesis using True by (simp add: worker_def)
  next
    case False
    let ?js = "make_jobs w ((q + w - 1) sdiv w) (a + q) 0 a"
    have J: "1 \<le> (q + w - 1) sdiv w" "q \<le> w * ((q + w - 1) sdiv w)" using jobs_cover [of w q] False assms(5) by simp_all
    have S: "(\<Sum>j\<leftarrow>?js. \<Sum>i<nat (j_count j). f (j_first j + int i)) = (\<Sum>x<nat q. f (a + int x))" for f :: "int \<Rightarrow> int"
      using make_jobs_sum [OF J(1), of "a + q" a w 0 f] J(2) by simp
    have "line_ok st (j_first (?js ! t) + int i)" if "t < length ?js" "i < goals ?js ! t" for t i
    proof -
      have "a \<le> j_first (?js ! t) \<and> j_first (?js ! t) + j_count (?js ! t) \<le> a + q"
        using make_jobs_range [OF J(1), of a "a + q" w 0] that(1) by (simp add: list_all_length)
      then show ?thesis using that by (intro ok(1)) (simp_all add: zless_nat_eq_int_zless)
    qed
    from run_jobs_worked [of ?js st order, OF this] space show ?thesis using False by (simp add: S)
  qed
qed

lemma handle_effect:
  assumes "config_ok c" and "sys_ok c st" and "0 \<le> qhead st" and "qhead st + q \<le> reqs c" and "0 < q" and "q \<le> pop_cap c"
    and "out_bytes st = 0"
  shows "\<exists>st' ps. handle_lines q n w order st = Some st' \<and> rest_sys st' = rest_sys (st\<lparr>qhead := qhead st + q\<rparr>) \<and>
    checksum st' = checksum st + (\<Sum>x<nat q. value_at st (qhead st + int x)) \<and> out_bytes st' = 0 \<and>
    marks st' = marks st @ begin_handle q n # ps @ [(0, Mark_end ''handle'')] \<and> list_all parse_mark ps"
proof -
  define st1 where "st1 = mark 0 (Mark_begin_v ''handle'' [(''q'', of_int q), (''inflight'', of_int n)]) st"
  have r1: "rest_sys st1 = rest_sys st" by (simp add: st1_def mark_def rest_sys_def)
  have st1: "sys_ok c st1" "qhead st1 = qhead st" "out_bytes st1 = 0" "checksum st1 = checksum st"
    "marks st1 = marks st @ [begin_handle q n]"
    using assms(2,7) by (simp_all add: st1_def) (simp_all add: mark_def begin_handle_def)
  from workers_worked [OF assms(1) st1(1) assms(3-6) st1(3), of w order] obtain st2
    where st2: "(if w \<le> 1 then worker 0 \<lparr>j_first = qhead st, j_count = q\<rparr> st1
      else run_jobs (make_jobs w ((q + w - 1) sdiv w) (qhead st + q) 0 (qhead st)) order st1) = Some st2"
    and W: "worked st1 st2 (\<Sum>x<nat q. value_at st (qhead st + int x)) (\<Sum>x<nat q. space_at st (qhead st + int x))"
    unfolding at_rest [OF r1] by blast
  obtain ps where ps: "marks st2 = marks st1 @ ps" "list_all parse_mark ps" using W by (auto simp: worked_def)
  have r2: "rest_sys st2 = rest_sys st" using W r1 by (simp add: worked_def)
  have "handle_lines q n w order st = Some (mark 0 (Mark_end ''handle'') (st2\<lparr>qhead := qhead st2 + q, out_bytes := 0\<rparr>))"
    using st2 unfolding handle_lines_def Let_def st1_def [symmetric] st1(2) by (simp cong: if_cong)
  moreover have "rest_sys (mark 0 (Mark_end ''handle'') (st2\<lparr>qhead := qhead st2 + q, out_bytes := 0\<rparr>)) = rest_sys (st\<lparr>qhead := qhead st + q\<rparr>)"
  proof -
    have "rest_sys (mark 0 k (s\<lparr>qhead := i, out_bytes := 0\<rparr>)) = (rest_sys s)\<lparr>qhead := i\<rparr>" for k s i
      by (simp add: rest_sys_def mark_def)
    moreover have "rest_sys (s\<lparr>qhead := i\<rparr>) = (rest_sys s)\<lparr>qhead := i\<rparr>" for s i by (simp add: rest_sys_def)
    ultimately show ?thesis using r2 rest_sysD(8) [OF r2] by simp
  qed
  ultimately show ?thesis
    using ps st1 W by (intro exI conjI) (assumption | simp add: mark_def worked_def)+
qed

text \<open>The first lines of the FIFO, as positions.\<close>

lemma map_upto_split:
  assumes "a \<le> m" and "m \<le> b"
  shows "map f [a..b - 1] = map f [a..m - 1] @ map f [m..b - 1]"
proof -
  have "map f [a..m + int (nat (b - m)) - 1] = map f [a..m - 1] @ map f [m..b - 1]"
    by (rule map_upto_append) (use assms in \<open>simp_all add: zless_nat_eq_int_zless\<close>)
  then show ?thesis using assms by simp
qed

lemma take_drop_upto:
  assumes "0 \<le> q" and "a + q \<le> b"
  shows "take (nat q) (map f [a..b - 1]) = map f [a..a + q - 1]" "drop (nat q) (map f [a..b - 1]) = map f [a + q..b - 1]"
  using map_upto_split [of a "a + q" b f] assms by simp_all

definition pop_room :: "config \<Rightarrow> 's loop_state \<Rightarrow> int" where
  "pop_room c l = pop_cap c - (rounds l mod 4) * (pop_cap c div 8)"

lemma pop_room_range:
  assumes "config_ok c" and "0 \<le> rounds l"
  shows "1 \<le> pop_room c l" "pop_room c l \<le> pop_cap c" "pop_cap c - (rounds l smod 4) * (pop_cap c sdiv 8) = pop_room c l"
proof -
  have r: "rounds l mod 4 \<le> 3" "0 \<le> rounds l mod 4" using pos_mod_bound [of 4 "rounds l"] by simp_all
  have cap: "1 \<le> pop_cap c" "0 \<le> pop_cap c div 8" "8 * (pop_cap c div 8) \<le> pop_cap c" using assms(1) by (simp_all add: config_ok_def sizes_ok_def pos_imp_zdiv_nonneg_iff)
  have "(rounds l mod 4) * (pop_cap c div 8) \<le> 3 * (pop_cap c div 8)" by (rule mult_right_mono) (use r cap in simp_all)
  then show "1 \<le> pop_room c l" unfolding pop_room_def using cap by linarith
  have "0 \<le> (rounds l mod 4) * (pop_cap c div 8)" using r cap by simp
  then show "pop_room c l \<le> pop_cap c" by (simp add: pop_room_def)
  show "pop_cap c - (rounds l smod 4) * (pop_cap c sdiv 8) = pop_room c l"
    using assms cap by (simp add: pop_room_def smod_nonneg sdiv_nonneg)
qed

lemma drain_simulates:
  assumes "config_ok c" and "loop_ok c l"
  defines "q \<equiv> min (pop_room c l) (qtail (sys_state l) - qhead (sys_state l))"
  shows "\<exists>l' ps. drain c order l = Some l' \<and> loop_ok c l' \<and> abs_loop l' = fifo_drain c (abs_loop l) \<and>
    produced l' = produced l \<and> qhead (sys_state l') = qhead (sys_state l) + q \<and>
    marks (sys_state l') = marks (sys_state l) @
      (if 0 < q then begin_handle q (qtail (sys_state l) - qhead (sys_state l)) # ps @ [(0, Mark_end ''handle'')] else []) \<and>
    list_all parse_mark ps"
proof -
  let ?st = "sys_state l" let ?n = "qtail ?st - qhead ?st"
  note L = assms(2) [unfolded loop_ok_def]
  have room: "1 \<le> pop_room c l" "pop_room c l \<le> pop_cap c" "pop_cap c - (rounds l smod 4) * (pop_cap c sdiv 8) = pop_room c l"
    using pop_room_range [OF assms(1)] L by auto
  have D: "drain c order l = do {
      st1 \<leftarrow> (if 0 < q then handle_lines q ?n (threads_arg c) order ?st else Some ?st);
      Some (l\<lparr>rounds := rounds l + 1, sys_state := st1\<rparr>)
    }"
    unfolding drain_def Let_def room(3) q_def min_def by (simp cong: if_cong)
  have tk: "take (nat (pop_room c l)) xs = take (nat q) xs" "drop (nat (pop_room c l)) xs = drop (nat q) xs"
    if "length xs = nat ?n" for xs :: "byte list list"
    using that L room(1) by (auto simp: q_def min_def)
  show ?thesis
  proof (cases "0 < q")
    case True
    have q: "0 \<le> q" "qhead ?st + q \<le> reqs c" "q \<le> pop_cap c" "qhead ?st + q \<le> qtail ?st"
      using True L room(2) by (auto simp: q_def)
    from handle_effect [OF assms(1) _ _ q(2) True q(3), of ?n "threads_arg c" order] L obtain st' ps where H:
      "handle_lines q ?n (threads_arg c) order ?st = Some st'" "rest_sys st' = rest_sys (?st\<lparr>qhead := qhead ?st + q\<rparr>)"
      "checksum st' = checksum ?st + (\<Sum>x<nat q. value_at ?st (qhead ?st + int x))" "out_bytes st' = 0"
      "marks st' = marks ?st @ begin_handle q ?n # ps @ [(0, Mark_end ''handle'')]" "list_all parse_mark ps" by blast
    let ?l = "l\<lparr>rounds := rounds l + 1, sys_state := st'\<rparr>"
    note R = rest_sysD [OF H(2)]
    have line: "line_at st' = line_at ?st"
      by (intro ext) (simp add: at_rest(2) [OF H(2)], simp add: line_at_def slot_index_def)
    have "sys_ok c st'" using sys_ok_rest [OF H(2)] L by simp
    then have ok: "loop_ok c ?l" using L R H(4) q by (simp add: loop_ok_def)
    have sum: "(\<Sum>x<nat q. value_at ?st (qhead ?st + int x)) =
        (\<Sum>b\<leftarrow>take (nat q) (map (line_at ?st) [qhead ?st..qtail ?st - 1]). line_value (buckets (table c)) b)"
      using sum_upto [of "value_at ?st" "qhead ?st" "nat q"] q sys_okD(3) [of c ?st] L
      by (simp add: take_drop_upto value_at_def o_def)
    have "abs_loop ?l = fifo_drain c (abs_loop l)"
      using R line H(3) sum q tk [of "map (line_at ?st) [qhead ?st..qtail ?st - 1]"]
      by (simp add: fifo_drain_def abs_loop_def abs_sys_def Let_def pop_room_def take_drop_upto)
    then show ?thesis using D True H ok R by (intro exI [of _ ?l] exI [of _ ps]) simp
  next
    case False
    then have n: "?n = 0" "q = 0" using L room(1) by (auto simp: q_def min_def split: if_splits)
    let ?l = "l\<lparr>rounds := rounds l + 1\<rparr>"
    have "abs_loop ?l = fifo_drain c (abs_loop l)" using n by (simp add: fifo_drain_def abs_loop_def abs_sys_def Let_def)
    moreover have "loop_ok c ?l" using L by (simp add: loop_ok_def)
    ultimately show ?thesis using D n by (intro exI [of _ ?l] exI [of _ "[]"]) simp
  qed
qed

subsection \<open>Turns\<close>

definition fifo_busy :: "config \<Rightarrow> fifo loop_state \<Rightarrow> bool" where
  "fifo_busy c f \<longleftrightarrow> produced f < reqs c \<or> f_lines (sys_state f) \<noteq> []"

lemma busy_abs: "fifo_busy c (abs_loop l) \<longleftrightarrow> busy c l"
  by (auto simp: fifo_busy_def busy_def abs_loop_def abs_sys_def)

text \<open>What is still to be done: a line to ingest counts twice, a line in flight once.\<close>

definition work_left :: "config \<Rightarrow> system loop_state \<Rightarrow> nat" where
  "work_left c l = nat (2 * (reqs c - produced l) + (qtail (sys_state l) - qhead (sys_state l)))"

text \<open>The law of the queue: \<open>handle.inflight = cum(ingest.batch) - cum(handle.q)\<close>.\<close>

abbreviation queue_law :: "i64 \<Rightarrow> calls \<Rightarrow> bool" where
  "queue_law n ms \<equiv> cum_law (''ingest'', ''batch'') (''handle'', ''q'') ''inflight'' n ms"

lemma parse_mark_fields:
  assumes "parse_mark m"
  shows "field_value ''ingest'' f m = 0" "field_value ''handle'' f m = 0" "declares ''handle'' ''inflight'' n m"
  using assms by (cases m; cases "snd m"; auto simp: parse_mark_def)+

lemma parse_marks_fields:
  "list_all parse_mark ps \<Longrightarrow> field_total ''ingest'' f ps = 0 \<and> field_total ''handle'' f ps = 0 \<and> queue_law n ps"
  by (induction ps arbitrary: n) (auto simp: parse_mark_fields)

lemma marker_fields [simp]:
  "field_value ''ingest'' ''batch'' (begin_ingest b n) = of_int b" "field_value ''handle'' f (begin_ingest b n) = 0"
  "field_value ''handle'' ''q'' (begin_handle q n) = of_int q" "field_value ''ingest'' f (begin_handle q n) = 0"
  "declares ''handle'' ''inflight'' m (begin_ingest b n)" "declares ''handle'' ''inflight'' m (begin_handle q n) \<longleftrightarrow> m = of_int n"
  by (auto simp: begin_ingest_def begin_handle_def)

definition marks_ok :: "system loop_state \<Rightarrow> bool" where
  "marks_ok l \<longleftrightarrow> (let ms = marks (sys_state l) in queue_law 0 ms \<and>
     field_total ''ingest'' ''batch'' ms = of_int (qtail (sys_state l)) \<and>
     field_total ''handle'' ''q'' ms = of_int (qhead (sys_state l)))"

lemma turn_simulates:
  assumes "config_ok c" and "loop_ok c l" and "marks_ok l" and "busy c l"
  shows "\<exists>l'. turn c sched l = Some l' \<and> loop_ok c l' \<and> marks_ok l' \<and>
    fifo_turn c (abs_loop l) = Some (abs_loop l') \<and> work_left c l' < work_left c l"
proof -
  note L = assms(2) [unfolded loop_ok_def]
  have "\<exists>l1. fill c l = Some l1 \<and> loop_ok c l1 \<and> marks_ok l1 \<and> fifo_fill c (abs_loop l) = Some (abs_loop l1) \<and>
    work_left c l1 \<le> work_left c l \<and> (produced l < reqs c \<longrightarrow> work_left c l1 < work_left c l) \<and>
    (\<not> produced l < reqs c \<longrightarrow> l1 = l)"
  proof (cases "produced l < reqs c")
    case True
    have b: "1 \<le> batch_size c l" "batch_size c l \<le> reqs c - produced l"
      using batch_size_range [OF config_okD [OF assms(1)] _ True] L by auto
    from fill_simulates [OF config_okD [OF assms(1)] assms(2) True] obtain l1 n where F: "fill c l = Some l1" "loop_ok c l1"
      "fifo_fill c (abs_loop l) = Some (abs_loop l1)" "produced l1 = produced l + batch_size c l"
      "qhead (sys_state l1) = qhead (sys_state l)"
      "marks (sys_state l1) = marks (sys_state l) @ [begin_ingest (batch_size c l) n, (0, Mark_end ''ingest'')]" by blast
    have t: "qtail (sys_state l1) = qtail (sys_state l) + batch_size c l" using F(2,4) L by (simp add: loop_ok_def)
    have "marks_ok l1" using assms(3) F(5,6) t by (simp add: marks_ok_def Let_def)
    moreover have "work_left c l1 < work_left c l" using b F(4,5) t L by (simp add: work_left_def)
    ultimately show ?thesis using F True by auto
  next
    case False
    then have "fill c l = Some l" "fifo_fill c (abs_loop l) = Some (abs_loop l)"
      by (simp_all add: fill_def fifo_fill_def) (simp_all add: abs_loop_def)
    then show ?thesis using False assms(2,3) by blast
  qed
  then obtain l1 where F: "fill c l = Some l1" "loop_ok c l1" "marks_ok l1" "fifo_fill c (abs_loop l) = Some (abs_loop l1)"
    "work_left c l1 \<le> work_left c l" "produced l < reqs c \<Longrightarrow> work_left c l1 < work_left c l" "\<not> produced l < reqs c \<Longrightarrow> l1 = l" by blast
  let ?n = "qtail (sys_state l1) - qhead (sys_state l1)"
  define q where "q = min (pop_room c l1) ?n"
  from drain_simulates [OF assms(1) F(2), of "sched (rounds l1)"] obtain l2 ps where D: "drain c (sched (rounds l1)) l1 = Some l2"
    "loop_ok c l2" "abs_loop l2 = fifo_drain c (abs_loop l1)" "produced l2 = produced l1"
    "qhead (sys_state l2) = qhead (sys_state l1) + q"
    "marks (sys_state l2) = marks (sys_state l1) @ (if 0 < q then begin_handle q ?n # ps @ [(0, Mark_end ''handle'')] else [])"
    "list_all parse_mark ps" unfolding q_def by blast
  have t: "qtail (sys_state l2) = qtail (sys_state l1)" using F(2) D(2,4) by (simp add: loop_ok_def)
  have q: "0 \<le> q" "0 < q \<longleftrightarrow> qhead (sys_state l1) < qtail (sys_state l1)"
    using F(2) pop_room_range(1) [OF assms(1), of l1] by (auto simp: q_def min_def loop_ok_def)
  have "marks_ok l2"
    using F(3) D(5,6) t q(1) parse_marks_fields [OF D(7)] by (auto simp: marks_ok_def Let_def algebra_simps)
  moreover have "work_left c l2 < work_left c l"
  proof (cases "produced l < reqs c")
    case True
    have "work_left c l2 \<le> work_left c l1" using D(4,5) t q(1) by (simp add: work_left_def)
    then show ?thesis using F(6) [OF True] by simp
  next
    case False
    then have "l1 = l" "0 < q" using F(7) assms(4) q(2) by (auto simp: busy_def)
    then show ?thesis using D(2,4,5) t L by (simp add: work_left_def loop_ok_def)
  qed
  moreover have "turn c sched l = Some l2" using F(1) D(1) by (simp add: turn_def)
  moreover have "fifo_turn c (abs_loop l) = Some (abs_loop l2)" using F(4) D(3) by (simp add: fifo_turn_def)
  ultimately show ?thesis using D(2) by blast
qed

subsection \<open>The loop\<close>

partial_function (option) fifo_loop :: "config \<Rightarrow> fifo loop_state \<Rightarrow> fifo loop_state option" where
  "fifo_loop c f = (if fifo_busy c f then fifo_turn c f \<bind> fifo_loop c else Some f)"

declare fifo_loop.simps [code]

definition fifo_start :: "config \<Rightarrow> fifo loop_state" where
  "fifo_start c = \<lparr>produced = 0, rounds = 0, sys_state = \<lparr>f_rng = rng_state (table c), f_lines = [], f_sum = 0\<rparr>\<rparr>"

definition start_loop :: "config \<Rightarrow> memory \<Rightarrow> memory \<Rightarrow> system loop_state" where
  "start_loop c qm om = \<lparr>produced = 0, rounds = 0, sys_state = start_system c qm om\<rparr>"

lemma playground_loop: "playground c sched qm om = main_loop c sched (start_loop c qm om)"
  by (simp add: playground_def start_loop_def)

lemma start_loop_ok:
  assumes "0 \<le> reqs c"
  shows "loop_ok c (start_loop c qm om)" "marks_ok (start_loop c qm om)" "abs_loop (start_loop c qm om) = fifo_start c"
  using assms
  by (simp_all add: start_loop_def loop_ok_def marks_ok_def abs_loop_def abs_sys_def fifo_start_def start_system_buffers table_fields)

text \<open>A loop that simulates an abstract loop turn by turn, with a measure that its turns decrease.\<close>

locale loop_simulation =
  fixes busy :: "'s \<Rightarrow> bool" and step :: "'s \<Rightarrow> 's option" and loop :: "'s \<Rightarrow> 's option"
    and abs_busy :: "'a \<Rightarrow> bool" and abs_step :: "'a \<Rightarrow> 'a option" and abs_loop :: "'a \<Rightarrow> 'a option"
    and abs :: "'s \<Rightarrow> 'a" and inv :: "'s \<Rightarrow> bool" and left :: "'s \<Rightarrow> nat"
  assumes loop_eq: "loop s = (if busy s then step s \<bind> loop else Some s)"
    and abs_loop_eq: "abs_loop a = (if abs_busy a then abs_step a \<bind> abs_loop else Some a)"
    and busy_eq: "inv s \<Longrightarrow> abs_busy (abs s) \<longleftrightarrow> busy s"
    and step_simulates: "inv s \<Longrightarrow> busy s \<Longrightarrow>
      \<exists>s'. step s = Some s' \<and> inv s' \<and> abs_step (abs s) = Some (abs s') \<and> left s' < left s"
begin

lemma loop_ends: "inv s \<Longrightarrow> \<exists>s'. loop s = Some s' \<and> inv s' \<and> \<not> busy s' \<and> abs_loop (abs s) = Some (abs s')"
proof (induction "left s" arbitrary: s rule: less_induct)
  case less
  show ?case
  proof (cases "busy s")
    case True
    from step_simulates [OF less.prems True] obtain s1 where s1: "step s = Some s1" "inv s1"
      "abs_step (abs s) = Some (abs s1)" "left s1 < left s" by blast
    from less.hyps [OF s1(4,2)] show ?thesis
      using s1(1,3) True busy_eq [OF less.prems] by (simp add: loop_eq [of s] abs_loop_eq [of "abs s"])
  next
    case False
    then show ?thesis
      using less.prems busy_eq [OF less.prems] by (simp add: loop_eq [of s] abs_loop_eq [of "abs s"])
  qed
qed

end

interpretation main: loop_simulation "busy c" "turn c sched" "main_loop c sched" "fifo_busy c" "fifo_turn c" "fifo_loop c"
  abs_loop "\<lambda>l. config_ok c \<and> loop_ok c l \<and> marks_ok l" "work_left c" for c sched
proof unfold_locales
  fix l assume l: "config_ok c \<and> loop_ok c l \<and> marks_ok l" and b: "busy c l"
  from turn_simulates [of c l sched] l b
  show "\<exists>l'. turn c sched l = Some l' \<and> (config_ok c \<and> loop_ok c l' \<and> marks_ok l') \<and>
    fifo_turn c (abs_loop l) = Some (abs_loop l') \<and> work_left c l' < work_left c l" by blast
qed (simp_all add: main_loop.simps [symmetric] fifo_loop.simps [symmetric] busy_abs)

lemma main_loop_ends:
  assumes "config_ok c" and "loop_ok c l" and "marks_ok l"
  shows "\<exists>l'. main_loop c sched l = Some l' \<and> loop_ok c l' \<and> marks_ok l' \<and> \<not> busy c l' \<and>
    fifo_loop c (abs_loop l) = Some (abs_loop l')"
  using main.loop_ends [of c l sched] assms by blast

lemma idle_done: "loop_ok c l \<Longrightarrow> \<not> busy c l \<Longrightarrow> produced l = reqs c \<and> qhead (sys_state l) = reqs c \<and> qtail (sys_state l) = reqs c"
  by (auto simp: loop_ok_def busy_def)

text \<open>The whole program, for arguments that work.\<close>

lemma playground_run:
  assumes "config_ok c"
  obtains l where "playground c sched qm om = Some l" "loop_ok c l" "marks_ok l" "\<not> busy c l"
    "fifo_loop c (fifo_start c) = Some (abs_loop l)"
proof -
  have r: "0 \<le> reqs c" using assms by (simp add: config_ok_def sizes_ok_def)
  from main_loop_ends [OF assms start_loop_ok(1,2) [OF r], of sched qm om] that show thesis
    unfolding start_loop_ok(3) [OF r] playground_loop by blast
qed

subsection \<open>Arguments that do not work\<close>

fun after_turns :: "config \<Rightarrow> (int \<Rightarrow> nat list) \<Rightarrow> nat \<Rightarrow> system loop_state \<Rightarrow> system loop_state option" where
  "after_turns c sched 0 l = Some l"
| "after_turns c sched (Suc k) l = turn c sched l \<bind> after_turns c sched k"

text \<open>A loop that returns does so after some number of turns.\<close>

lemma main_loop_turns:
  assumes "main_loop c sched l = Some l'"
  shows "\<exists>k. after_turns c sched k l = Some l' \<and> \<not> busy c l'"
proof (rule main_loop.raw_induct [where P = "\<lambda>c sched l l'. \<exists>k. after_turns c sched k l = Some l' \<and> \<not> busy c l'", OF _ assms])
  fix loop c l l' and sched :: "int \<Rightarrow> nat list"
  assume IH: "\<And>c sched l l'. loop c sched l = Some l' \<Longrightarrow> \<exists>k. after_turns c sched k l = Some l' \<and> \<not> busy c l'"
    and run: "(if busy c l then turn c sched l \<bind> loop c sched else Some l) = Some l'"
  show "\<exists>k. after_turns c sched k l = Some l' \<and> \<not> busy c l'"
  proof (cases "busy c l")
    case True
    then obtain l1 where l1: "turn c sched l = Some l1" "loop c sched l1 = Some l'"
      using run by (cases "turn c sched l") auto
    then obtain k where "after_turns c sched k l1 = Some l'" "\<not> busy c l'" using IH by blast
    then show ?thesis using l1(1) by (intro exI [of _ "Suc k"]) simp
  next
    case False
    then show ?thesis using run by (intro exI [of _ 0]) simp
  qed
qed

text \<open>With \<open>cap=0\<close> nothing is ever taken out of the queue.\<close>

lemma turn_no_room:
  assumes "sizes_ok c" and "pop_cap c = 0" and "loop_ok c l" and "qhead (sys_state l) = 0"
  shows "\<exists>l'. turn c sched l = Some l' \<and> loop_ok c l' \<and> qhead (sys_state l') = 0"
proof -
  have "\<exists>l1. fill c l = Some l1 \<and> loop_ok c l1 \<and> qhead (sys_state l1) = 0"
  proof (cases "produced l < reqs c")
    case True
    from fill_simulates [OF assms(1,3) True] assms(4) show ?thesis by auto
  qed (use assms(3,4) in \<open>simp add: fill_def\<close>)
  then obtain l1 where l1: "fill c l = Some l1" "loop_ok c l1" "qhead (sys_state l1) = 0" by blast
  have "drain c order l1 = Some (l1\<lparr>rounds := rounds l1 + 1\<rparr>)" for order
    using l1(2,3) assms(2) by (simp add: drain_def Let_def loop_ok_def)
  moreover have "loop_ok c (l1\<lparr>rounds := rounds l1 + 1\<rparr>)" using l1(2) by (simp add: loop_ok_def)
  ultimately show ?thesis using l1(1,3) by (simp add: turn_def)
qed

lemma no_room_busy: "0 < reqs c \<Longrightarrow> loop_ok c l \<Longrightarrow> qhead (sys_state l) = 0 \<Longrightarrow> busy c l"
  by (auto simp: loop_ok_def busy_def)

lemma no_room_turns:
  assumes "sizes_ok c" and "pop_cap c = 0" and "loop_ok c l" and "qhead (sys_state l) = 0"
  shows "\<exists>l'. after_turns c sched k l = Some l' \<and> loop_ok c l' \<and> qhead (sys_state l') = 0"
  using assms(3,4)
proof (induction k arbitrary: l)
  case (Suc k)
  from turn_no_room [OF assms(1,2) Suc.prems] obtain l1 where "turn c sched l = Some l1" "loop_ok c l1" "qhead (sys_state l1) = 0" by blast
  with Suc.IH show ?case by simp
qed simp

text \<open>A line of \<open>WORD\<close> bytes makes the divisor in \<open>parse\<close> zero.\<close>

lemma short_line_traps:
  assumes "sys_ok c st" and "28 \<le> len_arg c" and "len_arg c < 32" and "0 \<le> x" and "x < reqs c + 4 * batch c"
    and "x mod 4 = 0" and "j_first j + int i = x"
  shows "work t j i st = None"
proof -
  have "len_arg c div 4 = 7" using assms(2,3) by simp
  then have "line_len (len_arg c) x = 7" using assms(2,4,6) by (simp add: line_len_def sdiv_nonneg smod_nonneg)
  then have "llen st ! nat (x smod qcap st) = 7" using line_place(1,2) [OF assms(1,4,5)] by (simp add: slot_index_def)
  then show ?thesis using assms(7) by (simp add: work_def Let_def parse_def WORD_def)
qed

end
