(* ===== verification/Assembly.thy ===== *)
theory Assembly
  imports Prelude
begin

text \<open>
  The loops that the workloads write in assembly, instruction by instruction: 64-bit registers,
  numbered as the operands of the \<open>asm\<close> statement are, and the zero flag. In \<open>op s, d\<close> the second
  operand is read and written, as in the sources. A run of the code gives the registers it leaves and the
  number of the instructions it executed; \<open>None\<close> is a run that does not end.
\<close>

type_synonym regs = "nat \<Rightarrow> u64"

datatype insn =
    Add nat nat         \<comment> \<open>\<open>add %s, %d\<close>\<close>
  | Xor nat nat         \<comment> \<open>\<open>xor %s, %d\<close>\<close>
  | Sub_imm u64 nat     \<comment> \<open>\<open>sub $x, %d\<close>\<close>
  | Dec nat             \<comment> \<open>\<open>dec %d\<close>\<close>
  | Jnz nat             \<comment> \<open>\<open>jnz\<close>, to the instruction with this number\<close>

type_synonym cpu = "nat \<times> regs \<times> bool"   \<comment> \<open>next instruction, registers, zero flag\<close>

definition put_reg :: "nat \<Rightarrow> u64 \<Rightarrow> cpu \<Rightarrow> cpu" where
  "put_reg d v s = (case s of (pc, r, z) \<Rightarrow> (Suc pc, r(d := v), v = 0))"

fun exec_insn :: "insn \<Rightarrow> cpu \<Rightarrow> cpu" where
  "exec_insn (Add s d) (pc, r, z) = put_reg d (r d + r s) (pc, r, z)"
| "exec_insn (Xor s d) (pc, r, z) = put_reg d (r d XOR r s) (pc, r, z)"
| "exec_insn (Sub_imm x d) (pc, r, z) = put_reg d (r d - x) (pc, r, z)"
| "exec_insn (Dec d) (pc, r, z) = put_reg d (r d - 1) (pc, r, z)"
| "exec_insn (Jnz l) (pc, r, z) = (if z then Suc pc else l, r, z)"

partial_function (option) asm_run :: "insn list \<Rightarrow> cpu \<Rightarrow> (regs \<times> nat) option" where
  "asm_run code s =
     (if length code \<le> fst s then Some (fst (snd s), 0)
      else do { (r, k) \<leftarrow> asm_run code (exec_insn (code ! fst s) s); Some (r, Suc k) })"

text \<open>An \<open>asm\<close> statement with the first values of its operands: the value of operand 0 behind it, and the
  instructions executed.\<close>

definition operands :: "u64 list \<Rightarrow> regs" where
  "operands xs i = (if i < length xs then xs ! i else 0)"

definition asm_block :: "insn list \<Rightarrow> u64 list \<Rightarrow> (u64 \<times> nat) option" where
  "asm_block code xs = map_option (\<lambda>(r, k). (r 0, k)) (asm_run code (0, operands xs, False))"

subsection \<open>Counted loops\<close>

text \<open>The reference: a body, the counter less one, again unless it is 0. A counter that starts at 0 is
  first decremented.\<close>

function count_down :: "(u64 \<Rightarrow> 's \<Rightarrow> 's) \<Rightarrow> u64 \<Rightarrow> 's \<Rightarrow> 's \<times> nat" where
  "count_down body c s = (let s' = body c s in if c - 1 = 0 then (s', 1) else apsnd Suc (count_down body (c - 1) s'))"
  by pat_completeness auto
termination
proof (relation "measure (\<lambda>(body, c, s). unat (c - 1))", goal_cases)
  case (2 body c s x)
  then show ?case using unat_minus_one [of "c - 1"] by (auto simp: unat_gt_0)
qed simp

declare count_down.simps [simp del]

lemma count_down_rec:
  "count_down body c s = (if c = 1 then (body c s, 1) else apsnd Suc (count_down body (c - 1) (body c s)))"
  by (simp add: count_down.simps [of body c s] Let_def)

lemma count_down_steps: "snd (count_down body c s) = (if c = 0 then 2 ^ 64 else unat c)"
proof -
  have "snd (count_down body c s) = Suc (unat (c - 1))"
  proof (induction body c s rule: count_down.induct)
    case (1 body c s)
    show ?case
    proof (cases "c = 1")
      case False
      then have "c - 1 \<noteq> 0" by simp
      then have "Suc (unat (c - 1 - 1)) = unat (c - 1)" using unat_minus_one [of "c - 1"] by (simp add: unat_gt_0)
      with "1.IH" [OF refl \<open>c - 1 \<noteq> 0\<close>] False show ?thesis by (simp add: count_down_rec [of body c s])
    qed (simp add: count_down_rec)
  qed
  moreover have "Suc (unat (- 1 :: u64)) = 2 ^ 64"
    by (simp add: unsigned_minus_1_eq_mask mask_eq_exp_minus_1)
  ultimately show ?thesis by (auto simp: unat_minus_one unat_gt_0)
qed

lemma count_down_add: "fst (count_down (\<lambda>_ acc. acc + x) c s) = s + x * c"
proof (induction "\<lambda>(_ :: u64) acc. acc + x :: u64" c s rule: count_down.induct)
  case (1 c s)
  then show ?case by (simp add: count_down_rec [of _ c s] algebra_simps)
qed

text \<open>A loop seen through a part \<open>f\<close> of its state.\<close>

lemma count_down_view:
  assumes "\<And>c s. P s \<Longrightarrow> P (body c s) \<and> f (body c s) = g c (f s)" and "P s"
  shows "apfst f (count_down body c s) = count_down g c (f s)"
  using assms
proof (induction body c s rule: count_down.induct)
  case (1 body c s)
  show ?case
  proof (cases "c = 1")
    case True
    with "1.prems" show ?thesis by (simp add: count_down_rec)
  next
    case False
    then have "c - 1 \<noteq> 0" by simp
    from "1.IH" [OF refl this "1.prems"(1)] "1.prems" False show ?thesis
      by (simp add: count_down_rec [of body c s] count_down_rec [of g c "f s"] prod_eq_iff)
  qed
qed

text \<open>Code whose last jump goes back to the start as long as the counter, register \<open>c\<close>, is not 0: each
  pass executes \<open>m\<close> instructions.\<close>

lemma asm_loop:
  assumes pass: "\<And>r z. asm_run code (0, r, z) = (if eff r c = 0 then Some (eff r, m)
      else do { (r', k) \<leftarrow> asm_run code (0, eff r, False); Some (r', m + k) })"
    and counts: "\<And>r. eff r c = r c - 1"
  shows "asm_run code (0, r, z) = Some (apsnd ((*) m) (count_down (\<lambda>_. eff) (r c) r))"
proof -
  have "asm_run code (0, r, z) = Some (apsnd ((*) m) (count_down (\<lambda>_. eff) n r))" if "n = r c" for n
    using that
  proof (induction "\<lambda>_ :: u64. eff" n r arbitrary: z rule: count_down.induct)
    case (1 n r)
    show ?case
    proof (cases "n = 1")
      case True
      with 1(2) show ?thesis by (simp add: pass [of r] counts count_down_rec [of _ 1 r])
    next
      case False
      then have n: "n - 1 \<noteq> 0" by simp
      have "asm_run code (0, eff r, False) = Some (apsnd ((*) m) (count_down (\<lambda>_. eff) (n - 1) (eff r)))"
        by (rule 1(1) [OF refl n]) (simp add: counts 1(2))
      with False n 1(2) show ?thesis
        by (simp add: pass [of r] counts count_down_rec [of _ "r c" r] case_prod_beta prod_eq_iff)
    qed
  qed
  then show ?thesis by blast
qed

lemma asm_next [simp]:
  "asm_run code (Suc pc, r, z) =
     (if length code \<le> Suc pc then Some (r, 0)
      else do { (r', k) \<leftarrow> asm_run code (exec_insn (code ! Suc pc) (Suc pc, r, z)); Some (r', Suc k) })"
  by (subst asm_run.simps) simp

lemma asm_first:
  "code \<noteq> [] \<Longrightarrow> asm_run code (0, r, z) = do { (r', k) \<leftarrow> asm_run code (exec_insn (code ! 0) (0, r, z)); Some (r', Suc k) }"
  by (subst asm_run.simps) simp

end
