(* ===== verification/Workloads.thy ===== *)
theory Workloads
  imports Playground Assembly
begin

text \<open>
  The workloads of \<open>examples/c_suite\<close>, \<open>examples/cpp_suite\<close> and \<open>tests\<close> of one thread: the loops with
  the value each computes and the number of its iterations, of those in assembly the number of executed
  instructions, and what \<open>main\<close> calls, in order, with the
  line it prints. A \<open>long\<close> is an \<open>int\<close>; the loops written in assembly count in 64 bits. The value of a
  loop is what is added to \<open>sink\<close>. \<open>None\<close> is undefined behaviour or an exception.
\<close>

datatype item =
    Call mark
  | Loop string nat u64   \<comment> \<open>a loop in C: its name, iterations and value\<close>
  | Asm nat u64           \<comment> \<open>a loop in assembly: executed instructions and value\<close>

definition perf_begin :: "string \<Rightarrow> string \<Rightarrow> int \<Rightarrow> item" where
  "perf_begin r v x = Call (Mark_begin r v (of_int x))"

definition perf_end :: "string \<Rightarrow> item" where
  "perf_end r = Call (Mark_end r)"

definition looped :: "string \<Rightarrow> u64 \<times> nat \<Rightarrow> item" where
  "looped f r = Loop f (snd r) (fst r)"

fun sunk :: "item list \<Rightarrow> u64" where
  "sunk [] = 0"
| "sunk (Loop f k x # is) = x + sunk is"
| "sunk (Asm k x # is) = x + sunk is"
| "sunk (Call m # is) = sunk is"

definition sink_text :: "item list \<Rightarrow> string" where
  "sink_text is = '' sink='' @ show_nat (unat (sunk is)) @ [CHR 0x0A]"

subsection \<open>\<open>suite.h\<close>\<close>

fun arg_str :: "string list \<Rightarrow> string \<Rightarrow> string \<Rightarrow> string" where
  "arg_str [] key d = d"
| "arg_str (a # as) key d =
     (if take (length key) a = key \<and> length key < length a \<and> a ! length key = CHR ''=''
      then drop (length key + 1) a else arg_str as key d)"

definition define_loop :: "(u64 \<Rightarrow> u64 \<Rightarrow> u64) \<Rightarrow> int \<Rightarrow> u64 \<times> nat" where
  "define_loop op n = (fold (\<lambda>i acc. op acc (of_int i)) [0..n - 1] 0, length [0..n - 1])"

text \<open>The loops in assembly, with their operands: \<open>loop3\<close> has the accumulator, the counter and 7;
  \<open>loop5\<close> the accumulator, two registers with the value of \<open>tmp\<close>, and the counter. the result is
  the value and the number of executed instructions.\<close>

definition loop3_code :: "insn list" where
  "loop3_code = [Add 2 0, Dec 1, Jnz 0]"

definition loop5_code :: "insn list" where
  "loop5_code = [Add 2 0, Xor 1 0, Add 0 1, Dec 3, Jnz 0]"

definition loop3 :: "int \<Rightarrow> (u64 \<times> nat) option" where
  "loop3 n = asm_block loop3_code [0, of_int n, 7]"

definition loop5 :: "int \<Rightarrow> (u64 \<times> nat) option" where
  "loop5 n = asm_block loop5_code [0, 1, 1, of_int n]"

definition loop_c :: "int \<Rightarrow> u64 \<times> nat" where
  "loop_c = define_loop (+)"

definition in_asm :: "(u64 \<times> nat) option \<Rightarrow> item" where
  "in_asm r = Asm (snd (the r)) (fst (the r))"

text \<open>They end, for every value of the counter, after so many rounds as it says; from 0 it wraps.\<close>

definition rounds_of :: "int \<Rightarrow> nat" where
  "rounds_of n = (if (of_int n :: u64) = 0 then 2 ^ 64 else unat (of_int n :: u64))"

lemma loop3_runs: "loop3 n = Some (7 * of_int n, 3 * rounds_of n)"
proof -
  define eff :: "regs \<Rightarrow> regs" where "eff = (\<lambda>r. r(0 := r 0 + r 2, 1 := r 1 - 1))"
  let ?r = "operands [0, of_int n, 7]"
  have "asm_run loop3_code (0, ?r, False) = Some (apsnd ((*) 3) (count_down (\<lambda>_. eff) (?r 1) ?r))"
    by (rule asm_loop, subst asm_first) (simp_all add: loop3_code_def put_reg_def eff_def split: Option.bind_splits)
  moreover have "apfst (\<lambda>r. r 0) (count_down (\<lambda>_. eff) (?r 1) ?r) = count_down (\<lambda>_ acc. acc + 7) (?r 1) (?r 0)"
    by (rule count_down_view [where P = "\<lambda>r. r 2 = 7"]) (simp_all add: eff_def operands_def)
  then have "fst (count_down (\<lambda>_. eff) (?r 1) ?r) 0 = fst (count_down (\<lambda>_ acc. acc + 7) (?r 1) (?r 0))"
    by (simp add: prod_eq_iff)
  ultimately show ?thesis
    by (simp add: loop3_def asm_block_def case_prod_beta count_down_steps count_down_add rounds_of_def operands_def)
qed

lemma loop5_runs: "\<exists>x. loop5 n = Some (x, 5 * rounds_of n)"
proof -
  define eff :: "regs \<Rightarrow> regs" where
    "eff = (\<lambda>r. let a = (r 0 + r 2) XOR r 1 in r(0 := a, 1 := r 1 + a, 3 := r 3 - 1))"
  let ?r = "operands [0, 1, 1, of_int n]"
  have "asm_run loop5_code (0, ?r, False) = Some (apsnd ((*) 5) (count_down (\<lambda>_. eff) (?r 3) ?r))"
    by (rule asm_loop, subst asm_first) (simp_all add: loop5_code_def put_reg_def eff_def Let_def split: Option.bind_splits)
  then show ?thesis
    by (simp add: loop5_def asm_block_def case_prod_beta count_down_steps rounds_of_def operands_def)
qed

lemma word_of_int_small:
  assumes "1 \<le> n" and "n < 2 ^ 64"
  shows "unat (word_of_int n :: u64) = nat n" "(word_of_int n :: u64) \<noteq> 0"
proof -
  have b: "uint (word_of_int n :: u64) = n"
    using assms by (subst uint_word_of_int_eq) (simp add: take_bit_int_eq_self)
  show "unat (word_of_int n :: u64) = nat n" using b by (metis nat_uint_eq)
  show "(word_of_int n :: u64) \<noteq> 0" using b assms(1) by (metis unsigned_0 not_one_le_zero)
qed

lemma rounds_of_small: "1 \<le> n \<Longrightarrow> n < 2 ^ 64 \<Longrightarrow> rounds_of n = nat n" and rounds_of_0: "rounds_of 0 = 2 ^ 64"
  by (simp_all add: rounds_of_def word_of_int_small)

lemma loop_steps: "snd (define_loop op n) = nat n" "snd (loop_c n) = nat n"
  by (simp_all add: define_loop_def loop_c_def)

lemma asm_items:
  "in_asm (loop3 n) = Asm (3 * rounds_of n) (7 * of_int n)"
  "\<exists>x. in_asm (loop5 n) = Asm (5 * rounds_of n) x"
  using loop5_runs [of n] by (auto simp: in_asm_def loop3_runs)

subsection \<open>\<open>c_suite\<close>\<close>

definition work_a :: "int \<Rightarrow> item" where "work_a n = looped ''work_a'' (define_loop (+) n)"
definition work_b :: "int \<Rightarrow> item" where "work_b n = looped ''work_b'' (define_loop (-) n)"

definition c1_round :: "int \<Rightarrow> item list" where
  "c1_round n = [perf_begin ''single'' ''n'' n, work_a n, perf_end ''single'',
     perf_begin ''outer'' ''n'' n, work_a n, perf_begin ''inner'' ''n'' n, work_b (2 * n), perf_end ''inner'',
     work_a n, perf_end ''outer'']"

definition c1_main :: "string list \<Rightarrow> item list \<times> string" where
  "c1_main as = (let n0 = arg as ''n'' 1000; multi = arg as ''multi'' 0;
       is = [work_a 10, work_b 10] @ concat (map (\<lambda>m. c1_round (n0 * m)) (take (if multi \<noteq> 0 then 4 else 1) [1, 2, 3, 5]))
     in (is, ''c1 n='' @ show_int n0 @ '' multi='' @ show_int multi @ sink_text is))"

definition quad :: "int \<Rightarrow> item" where
  "quad n = looped ''quad'' (fold (\<lambda>i acc. fold (\<lambda>j acc. acc XOR of_int j) [0..n - 1] acc) [0..n - 1] 0,
     sum_list (map (\<lambda>i. length [0..n - 1]) [0..n - 1]))"

definition work_lin :: "int \<Rightarrow> item" where "work_lin n = looped ''work_lin'' (define_loop (+) n)"

definition c3_main :: "string list \<Rightarrow> item list \<times> string" where
  "c3_main as = (let n = arg as ''n'' 100;
       is = [quad 3, work_lin 3, perf_begin ''quad'' ''n'' n, quad n, work_lin n, perf_end ''quad'']
     in (is, ''c3 n='' @ show_int n @ sink_text is))"

definition c4_table :: "int list" where
  "c4_table = [700, 2600, 300, 4100, 900, 3300, 150, 2000]"

definition c4_work_n :: "int \<Rightarrow> item" where "c4_work_n n = looped ''work_n'' (define_loop (+) n)"
definition c4_work_m :: "int \<Rightarrow> item" where "c4_work_m n = looped ''work_m'' (define_loop (-) n)"

text \<open>For \<open>n\<close> of -1000 and less the index is negative, unless \<open>n / 1000\<close> is a multiple of 8.\<close>

definition c4_main :: "string list \<Rightarrow> (item list \<times> string) option" where
  "c4_main as = (let n = arg as ''n'' 1000; mode = arg_str as ''mode'' ''indep''; k = (n sdiv 1000) smod 8
     in if mode \<noteq> ''corr'' \<and> k < 0 then None
        else (let m = (if mode = ''corr'' then 2 * n else c4_table ! nat k);
                  is = [c4_work_n 3, c4_work_m 3, perf_begin ''dep'' ''n'' n, c4_work_n n, c4_work_m m, perf_end ''dep'']
              in Some (is, ''c4 n='' @ show_int n @ '' m='' @ show_int m @ '' mode='' @ mode @ sink_text is)))"

definition small_path :: "int \<Rightarrow> item" where "small_path n = looped ''small_path'' (define_loop (+) n)"
definition big_path :: "int \<Rightarrow> item" where "big_path n = looped ''big_path'' (define_loop (-) n)"
definition fix_path :: "int \<Rightarrow> item" where "fix_path n = looped ''fix_path'' (define_loop (XOR) n)"

definition c5_main :: "string list \<Rightarrow> item list \<times> string" where
  "c5_main as = (let n = arg as ''n'' 10;
       is = [small_path 3, big_path 3, fix_path 3, perf_begin ''reg'' ''n'' n] @
         (if n < 100 then [small_path n] else [big_path (10 * n), fix_path 75]) @ [perf_end ''reg'']
     in (is, ''c5 n='' @ show_int n @ sink_text is))"

text \<open>\<open>extra3\<close> adds its own counter, which is \<open>n\<close>; it is there when the program is built with \<open>HEAD\<close>.\<close>

definition extra3_code :: "insn list" where
  "extra3_code = [Add 1 0, Sub_imm 1 1, Jnz 0]"

definition extra3 :: "int \<Rightarrow> (u64 \<times> nat) option" where
  "extra3 n = asm_block extra3_code [0, of_int n]"

lemma extra3_runs: "\<exists>x. extra3 n = Some (x, 3 * rounds_of n)"
proof -
  define eff :: "regs \<Rightarrow> regs" where "eff = (\<lambda>r. r(0 := r 0 + r 1, 1 := r 1 - 1))"
  let ?r = "operands [0, of_int n]"
  have "asm_run extra3_code (0, ?r, False) = Some (apsnd ((*) 3) (count_down (\<lambda>_. eff) (?r 1) ?r))"
    by (rule asm_loop, subst asm_first) (simp_all add: extra3_code_def put_reg_def eff_def split: Option.bind_splits)
  then show ?thesis
    by (simp add: extra3_def asm_block_def case_prod_beta count_down_steps rounds_of_def operands_def)
qed

definition c7_work :: "int \<Rightarrow> item" where "c7_work n = looped ''work'' (define_loop (+) n)"

definition c7_main :: "bool \<Rightarrow> string list \<Rightarrow> item list \<times> string" where
  "c7_main HEAD as = (let n = arg as ''n'' 1000;
       is = [c7_work 3, perf_begin ''feature'' ''n'' n, c7_work n] @ (if HEAD then [in_asm (extra3 n)] else []) @ [perf_end ''feature'']
     in (is, ''c7 n='' @ show_int n @ sink_text is))"

definition lin_work :: "int \<Rightarrow> item" where "lin_work n = looped ''lin_work'' (define_loop (+) n)"
definition cap_work :: "int \<Rightarrow> item" where "cap_work n = looped ''cap_work'' (define_loop (-) n)"

definition c8_main :: "string list \<Rightarrow> item list \<times> string" where
  "c8_main as = (let n = arg as ''n'' 100;
       is = [lin_work 3, cap_work 3, perf_begin ''lin'' ''n'' n, lin_work n, perf_end ''lin'',
         perf_begin ''cap'' ''n'' n, cap_work (if n < 800 then n else 800), perf_end ''cap'']
     in (is, ''c8 n='' @ show_int n @ sink_text is))"

text \<open>\<open>c9_twovar.c\<close> has loops of its own, over \<open>long\<close>.\<close>

definition c9_work_n :: "int \<Rightarrow> item" where
  "c9_work_n n = looped ''work_n'' (fold (\<lambda>i s. s + of_int i) [0..n - 1] 0, length [0..n - 1])"

definition c9_work_m :: "int \<Rightarrow> item" where
  "c9_work_m m = looped ''work_m'' (fold (\<lambda>i s. (s XOR of_int i) + 3) [0..m - 1] 1, length [0..m - 1])"

definition c9_work_prod :: "int \<Rightarrow> int \<Rightarrow> item" where
  "c9_work_prod n m = looped ''work_prod'' (fold (\<lambda>i s. fold (\<lambda>j s. s + of_int j) [0..m - 1] s) [0..n - 1] 0,
     sum_list (map (\<lambda>i. length [0..m - 1]) [0..n - 1]))"

definition c9_main :: "string list \<Rightarrow> item list \<times> string" where
  "c9_main as = (let n = arg as ''n'' 100; m = arg as ''m'' 50; one = arg as ''one'' 0; prod = arg as ''prod'' 0;
       is = concat (map (\<lambda>rep. [if one \<noteq> 0 then perf_begin ''twovar'' ''n'' n
               else Call (Mark_begin_v ''twovar'' [(''n'', of_int n), (''m'', of_int m)])] @
             (if prod \<noteq> 0 then [c9_work_prod n m] else [c9_work_n n, c9_work_m m]) @ [perf_end ''twovar'']) [0..2])
     in (is, ''c9_twovar n='' @ show_int n @ '' m='' @ show_int m @ '' acc='' @ show_int (sint (sunk is)) @ [CHR 0x0A]))"

text \<open>String instructions: the buffer has \<open>2 ^ 20\<close> bytes, at address 0, and any contents at first.\<close>

definition rep_stosb :: "byte \<Rightarrow> nat \<Rightarrow> nat \<Rightarrow> memory \<Rightarrow> memory" where
  "rep_stosb a p n mem = store p (replicate n a) mem"

fun rep_movsb :: "nat \<Rightarrow> nat \<Rightarrow> nat \<Rightarrow> memory \<Rightarrow> memory" where
  "rep_movsb d s 0 mem = mem"
| "rep_movsb d s (Suc n) mem = rep_movsb (d + 1) (s + 1) n (mem(d := mem s))"

definition stos :: "int \<Rightarrow> item" where "stos n = looped ''stosb'' (0, nat n)"
definition movs :: "int \<Rightarrow> item" where "movs n = looped ''movsb'' (0, nat n)"

definition c2_main :: "string list \<Rightarrow> memory \<Rightarrow> (item list \<times> string) option" where
  "c2_main as mem = (let n = arg as ''n'' 1000
     in if n < 1 \<or> 2 ^ 19 < n then None
        else (let mem1 = rep_movsb 4096 0 64 (rep_stosb 1 0 64 mem);
                  mem2 = rep_movsb (2 ^ 19) 0 (nat n) (rep_stosb 1 0 (nat n) mem1);
                  is = [stos 64, movs 64, perf_begin ''stos'' ''bytes'' n, stos n, perf_end ''stos'',
                    perf_begin ''movs'' ''bytes'' n, movs n, perf_end ''movs'']
              in Some (is, ''c2 n='' @ show_int n @ '' '' @ show_int (uint (mem2 (nat n - 1))) @ [CHR 0x0A])))"

subsection \<open>\<open>tests/ctest.c\<close>\<close>

definition ctest_loop_work :: "int \<Rightarrow> item" where "ctest_loop_work n = looped ''loop_work'' (define_loop (+) n)"

definition ctest_n :: "string list \<Rightarrow> int" where
  "ctest_n as = (case as of [] \<Rightarrow> 1000
     | a # _ \<Rightarrow> (case dropWhile (\<lambda>c. c \<noteq> CHR ''='') a of [] \<Rightarrow> atol a | _ # v \<Rightarrow> atol v))"

text \<open>It leaves a region open that the end of the outer one closes, and ends one that was never opened.
  What \<open>memcpy\<close> executes is the C library's.\<close>

definition ctest_main :: "string list \<Rightarrow> (item list \<times> string) option" where
  "ctest_main as = (let n = ctest_n as
     in if n < 0 \<or> 2 ^ 19 < n then None
        else (let is = [ctest_loop_work 10, stos 64] @
                concat (map (\<lambda>rep. [perf_begin ''loop'' ''n'' n, ctest_loop_work n, perf_end ''loop'']) [0..2]) @
                [perf_begin ''rep'' ''bytes'' n, stos n, perf_end ''rep'',
                 perf_begin ''outer'' ''n'' n, ctest_loop_work n,
                 perf_begin ''inner'' ''n'' n, ctest_loop_work (2 * n), perf_end ''inner'',
                 ctest_loop_work n, perf_end ''outer'',
                 perf_begin ''unbal_outer'' [] 0, perf_begin ''unbal_inner'' [] 0, ctest_loop_work n, perf_end ''unbal_outer'',
                 perf_end ''never_opened'',
                 perf_begin ''memcpy'' ''bytes'' n, perf_end ''memcpy'']
              in Some (is, ''ctest done n='' @ show_int n @ sink_text is)))"

subsection \<open>\<open>cpp_suite\<close>\<close>

definition L3 :: "int \<Rightarrow> item" where "L3 n = in_asm (loop3 n)"
definition L5 :: "int \<Rightarrow> item" where "L5 n = in_asm (loop5 n)"
definition LC :: "int \<Rightarrow> item" where "LC n = looped ''loop_c'' (loop_c n)"

definition cpp_c1_main :: "string list \<Rightarrow> item list \<times> string" where
  "cpp_c1_main as = (let n = arg as ''n'' 1000;
       is = [L3 16, L5 16] @ concat (map (\<lambda>rep. [perf_begin ''outer'' ''n'' n, L3 n,
         perf_begin ''inner'' ''n'' n, L5 (2 * n), perf_end ''inner'', L3 n, perf_end ''outer'']) [0..1])
     in (is, ''c1 n='' @ show_int n @ sink_text is))"

datatype shape = Square | Circle

fun area :: "shape \<Rightarrow> u64 \<Rightarrow> u64" where
  "area Square i = i * i"
| "area Circle i = 3 * i * i + 1"

definition apply_n :: "(u64 \<Rightarrow> u64) \<Rightarrow> int \<Rightarrow> u64 \<times> nat" where
  "apply_n f n = (fold (\<lambda>i acc. acc + f (of_int i)) [0..n - 1] 0, length [0..n - 1])"

definition virtual_calls :: "shape \<Rightarrow> int \<Rightarrow> item" where
  "virtual_calls s n = looped ''virtual_n'' (apply_n (area s) n)"

definition template_calls :: "int \<Rightarrow> item" where
  "template_calls n = looped ''apply_n'' (apply_n (\<lambda>i. i * i) n)"

definition cpp_c3_main :: "string list \<Rightarrow> item list \<times> string" where
  "cpp_c3_main as = (let n = arg as ''n'' 1000;
       is = [virtual_calls Square 8, template_calls 8,
         perf_begin ''virtual_calls'' ''n'' n, virtual_calls ([Square, Circle] ! nat (n AND 1)) n, perf_end ''virtual_calls'',
         perf_begin ''template_calls'' ''n'' n, template_calls n, perf_end ''template_calls'']
     in (is, ''c3 n='' @ show_int n @ sink_text is))"

definition hidden_m :: "int \<Rightarrow> int" where
  "hidden_m n = (n * 7919) smod 1000 + 100"

definition cpp_c4_main :: "string list \<Rightarrow> item list \<times> string" where
  "cpp_c4_main as = (let n = arg as ''n'' 1000; m = hidden_m n;
       is = [L3 16, perf_begin ''hidden_hash'' ''n'' n, L3 m, perf_end ''hidden_hash''] @
         concat (map (\<lambda>c. [perf_begin ''hidden_cycle'' ''n'' n, L3 c, perf_end ''hidden_cycle'']) [100, 300, 500, 700]) @
         [perf_begin ''hidden_2n'' ''n'' n, L3 (2 * n), perf_end ''hidden_2n'']
     in (is, ''c4 n='' @ show_int n @ '' m='' @ show_int m @ sink_text is))"

definition cpp_c5_main :: "string list \<Rightarrow> item list \<times> string" where
  "cpp_c5_main as = (let n = arg as ''n'' 1000;
       is = [L3 16, L5 16, perf_begin ''regime'' ''n'' n] @ (if n < 1000 then [L3 n] else [L5 n, L3 500]) @ [perf_end ''regime'']
     in (is, ''c5 n='' @ show_int n @ sink_text is))"

definition cpp_c8_main :: "bool \<Rightarrow> string list \<Rightarrow> item list \<times> string" where
  "cpp_c8_main HEAD as = (let n = arg as ''n'' 1000;
       is = [LC 16, L5 16, L3 16, perf_begin ''work'' ''n'' n, LC n, L5 n] @ (if HEAD then [L3 n] else []) @ [perf_end ''work'']
     in (is, ''c8 n='' @ show_int n @ sink_text is))"

definition dot :: "int list \<Rightarrow> int list \<Rightarrow> item" where
  "dot a b = looped ''dot'' (of_int (sum_list (map (\<lambda>i. a ! i * b ! i) [0..<length a])), length [0..<length a])"

definition cpp_c9_main :: "string list \<Rightarrow> (item list \<times> string) option" where
  "cpp_c9_main as = (let n = arg as ''n'' 1000
     in if n < 0 then None
        else (let a = map (\<lambda>i. i smod 7) [0..n - 1]; b = map (\<lambda>i. i smod 5) [0..n - 1];
                  is = [dot a b, perf_begin ''sum'' ''n'' n, dot a b, perf_end ''sum'']
              in Some (is, ''c9 n='' @ show_int n @ sink_text is)))"

text \<open>\<open>c2_stl.cpp\<close>: a vector is its list, and of a map only the number of its keys matters. A loop is named
  after the region it is in; the two values that are taken from the containers behind the loops are \<open>taken\<close>.
  The casts to \<open>int\<close> keep their values, since \<open>i * 7\<close> overflows first.\<close>

definition lcg :: "32 word \<Rightarrow> 32 word" where
  "lcg s = s * 1664525 + 1013904223"

fun lcgs :: "nat \<Rightarrow> 32 word \<Rightarrow> int list" where
  "lcgs 0 s = []"
| "lcgs (Suc k) s = (let s' = lcg s in uint (drop_bit 1 s') # lcgs k s')"

definition taken :: "int \<Rightarrow> item" where
  "taken x = looped ''main'' (of_int x, 0)"

definition filled :: "string \<Rightarrow> int list \<Rightarrow> item" where
  "filled r xs = looped r (0, length xs)"

definition key_count_of :: "int list \<Rightarrow> int" where
  "key_count_of ks = int (length (remdups ks))"

definition cpp_c2_main :: "string list \<Rightarrow> (item list \<times> string) option" where
  "cpp_c2_main as = (let n = arg as ''n'' 1000
     in if n < 1 \<or> 2 ^ 31 \<le> (n - 1) * 7 then None
        else (let v = [0..n - 1]; data = lcgs (nat n) 2;
                  is = [filled ''main'' [0..63], taken 64,
                    perf_begin ''vec_grow'' ''n'' n, filled ''vec_grow'' v, taken (v ! nat (n div 2)), perf_end ''vec_grow'',
                    perf_begin ''vec_reserve'' ''n'' n, filled ''vec_reserve'' v, taken (v ! nat (n div 2)), perf_end ''vec_reserve'',
                    perf_begin ''map_insert'' ''n'' n, filled ''map_insert'' v, taken (key_count_of (lcgs (nat n) 1)), perf_end ''map_insert'',
                    perf_begin ''umap_insert'' ''n'' n, filled ''umap_insert'' v, taken (key_count_of (map (\<lambda>i. i * 7) v)), perf_end ''umap_insert'',
                    filled ''main'' data, perf_begin ''sort_ints'' ''n'' n, perf_end ''sort_ints'', taken (hd (sort data))]
              in Some (is, ''c2 n='' @ show_int n @ sink_text is)))"

end
