(* ===== verification/WorkloadCosts.thy ===== *)
theory WorkloadCosts
  imports Workloads
begin

text \<open>
  The costs of the regions of the workloads: the instructions of the loops between the begin and the
  end of a region, in all (\<open>inclusive\<close>) and without those of the regions inside it (\<open>self\<close>). A loop in
  assembly costs what its code executes. A loop in C costs \<open>w f\<close> for each iteration, where \<open>f\<close> is the
  name of its function: how many instructions the compiler makes of one is the parameter \<open>w\<close> (the
  comments in the sources say 4). What surrounds the loops is the compiler's, too.
\<close>

type_synonym open_cost = "string \<times> nat \<times> nat"   \<comment> \<open>name, inclusive, self\<close>

fun charge :: "nat \<Rightarrow> open_cost list \<Rightarrow> open_cost list" where
  "charge c [] = []"
| "charge c ((r, i, s) # st) = (r, i + c, s + c) # map (\<lambda>(r, i, s). (r, i + c, s)) st"

text \<open>The closed instances in the order in which they are closed; the stack has the innermost first.\<close>

fun costs :: "(string \<Rightarrow> nat) \<Rightarrow> item list \<Rightarrow> open_cost list \<Rightarrow> open_cost list" where
  "costs w [] st = []"
| "costs w (Loop f k x # is) st = costs w is (charge (w f * k) st)"
| "costs w (Asm k x # is) st = costs w is (charge k st)"
| "costs w (Call (Mark_begin r v x) # is) st = costs w is ((r, 0, 0) # st)"
| "costs w (Call (Mark_begin_v r vs) # is) st = costs w is ((r, 0, 0) # st)"
| "costs w (Call (Mark_end r) # is) st =
     (case dropWhile (\<lambda>f. fst f \<noteq> r) st of
        [] \<Rightarrow> costs w is st
      | f # st' \<Rightarrow> takeWhile (\<lambda>f. fst f \<noteq> r) st @ f # costs w is st')"
| "costs w (Call (Mark_state nm v) # is) st = costs w is st"

lemmas item_defs = perf_begin_def perf_end_def looped_def Let_def loop_steps

lemma costs_asm:
  "costs w (L3 n # is) st = costs w is (charge (3 * rounds_of n) st)"
  "costs w (L5 n # is) st = costs w is (charge (5 * rounds_of n) st)"
  "costs w (in_asm (extra3 n) # is) st = costs w is (charge (3 * rounds_of n) st)"
proof -
  show "costs w (L3 n # is) st = costs w is (charge (3 * rounds_of n) st)"
    by (simp add: L3_def asm_items)
  obtain x where "in_asm (loop5 n) = Asm (5 * rounds_of n) x" using asm_items(2) by blast
  then show "costs w (L5 n # is) st = costs w is (charge (5 * rounds_of n) st)" by (simp add: L5_def)
  obtain y where "extra3 n = Some (y, 3 * rounds_of n)" using extra3_runs by blast
  then show "costs w (in_asm (extra3 n) # is) st = costs w is (charge (3 * rounds_of n) st)" by (simp add: in_asm_def)
qed

lemma upto_0_2: "[0..2::int] = [0, 1, 2]" "[0..1::int] = [0, 1]"
  by (simp_all add: upto.simps)

lemma c1_costs:
  assumes "0 \<le> arg as ''n'' 1000"
  shows "costs w (fst (c1_main as)) [] = concat (map (\<lambda>m. let a = w ''work_a'' * (nat (arg as ''n'' 1000) * m);
      b = w ''work_b'' * (2 * (nat (arg as ''n'' 1000) * m)) in [(''single'', a, a), (''inner'', b, b), (''outer'', 2 * a + b, 2 * a)])
    (if arg as ''multi'' 0 \<noteq> 0 then [1, 2, 3, 5] else [1]))"
  using assms
  by (simp add: c1_main_def c1_round_def work_a_def work_b_def item_defs nat_mult_distrib algebra_simps numeral_eq_Suc)

lemma quad_steps: "sum_list (map (\<lambda>i. length [0..n - 1]) [0..n - 1]) = nat n * nat n"
  by (simp add: sum_list_triv)

lemma c3_costs: "costs w (fst (c3_main as)) [] =
    (let n = nat (arg as ''n'' 100); c = w ''quad'' * n ^ 2 + w ''work_lin'' * n in [(''quad'', c, c)])"
  by (simp add: c3_main_def quad_def work_lin_def item_defs quad_steps power2_eq_square del: length_upto)

lemma c4_costs:
  "map_option (\<lambda>p. costs w (fst p) []) (c4_main as) =
    (let n = arg as ''n'' 1000; k = (n sdiv 1000) smod 8;
         one = (\<lambda>m. let c = w ''work_n'' * nat n + w ''work_m'' * nat m in Some [(''dep'', c, c)])
     in if arg_str as ''mode'' ''indep'' = ''corr'' then one (2 * n) else if k < 0 then None else one (c4_table ! nat k))"
  by (simp add: c4_main_def c4_work_n_def c4_work_m_def item_defs)

lemma c5_costs:
  "costs w (fst (c5_main as)) [] =
    (let n = nat (arg as ''n'' 10); c = (if n < 100 then w ''small_path'' * n else w ''big_path'' * (10 * n) + w ''fix_path'' * 75)
     in [(''reg'', c, c)])"
  by (auto simp: c5_main_def small_path_def big_path_def fix_path_def item_defs nat_mult_distrib)

lemma c7_costs:
  assumes "1 \<le> arg as ''n'' 1000" "arg as ''n'' 1000 < 2 ^ 63"
  shows "costs w (fst (c7_main HEAD as)) [] =
    (let n = nat (arg as ''n'' 1000); c = w ''work'' * n + (if HEAD then 3 * n else 0) in [(''feature'', c, c)])"
  using assms by (simp add: c7_main_def c7_work_def item_defs costs_asm rounds_of_small)

lemma c8_costs:
  "costs w (fst (c8_main as)) [] =
    (let n = nat (arg as ''n'' 100); a = w ''lin_work'' * n; b = w ''cap_work'' * min n 800 in [(''lin'', a, a), (''cap'', b, b)])"
  by (auto simp: c8_main_def lin_work_def cap_work_def item_defs min_def)

lemma c9_costs:
  "costs w (fst (c9_main as)) [] = replicate 3 (''twovar'',
    let n = nat (arg as ''n'' 100); m = nat (arg as ''m'' 50);
        c = (if arg as ''prod'' 0 \<noteq> 0 then w ''work_prod'' * (n * m) else w ''work_n'' * n + w ''work_m'' * m) in (c, c))"
  by (simp add: c9_main_def upto_0_2 c9_work_n_def c9_work_m_def c9_work_prod_def item_defs sum_list_triv numeral_eq_Suc)

lemma c2_costs:
  assumes "c2_main as mem = Some p"
  shows "costs w (fst p) [] = (let n = nat (arg as ''n'' 1000); a = w ''stosb'' * n; b = w ''movsb'' * n in [(''stos'', a, a), (''movs'', b, b)])"
  using assms by (auto simp: c2_main_def stos_def movs_def item_defs split: if_splits)

lemma ctest_costs:
  assumes "ctest_main as = Some p"
  shows "costs w (fst p) [] =
    (let n = nat (ctest_n as); a = w ''loop_work'' * n; r = w ''stosb'' * n
     in replicate 3 (''loop'', a, a) @ [(''rep'', r, r), (''inner'', 2 * a, 2 * a),
      (''outer'', 4 * a, 2 * a), (''unbal_inner'', a, a), (''unbal_outer'', a, 0), (''memcpy'', 0, 0)])"
  using assms
  by (auto simp: ctest_main_def ctest_loop_work_def stos_def upto_0_2 item_defs nat_mult_distrib numeral_eq_Suc algebra_simps split: if_splits)

lemma cpp_c1_costs:
  assumes "1 \<le> arg as ''n'' 1000" "arg as ''n'' 1000 < 2 ^ 63"
  shows "costs w (fst (cpp_c1_main as)) [] = concat (replicate 2
    (let n = nat (arg as ''n'' 1000) in [(''inner'', 10 * n, 10 * n), (''outer'', 16 * n, 6 * n)]))"
  using assms by (simp add: cpp_c1_main_def upto_0_2 item_defs costs_asm rounds_of_small nat_mult_distrib numeral_eq_Suc)

lemma hidden_range: "0 \<le> n \<Longrightarrow> 100 \<le> hidden_m n \<and> hidden_m n < 1100"
  by (auto simp: hidden_m_def signed_modulo_int_def sgn_if)

lemma cpp_c4_costs:
  assumes "1 \<le> arg as ''n'' 1000" "arg as ''n'' 1000 < 2 ^ 63"
  shows "costs w (fst (cpp_c4_main as)) [] =
    (let n = arg as ''n'' 1000; one = (\<lambda>r k. (r, 3 * nat k, 3 * nat k))
     in one ''hidden_hash'' (hidden_m n) # map (one ''hidden_cycle'') [100, 300, 500, 700] @ [one ''hidden_2n'' (2 * n)])"
proof -
  have "rounds_of (hidden_m (arg as ''n'' 1000)) = nat (hidden_m (arg as ''n'' 1000))"
    using hidden_range [of "arg as ''n'' 1000"] assms(1) by (intro rounds_of_small) simp_all
  then show ?thesis using assms by (simp add: cpp_c4_main_def item_defs costs_asm rounds_of_small)
qed

text \<open>The remark on \<open>hidden_hash\<close>: for multiples of 100 its \<open>m\<close> is \<open>1100 - n\<close>, up to 1000.\<close>

lemma hidden_line:
  assumes "100 dvd n" and "0 < n" and "n \<le> 1000"
  shows "hidden_m n = 1100 - n"
proof -
  obtain k where k: "n = 100 * k" using assms(1) by (elim dvdE)
  then have "k \<in> {1..10}" using assms by simp
  then have "k \<in> set [1..10]" by simp
  then show ?thesis unfolding k hidden_m_def signed_modulo_int_def by (auto simp: upto.simps)
qed

text \<open>From \<open>n = 1100\<close> on \<open>m\<close> is no longer \<open>1100 - n\<close>.\<close>

lemma hidden_line_ends: "hidden_m 1100 = 1000"
  by (simp add: hidden_m_def signed_modulo_int_def)

lemma cpp_c5_costs:
  assumes "1 \<le> arg as ''n'' 1000" "arg as ''n'' 1000 < 2 ^ 63"
  shows "costs w (fst (cpp_c5_main as)) [] =
    (let n = nat (arg as ''n'' 1000); c = (if n < 1000 then 3 * n else 5 * n + 3 * 500) in [(''regime'', c, c)])"
  using assms by (auto simp: cpp_c5_main_def item_defs costs_asm rounds_of_small)

lemma cpp_c8_costs:
  assumes "1 \<le> arg as ''n'' 1000" "arg as ''n'' 1000 < 2 ^ 63"
  shows "costs w (fst (cpp_c8_main HEAD as)) [] =
    (let n = nat (arg as ''n'' 1000); c = w ''loop_c'' * n + 5 * n + (if HEAD then 3 * n else 0) in [(''work'', c, c)])"
  using assms by (simp add: cpp_c8_main_def LC_def item_defs costs_asm rounds_of_small)

text \<open>The virtual calls and the calls through the template do the same work for an even \<open>n\<close>.\<close>

lemma cpp_c3_costs:
  "costs w (fst (cpp_c3_main as)) [] = (let n = nat (arg as ''n'' 1000)
     in [(''virtual_calls'', w ''virtual_n'' * n, w ''virtual_n'' * n), (''template_calls'', w ''apply_n'' * n, w ''apply_n'' * n)])"
  by (simp add: cpp_c3_main_def virtual_calls_def template_calls_def apply_n_def item_defs)

lemma cpp_c9_costs:
  assumes "cpp_c9_main as = Some p"
  shows "costs w (fst p) [] = (let n = nat (arg as ''n'' 1000) in [(''sum'', w ''dot'' * n, w ''dot'' * n)])"
  using assms by (auto simp: cpp_c9_main_def dot_def item_defs split: if_splits)

end
