(* ===== verification/Nesting.thy ===== *)
theory Nesting
  imports Inclusive
begin

text \<open>
  The client against an abstract machine of open region names: per thread a stack of names, and two
  counters of calls that had no effect. A begin pushes its name unless the stack is full, an end
  takes the innermost region of its name and everything inside it off, and is counted when there is
  none; the exit of a thread closes all. Keys, states, frames, costs and the steering of followers
  have no influence on it.
\<close>

type_synonym nest = "(nat \<Rightarrow> string list) \<times> int \<times> int"   \<comment> \<open>open regions, unmatched ends, overflows\<close>

definition close_name :: "string \<Rightarrow> string list \<Rightarrow> string list" where
  "close_name r s = rev (tl (dropWhile (\<lambda>x. x \<noteq> r) (rev s)))"

definition nest_begin :: "nat \<Rightarrow> string \<Rightarrow> nest \<Rightarrow> nest" where
  "nest_begin i r n = (case n of (s, u, v) \<Rightarrow>
     if length (s i) < MAX_DEPTH then (s(i := s i @ [r]), u, v) else (s, u, v + 1))"

fun nest_step :: "event \<Rightarrow> nest \<Rightarrow> nest" where
  "nest_step (Begin i r sn sv now) n = nest_begin i (region_name r) n"
| "nest_step (Begin_v i r k ns vs now) n = nest_begin i (region_name r) n"
| "nest_step (End i r now) (s, u, v) =
     (if region_name r \<in> set (s i) then (s(i := close_name (region_name r) (s i)), u, v) else (s, u + 1, v))"
| "nest_step (Thread_exit i now) (s, u, v) = (s(i := []), u, v)"
| "nest_step _ n = n"

definition names_of :: "('h, 'z) client_scheme \<Rightarrow> nat \<Rightarrow> string list" where
  "names_of c i = (if i < length (threads c) then map (\<lambda>f. region (keys c ! f_key f)) (stack (thr c i)) else [])"

definition nest_of :: "('h, 'z) client_scheme \<Rightarrow> nest" where
  "nest_of c = (names_of c, unmatched_ends c, depth_overflows c)"

subsection \<open>What the names depend on\<close>

definition fkeys :: "'h thread \<Rightarrow> nat list" where
  "fkeys t = map fst (spine t)"

lemma names_of_fkeys: "names_of c i = (if i < length (threads c) then map (\<lambda>k. region (keys c ! k)) (fkeys (thr c i)) else [])"
  by (simp add: names_of_def fkeys_def spine_def comp_def)

text \<open>A longer list of keys does not change the names.\<close>

definition keys_bound :: "('h, 'z) client_scheme \<Rightarrow> bool" where
  "keys_bound c \<longleftrightarrow> (\<forall>i<length (threads c). \<forall>k \<in> set (fkeys (thr c i)). k < length (keys c))"

lemma control_bound: "control_inv A c \<Longrightarrow> keys_bound c"
  by (fastforce simp: control_inv_def keys_bound_def fkeys_def thr_ok_def thr_base_def dest: threads_okD)

lemma names_of_same:
  assumes "keys_bound c" and "keys c' = keys c @ ks" and "length (threads c') = length (threads c)"
    and "fkeys (thr c' j) = fkeys (thr c j)"
  shows "names_of c' j = names_of c j"
  using assms by (auto simp: names_of_fkeys keys_bound_def nth_append)

lemma fkeys_rest: "rest t = rest t' \<Longrightarrow> fkeys t = fkeys t'"
  using restD(1) [of t t'] by (simp add: fkeys_def spine_def)

lemma nest_of_inert:
  assumes "inert c' = inert c"
  shows "nest_of c' = nest_of c"
proof -
  have "names_of c' j = names_of c j" for j
    using inertD(1,6) [OF assms] fkeys_rest [OF inert_thread [OF assms]] by (simp add: names_of_fkeys)
  then show ?thesis using inertD(10,11) [OF assms] by (auto simp: nest_of_def)
qed

lemma close_name_snoc: "close_name r (s @ [x]) = (if x = r then s else close_name r s)"
  by (simp add: close_name_def)

lemma find_frame_close:
  assumes "find_frame ks st r n = Some j" and "n \<le> length st"
  shows "close_name r (take n (map (\<lambda>f. region (ks ! f_key f)) st)) = take j (map (\<lambda>f. region (ks ! f_key f)) st) \<and>
    r \<in> set (take n (map (\<lambda>f. region (ks ! f_key f)) st))"
  using assms
proof (induction ks st r n rule: find_frame.induct)
  case (2 ks st r i)
  have "take (Suc i) (map (\<lambda>f. region (ks ! f_key f)) st) =
      take i (map (\<lambda>f. region (ks ! f_key f)) st) @ [region (ks ! f_key (st ! i))]"
    using 2(3) by (simp add: take_Suc_conv_app_nth)
  with 2 show ?case by (auto simp: close_name_snoc split: if_splits)
qed simp

subsection \<open>The handlers\<close>

lemma close_frame_marks:
  assumes "close_frame A i tot se te b c = Some c'"
  shows "unmatched_ends c' = unmatched_ends c \<and> depth_overflows c' = depth_overflows c"
proof -
  obtain f a d where "c' = upd_thr i f (c\<lparr>trace_records := a, trace_dropped := d\<rparr>)"
    using close_frame_eq [OF assms] by blast
  then show ?thesis by (simp add: upd_thr_def)
qed

lemma close_above_marks:
  assumes "close_above A i tot se te d c = Some c'"
  shows "unmatched_ends c' = unmatched_ends c \<and> depth_overflows c' = depth_overflows c"
  using assms
proof (induction A i tot se te d c arbitrary: c' rule: close_above.induct)
  case (1 A i tot se te d c)
  show ?case
  proof (cases "i < length (threads c) \<and> d < depth (thr c i)")
    case False
    with "1.prems" show ?thesis by (auto simp: close_above.simps [of A i tot se te d c])
  next
    case True
    then obtain c1 where c1: "close_frame A i tot se te True c = Some c1" "close_above A i tot se te d c1 = Some c'"
      using "1.prems" by (auto simp: close_above.simps [of A i tot se te d c] split: Option.bind_splits)
    from "1.IH" [OF True c1] close_frame_marks [OF c1(1)] show ?thesis by simp
  qed
qed

text \<open>A handler of thread \<open>i\<close> that closes frames and sets the pointer.\<close>

lemma nest_closed:
  assumes own: "own_step i c c3" and k: "keys c3 = keys c" and I: "inert c' = inert c3"
    and m: "unmatched_ends c3 = unmatched_ends c" "depth_overflows c3 = depth_overflows c"
    and s: "spine (thr c3 i) = take n (spine (thr c i))" and i: "i < length (threads c)"
  shows "nest_of c' = ((names_of c)(i := take n (names_of c i)), unmatched_ends c, depth_overflows c)"
proof -
  have "names_of c3 j = ((names_of c)(i := take n (names_of c i))) j" for j
    using own i by (cases "j = i") (auto simp: own_step_def names_of_fkeys k fkeys_def s take_map)
  then have "names_of c3 = (names_of c)(i := take n (names_of c i))" by blast
  then show ?thesis by (simp add: nest_of_inert [OF I] nest_of_def [of c3] m)
qed

lemma nest_pre_end:
  assumes res: "pre_end A i reg now c = Some c'" and i: "i < length (threads c)"
  shows "nest_of c' = nest_step (End i reg now) (nest_of c)"
proof -
  let ?f = "\<lambda>f. region (keys c ! f_key f)" and ?r = "region_name reg"
  have names: "names_of c i = map ?f (stack (thr c i))" using i by (simp add: names_of_def)
  show ?thesis
  proof (cases "find_frame (keys c) (stack (thr c i)) ?r (depth (thr c i))")
    case None
    then have "c' = c\<lparr>unmatched_ends := unmatched_ends c + 1\<rparr>" using res by (simp add: pre_end_def Let_def)
    moreover have "?r \<notin> set (names_of c i)" using None by (auto simp: names find_frame_None in_set_conv_nth)
    moreover have "names_of (c\<lparr>unmatched_ends := u\<rparr>) = names_of c" for u by (rule ext) (simp add: names_of_def)
    ultimately show ?thesis by (simp add: nest_of_def)
  next
    case (Some m)
    obtain c0 c2 c3 se te where c0: "c0 = c\<lparr>seq_counter := seq_counter c0\<rparr>"
      and c2: "close_above A i (total (thr c i)) se te (m + 1) c0 = Some c2"
      and c3: "close_frame A i (total (thr c i)) se te False c2 = Some c3"
      and c': "c' = (let c4 = reinstall A i c3 in if leader c4 = Some i then update_shared A (Some i) c4 else c4)"
      by (rule pre_end_eq [OF res i Some])
    have t0: "threads c0 = threads c" "keys c0 = keys c" "unmatched_ends c0 = unmatched_ends c"
      "depth_overflows c0 = depth_overflows c" by (subst c0, simp)+
    have i0: "i < length (threads c0)" using i by (simp add: t0)
    note S2 = close_above_step [OF c2 i0]
    have i2: "i < length (threads c2)" using S2 i0 by (simp add: own_step_def)
    note S3 = close_frame_step [OF c3 i2]
    have own: "own_step i c0 c3" using S2 S3 own_step_trans by blast
    have m: "m < depth (thr c i)" using find_frame_Some [OF Some] by simp
    have sp: "spine (thr c3 i) = take m (spine (thr c0 i))"
      using S2 S3 m by (simp add: t0 butlast_take flip: length_spine)
    have "names_of c0 = names_of c" by (rule ext) (simp add: names_of_def t0)
    moreover have "inert c' = inert c3" by (simp add: c' Let_def)
    ultimately have "nest_of c' = ((names_of c)(i := take m (names_of c i)), unmatched_ends c, depth_overflows c)"
      using nest_closed [OF own _ _ _ _ sp i0, of c'] S2 S3 close_above_marks [OF c2] close_frame_marks [OF c3] by (simp add: t0)
    moreover have "close_name ?r (names_of c i) = take m (names_of c i)" "?r \<in> set (names_of c i)"
      using find_frame_close [OF Some le_refl] by (simp_all add: names)
    ultimately show ?thesis by (simp add: nest_of_def)
  qed
qed

lemma nest_thread_exit:
  assumes res: "event_thread_exit A i now c = Some c'" and i: "i < length (threads c)"
  shows "nest_of c' = nest_step (Thread_exit i now) (nest_of c)"
proof -
  let ?c0 = "c\<lparr>seq_counter := seq_counter c + 1\<rparr>"
  obtain c1 where c1: "close_above A i (total (thr c i)) (seq_counter c + 1) now 0 ?c0 = Some c1"
    and c': "c' = (let c2 = upd_thr i (\<lambda>t. t\<lparr>final_total := total (thr c i), alive := False\<rparr>) c1
      in if leader c2 = Some i then update_shared A None c2 else c2)"
    using res by (auto simp: event_thread_exit_def Let_def split: Option.bind_splits)
  let ?c2 = "upd_thr i (\<lambda>t. t\<lparr>final_total := total (thr c i), alive := False\<rparr>) c1"
  have i0: "i < length (threads ?c0)" using i by simp
  note S = close_above_step [OF c1 i0]
  have sp: "spine (thr c1 i) = take 0 (spine (thr ?c0 i))" using S by simp
  have "names_of ?c0 = names_of c" by (rule ext) (simp add: names_of_def)
  then have "nest_of c1 = ((names_of c)(i := []), unmatched_ends c, depth_overflows c)"
    using nest_closed [OF _ _ refl _ _ sp i0] S close_above_marks [OF c1] by simp
  moreover have "nest_of ?c2 = nest_of c1"
    by (auto simp: nest_of_def names_of_def fun_eq_iff thr_upd_thr_if) (simp_all add: upd_thr_def)
  moreover have "inert c' = inert ?c2" by (simp add: c' Let_def)
  ultimately show ?thesis using nest_of_inert [of c' ?c2] by (simp add: nest_of_def [of c])
qed

lemma nest_thread_init:
  assumes "event_thread_init A tno c = Some c'"
  shows "nest_of c' = nest_of c"
proof -
  define c1 where "c1 = c\<lparr>threads := threads c @ [new_thread A tno (nthreads_seen c)], nthreads_seen := nthreads_seen c + 1\<rparr>"
  obtain a c2 where s: "slots_for A (shared_key c1) (index (thr c1 (length (threads c)))) c1 = (a, c2)"
    by (cases "slots_for A (shared_key c1) (index (thr c1 (length (threads c)))) c1")
  have "c' = set_thread_cur (length (threads c)) a c2"
    using assms s by (simp add: event_thread_init_def Let_def c1_def split: if_splits)
  then have "inert c' = inert c1" using inert_slots_for_eq [OF s] by simp
  moreover have "names_of c1 = names_of c"
    by (auto simp: fun_eq_iff names_of_def c1_def nth_append new_thread_def less_Suc_eq)
  then have "nest_of c1 = nest_of c" by (simp add: nest_of_def c1_def)
  ultimately show ?thesis using nest_of_inert by metis
qed

lemma same_keyst_marks:
  assumes "same_keyst c c1"
  shows "unmatched_ends c1 = unmatched_ends c" "depth_overflows c1 = depth_overflows c"
  using arg_cong [OF assms [unfolded same_keyst_def], of unmatched_ends]
    arg_cong [OF assms [unfolded same_keyst_def], of depth_overflows] by simp_all

lemma nest_begin_common:
  assumes C: "control_inv A c" and N: "names_inv A c" and laws: "ht_laws A" "snprintf_laws A"
    and i: "i < length (threads c)" and cl: "clean_name RNAME_MAX (region_name reg)" "clean_states sts"
    and res: "begin_common A i reg sts now c = Some c'" and keys: "\<exists>ks. keys c' = keys c @ ks"
  shows "nest_of c' = nest_begin i (region_name reg) (nest_of c)"
  using res i
proof (cases rule: begin_common_inert)
  case overflow
  then have "names_of c' = names_of c" by (auto simp: fun_eq_iff names_of_def)
  then show ?thesis using overflow i by (auto simp: nest_of_def nest_begin_def names_of_def)
next
  case (opened k t' c1 f sq)
  let ?d = "upd_thr i (\<lambda>_. t'\<lparr>stack := stack t' @ [f]\<rparr>) (c1\<lparr>seq_counter := sq\<rparr>)"
  obtain ks where ks: "keys c' = keys c @ ks" using keys by blast
  have len: "threads c1 = threads c" using same_keyst_client(1) [OF opened(2)] by simp
  have l: "length (threads c') = length (threads c)" using inertD(6) [OF opened(4)] by (simp add: len)
  have K: "keys_bound c" by (rule control_bound [OF C])
  have "names_of c' j = names_of c j" if "j \<noteq> i" for j
  proof (cases "j < length (threads c)")
    case True
    then have "rest (thr c' j) = rest (thr ?d j)" by (intro inert_thread [OF opened(4)]) (simp add: len)
    then show ?thesis using that fkeys_rest [of "thr c' j" "thr ?d j"] by (intro names_of_same [OF K ks l]) (simp add: len)
  qed (simp add: names_of_def l)
  moreover obtain g where g: "stack (thr c' i) = stack (thr c i) @ [g]" "region (keys c' ! f_key g) = region_name reg"
    using begin_common_names [OF C N laws i cl res] opened(10) by blast
  have "map (\<lambda>f. region (keys c' ! f_key f)) (stack (thr c i)) = names_of c i"
    using K i ks by (auto simp: names_of_def keys_bound_def fkeys_def spine_def nth_append)
  then have "names_of c' i = names_of c i @ [region_name reg]" using i g by (simp add: names_of_def [of c'] l)
  ultimately have "names_of c' = (names_of c)(i := names_of c i @ [region_name reg])" by auto
  moreover have "length (names_of c i) = depth (thr c i)" using i by (simp add: names_of_def)
  moreover have "unmatched_ends c' = unmatched_ends c" "depth_overflows c' = depth_overflows c"
    using inertD(10,11) [OF opened(4)] same_keyst_marks [OF opened(2)] by (simp_all add: upd_thr_def)
  ultimately show ?thesis using opened(10) by (simp add: nest_of_def nest_begin_def)
qed

subsection \<open>Steps and runs\<close>

lemma nest_of_threads:
  assumes "\<And>j. j < length (threads c) \<Longrightarrow> fkeys (thr c' j) = fkeys (thr c j)" and "length (threads c') = length (threads c)"
    and "keys c' = keys c" and "unmatched_ends c' = unmatched_ends c" and "depth_overflows c' = depth_overflows c"
  shows "nest_of c' = nest_of c"
  using assms by (auto simp: nest_of_def names_of_fkeys fun_eq_iff)

lemma fkeys_upd_thr: "(\<And>t. spine (f t) = spine t) \<Longrightarrow> fkeys (thr (upd_thr i f c) j) = fkeys (thr c j)"
  by (simp add: thr_upd_thr_if fkeys_def)

lemma nest_step_begins: "begins e \<Longrightarrow> actor e = Some i \<Longrightarrow> nest_step e = nest_begin i (region_name (named e))"
  by (cases e) (simp_all add: fun_eq_iff)

lemma step_nest:
  assumes inv: "world_inv A w" and N: "names_inv A w" and laws: "snprintf_laws A" and cl: "event_clean e"
    and res: "step A w e = Some w'"
  shows "nest_of w' = nest_step e (nest_of w)"
proof -
  have en: "enabled w e" and h: "handle A w e = Some w'" using res by (auto simp: step_def split: if_splits)
  have C: "control_inv A w" "ht_laws A" using inv by (simp_all add: world_inv_def)
  show ?thesis
  proof (cases "begins e")
    case True
    then obtain i sts now c where b: "begin_common A i (named e) sts now c = Some w'" "actor e = Some i"
      "c = w \<or> c = w\<lparr>state_overflows := state_overflows w + 1\<rparr>"
      "clean_name RNAME_MAX (region_name (named e)) \<and> clean_states sts"
      using h cl begins_common by metis
    have c: "control_inv A c" "names_inv A c" "threads c = threads w" "keys c = keys w" "nest_of c = nest_of w"
      using b(3) C N by (auto simp: nest_of_def names_of_def fun_eq_iff)
    have i: "i < length (threads c)" using b(2) en c(3) by (simp add: enabled_def)
    have "calm w w'" using handle_calm [OF inv en h] True by (auto elim!: begins.elims)
    then have "\<exists>ks. keys w' = keys c @ ks" by (simp add: calm_def c(4))
    from nest_begin_common [OF c(1,2) C(2) laws i _ _ b(1) this] b(4) c(5) nest_step_begins [OF True b(2)] show ?thesis by simp
  next
    case False
    show ?thesis
    proof (cases e)
      case (Thread_init tno)
      with h nest_thread_init show ?thesis by (auto simp: nest_of_def)
    next
      case (Thread_exit i now)
      with h en nest_thread_exit [of A i now w] show ?thesis by (simp add: enabled_def)
    next
      case (End i r now)
      with h en nest_pre_end [of A i r now w] show ?thesis by (simp add: enabled_def)
    next
      case (State i nm v)
      have "nest_of (pre_state i nm v w) = nest_of w"
        by (rule nest_of_threads)
          (auto simp: pre_state_def Let_def fkeys_upd_thr spine_f_states, simp_all add: upd_thr_def)
      with State h show ?thesis by (auto simp: nest_of_def)
    next
      case (Syscall i)
      have "nest_of (event_pre_syscall i w) = nest_of w"
        by (rule nest_of_threads) (simp_all add: event_pre_syscall_def fkeys_upd_thr spine_def, simp_all add: upd_thr_def)
      with Syscall h show ?thesis by (auto simp: nest_of_def)
    next
      case (Load d)
      have "nest_of (event_module_load A d w) = nest_of w"
        by (rule nest_of_threads) (simp_all add: event_module_load_def Let_def)
      with Load h show ?thesis by (auto simp: nest_of_def)
    next
      case (Build i x pc n mo)
      have "nest_of (build_block A i x pc n mo w) = nest_of (event_app2app x i w)"
        by (rule nest_of_threads; cases rule: event_analysis_cases [of A "event_app2app x i w" pc i n mo])
          (simp_all add: build_block_def assign_slot_def)
      also have "\<dots> = nest_of w"
        by (rule nest_of_threads) (simp_all add: event_app2app_def fkeys_upd_thr spine_def, simp_all add: upd_thr_def)
      finally show ?thesis using Build h by (auto simp: nest_of_def)
    next
      case (Exec i p)
      have "nest_of (counted i s n w) = nest_of (upd_thr i (\<lambda>t. t\<lparr>total := total t + n\<rparr>) w)" for s n
        by (rule nest_of_threads) (simp_all add: counted_def Let_def bump_def split: carr.split)
      moreover have "nest_of (upd_thr i (\<lambda>t. t\<lparr>total := total t + n\<rparr>) w) = nest_of w" for n
        by (rule nest_of_threads) (simp_all add: fkeys_upd_thr spine_def, simp_all add: upd_thr_def)
      ultimately show ?thesis
        using Exec h en exec_block_spec [OF inv, of p i] by (auto simp: enabled_def nest_of_def split: if_splits)
    qed (use False in simp_all)
  qed
qed

lemma run_nest:
  assumes "world_inv A w" "names_inv A w" "snprintf_laws A" "list_all event_clean es" "list_all event_ok es"
    "run (step A) w es = Some w'"
  shows "nest_of w' = fold nest_step es (nest_of w)"
  using assms
proof (induction es arbitrary: w)
  case (Cons e es)
  from Cons.prems(6) obtain u where u: "step A w e = Some u" "run (step A) u es = Some w'"
    by (auto split: Option.bind_splits)
  have "world_inv A u" using Cons.prems u(1) callbacks.step_inv by auto
  moreover have "names_inv A u" using step_names [OF Cons.prems(1,2,3) _ u(1)] Cons.prems(4) by simp
  ultimately show ?case using Cons.IH u Cons.prems step_nest [OF Cons.prems(1,2,3) _ u(1)] by simp
qed simp

lemma ran_nest:
  assumes "ran A oc main es w" and "snprintf_laws A" and "list_all event_clean es"
  shows "nest_of w = fold nest_step es (\<lambda>_. [], 0, 0)"
proof -
  have "names_inv A (init_world A oc main)"
    using assms(1) by (simp add: names_inv_def table_inv_def init_world_def ran_def ht_laws_def)
  moreover have "nest_of (init_world A oc main) = (\<lambda>_. [], 0, 0)"
    by (simp add: nest_of_def names_of_def init_world_def fun_eq_iff)
  moreover have "world_inv A (init_world A oc main)" "list_all event_ok es" "run (step A) (init_world A oc main) es = Some w"
    using assms(1) unfolding ran_def by (blast intro: init_world_inv)+
  ultimately show ?thesis using run_nest assms(2,3) by metis
qed

end
