(* ===== verification/Progress.thy ===== *)
theory Progress
  imports Nesting
begin

text \<open>
  The client does not abort: where the allocations succeed and the table of keys has room, the
  handler of every callback that DynamoRIO can make in a state that a run reaches returns. One
  callback makes one key at most, so room for \<open>n\<close> keys is room for \<open>n\<close> callbacks.
\<close>

definition allocs_succeed :: "('h, 'p) dr_api \<Rightarrow> bool" where
  "allocs_succeed A \<longleftrightarrow> (\<forall>i. stats_alloc A i \<and> global_alloc A i \<and> thread_alloc A i)"

definition keys_left :: "('h, 'z) keyst_scheme \<Rightarrow> nat" where
  "keys_left s = MAX_KEYS - length (keys s)"

lemma intern_key_returns:
  assumes "allocs_succeed A" and "0 < keys_left s"
  shows "\<exists>k t s'. intern_key A x r sts par rt s = Some (k, t, s') \<and> length (keys s') \<le> Suc (length (keys s))"
  using assms by (auto simp: intern_key_def add_key_def allocs_succeed_def keys_left_def Let_def split: option.splits prod.splits)

lemma get_key_returns:
  assumes "allocs_succeed A" and "0 < keys_left s"
  shows "\<exists>k t' s'. get_key A r sts par rt t s = Some (k, t', s') \<and> length (keys s') \<le> Suc (length (keys s))"
  using intern_key_returns [OF assms, of "kbuf_of A r sts rt" r sts par rt]
  by (auto simp: get_key_def get_key_slow_def Let_def split: option.splits)

lemma begin_common_returns:
  assumes "allocs_succeed A" and "0 < keys_left c"
  shows "\<exists>c'. begin_common A i reg sts now c = Some c'"
proof (cases "MAX_DEPTH \<le> depth (thr c i)")
  case True
  then show ?thesis by (simp add: begin_common_def Let_def)
next
  case False
  let ?c = "c\<lparr>marker_seen := True\<rparr>"
  have "0 < keys_left ?c" using assms(2) by (simp add: keys_left_def)
  from get_key_returns [OF assms(1) this, of "region_name reg" sts "fst (begin_call c i)" "snd (begin_call c i)" "thr c i"]
  obtain k t' c1 where "get_key A (region_name reg) sts (fst (begin_call c i)) (snd (begin_call c i)) (thr c i) ?c = Some (k, t', c1)"
    by blast
  then have "\<exists>c'. begin_common A i reg sts now c = Some c'" if "\<not> MAX_DEPTH \<le> depth (thr c i)"
    unfolding begin_common_def Let_def using that by (auto simp: begin_call_def split: prod.splits)
  with False show ?thesis by blast
qed

text \<open>A frame's key is in the table.\<close>

lemma spine_keys:
  assumes "world_inv A w" and "i < length (threads w)" and "length (keys w) \<le> MAX_KEYS"
  shows "\<forall>(k, a) \<in> set (spine (thr w i)). k < MAX_KEYS"
proof -
  have "thr_base A w (thr w i)"
    using assms(1,2) by (auto simp: world_inv_def control_inv_def thr_ok_def dest: threads_okD)
  then show ?thesis using assms(3) by (fastforce simp: thr_base_def)
qed

theorem step_returns:
  assumes inv: "world_inv A w" and al: "allocs_succeed A" and room: "0 < keys_left w" and en: "enabled w e"
  shows "\<exists>w'. step A w e = Some w'"
proof -
  have st: "stats (thr w i) \<noteq> None \<or> stats_alloc A i" for i using al by (simp add: allocs_succeed_def)
  have sp: "\<forall>(k, a) \<in> set (spine (thr w i)). k < MAX_KEYS" if "i < length (threads w)" for i
    using spine_keys [OF inv that] room by (simp add: keys_left_def)
  have "\<exists>w'. handle A w e = Some w'"
  proof (cases e)
    case (Thread_init tno)
    then show ?thesis using al by (simp add: event_thread_init_def allocs_succeed_def Let_def split: prod.split)
  next
    case (Thread_exit i now)
    then have i: "i < length (threads w)" using en by (simp add: enabled_def)
    have "\<exists>c1. close_above A i (total (thr w i)) (seq_counter w + 1) now 0 (w\<lparr>seq_counter := seq_counter w + 1\<rparr>) = Some c1"
      by (rule close_above_returns) (use i st sp in simp_all)
    then show ?thesis using Thread_exit by (auto simp: event_thread_exit_def Let_def)
  next
    case (Begin i r sn sv now)
    then show ?thesis using begin_common_returns [OF al room] by (simp add: pre_begin_def)
  next
    case (Begin_v i r n ns vs now)
    have "0 < keys_left (w\<lparr>state_overflows := s\<rparr>)" for s using room by (simp add: keys_left_def)
    then show ?thesis unfolding Begin_v handle.simps pre_begin_v_def Let_def
      by (intro begin_common_returns [OF al]) (use room in simp)
  next
    case (End i r now)
    then show ?thesis using pre_end_returns [OF _ st sp] en by (simp add: enabled_def)
  next
    case (Exec i p)
    then show ?thesis using exec_block_spec [OF inv, of p i] en by (simp add: enabled_def)
  qed simp_all
  then show ?thesis using en by (simp add: step_def)
qed

subsection \<open>Marker calls leave the threads alive\<close>

definition lives :: "('h, 'z) client_scheme \<Rightarrow> bool list" where
  "lives c = map alive (threads c)"

lemma lives_inert: "inert c' = inert c \<Longrightarrow> lives c' = lives c"
proof -
  have "map alive ts = map alive (map rest ts)" for ts :: "'a thread list"
    by (simp add: rest_def)
  then show "inert c' = inert c \<Longrightarrow> lives c' = lives c" using inertD(5) [of c' c] by (metis lives_def)
qed

lemma lives_own:
  assumes "own_step i c c'" and "alive (thr c' i) = alive (thr c i)"
  shows "lives c' = lives c"
proof (intro nth_equalityI)
  fix j assume "j < length (lives c')"
  then show "lives c' ! j = lives c ! j" using assms by (cases "j = i") (auto simp: lives_def own_step_def)
qed (use assms in \<open>simp add: lives_def own_step_def\<close>)

lemma lives_upd: "(\<And>t. alive (f t) = alive t) \<Longrightarrow> lives (upd_thr i f c) = lives c"
  by (simp add: lives_def upd_thr_def map_upd_nth_same)

lemma begin_common_lives:
  assumes "begin_common A i reg sts now c = Some c'" and "i < length (threads c)"
  shows "lives c' = lives c"
  using assms
proof (cases rule: begin_common_inert)
  case overflow
  then show ?thesis by (simp add: lives_def)
next
  case (opened k t' c1 f sq)
  have s: "threads c1 = threads c" using same_keyst_client(1) [OF opened(2)] by simp
  have "alive t' = alive (thr c i)" using arg_cong [OF opened(3) [unfolded same_caches_def], of alive] by simp
  then have "lives (upd_thr i (\<lambda>_. t'\<lparr>stack := stack t' @ [f]\<rparr>) (c1\<lparr>seq_counter := sq\<rparr>)) = lives c"
    using assms(2) by (auto simp: lives_def upd_thr_def upd_nth_def s map_update intro: list_update_same_conv [THEN iffD2])
  then show ?thesis using lives_inert [OF opened(4)] by simp
qed

lemma begin_common_keys:
  assumes "begin_common A i reg sts now c = Some c'" and "i < length (threads c)"
    and "allocs_succeed A" and "0 < keys_left c"
  shows "length (keys c') \<le> Suc (length (keys c))"
  using assms(1,2)
proof (cases rule: begin_common_inert)
  case (opened k t' c1 f sq)
  have "0 < keys_left (c\<lparr>marker_seen := True\<rparr>)" using assms(4) by (simp add: keys_left_def)
  from get_key_returns [OF assms(3) this, of "region_name reg" sts "fst (begin_call c i)" "snd (begin_call c i)" "thr c i"] opened(1)
  have "length (keys c1) \<le> Suc (length (keys c))" by auto
  then show ?thesis using inertD(1) [OF opened(4)] by simp
qed simp

lemma pre_end_keeps:
  assumes res: "pre_end A i reg now c = Some c'" and i: "i < length (threads c)"
  shows "lives c' = lives c \<and> keys c' = keys c"
proof (cases "find_frame (keys c) (stack (thr c i)) (region_name reg) (depth (thr c i))")
  case None
  then show ?thesis using res by (auto simp: pre_end_def Let_def lives_def)
next
  case (Some m)
  obtain c0 c2 c3 se te where c0: "c0 = c\<lparr>seq_counter := seq_counter c0\<rparr>"
    and c2: "close_above A i (total (thr c i)) se te (m + 1) c0 = Some c2"
    and c3: "close_frame A i (total (thr c i)) se te False c2 = Some c3"
    and c': "c' = (let c4 = reinstall A i c3 in if leader c4 = Some i then update_shared A (Some i) c4 else c4)"
    by (rule pre_end_eq [OF res i Some])
  have t0: "threads c0 = threads c" by (subst c0) simp
  have i0: "i < length (threads c0)" using i by (simp add: t0)
  note S2 = close_above_step [OF c2 i0]
  have i2: "i < length (threads c2)" using S2 i0 by (simp add: own_step_def)
  note S3 = close_frame_step [OF c3 i2]
  have "lives c3 = lives c0"
    by (rule lives_own [of i]) (use S2 S3 own_step_trans in \<open>auto simp: ctl_def\<close>)
  then have "lives c3 = lives c" by (simp add: lives_def t0)
  moreover have "inert c' = inert c3" by (simp add: c' Let_def)
  ultimately show ?thesis using lives_inert pre_end_matched [OF res i Some] by metis
qed

end
