(* ===== verification/Lifetimes.thy ===== *)
theory Lifetimes
  imports Progress
begin

text \<open>
  Which threads are alive in a run depends on its events alone, and so does whether the callbacks of a
  sequence of thread starts, thread exits and marker calls can be made: if they can, and there is
  memory and room for keys, they are a run of the client.
\<close>

fun live_step :: "event \<Rightarrow> bool list \<Rightarrow> bool list" where
  "live_step (Thread_init tno) ls = ls @ [True]"
| "live_step (Thread_exit i now) ls = ls[i := False]"
| "live_step _ ls = ls"

lemma thread_init_lives:
  assumes "event_thread_init A tno c = Some c'"
  shows "lives c' = lives c @ [True] \<and> keys c' = keys c"
proof -
  define c1 where "c1 = c\<lparr>threads := threads c @ [new_thread A tno (nthreads_seen c)], nthreads_seen := nthreads_seen c + 1\<rparr>"
  obtain a c2 where s: "slots_for A (shared_key c1) (index (thr c1 (length (threads c)))) c1 = (a, c2)"
    by (cases "slots_for A (shared_key c1) (index (thr c1 (length (threads c)))) c1")
  have "c' = set_thread_cur (length (threads c)) a c2"
    using assms s by (simp add: event_thread_init_def Let_def c1_def split: if_splits)
  then have I: "inert c' = inert c1" using inert_slots_for_eq [OF s] by simp
  then show ?thesis using lives_inert [OF I] inertD(1) [OF I] by (simp add: c1_def lives_def new_thread_def)
qed

lemma thread_exit_lives:
  assumes res: "event_thread_exit A i now c = Some c'" and i: "i < length (threads c)"
  shows "lives c' = (lives c)[i := False] \<and> keys c' = keys c"
proof -
  let ?c0 = "c\<lparr>seq_counter := seq_counter c + 1\<rparr>"
  obtain c1 where c1: "close_above A i (total (thr c i)) (seq_counter c + 1) now 0 ?c0 = Some c1"
    and c': "c' = (let c2 = upd_thr i (\<lambda>t. t\<lparr>final_total := total (thr c i), alive := False\<rparr>) c1
      in if leader c2 = Some i then update_shared A None c2 else c2)"
    using res by (auto simp: event_thread_exit_def Let_def split: Option.bind_splits)
  let ?c2 = "upd_thr i (\<lambda>t. t\<lparr>final_total := total (thr c i), alive := False\<rparr>) c1"
  have "i < length (threads ?c0)" using i by simp
  note S = close_above_step [OF c1 this]
  have "lives c1 = lives ?c0" by (rule lives_own [of i]) (use S in \<open>auto simp: ctl_def\<close>)
  then have "lives ?c2 = (lives c)[i := False]"
    by (simp add: lives_def upd_thr_def upd_nth_def map_update)
  moreover have "inert c' = inert ?c2" by (simp add: c' Let_def)
  ultimately show ?thesis using lives_inert [of c' ?c2] thread_exit_effect [OF i res] by simp
qed

lemma step_lives:
  assumes inv: "world_inv A w" and res: "step A w e = Some w'"
  shows "lives w' = live_step e (lives w)"
proof -
  have en: "enabled w e" and h: "handle A w e = Some w'" using res by (auto simp: step_def split: if_splits)
  show ?thesis
  proof (cases "begins e")
    case True
    then obtain i reg sts now c where b: "begin_common A i reg sts now c = Some w'" "actor e = Some i"
      "c = w \<or> c = w\<lparr>state_overflows := state_overflows w + 1\<rparr>"
      using h by (metis begins_common)
    have t: "threads c = threads w" using b(3) by auto
    then have "i < length (threads c)" using b(2) en by (auto simp: enabled_def)
    from begin_common_lives [OF b(1) this] True show ?thesis by (auto simp: lives_def t elim!: begins.elims)
  next
    case False
    show ?thesis
    proof (cases e)
      case (Thread_init tno)
      with h thread_init_lives [of A tno w w'] show ?thesis by simp
    next
      case (Thread_exit i now)
      with h en thread_exit_lives [of A i now w w'] show ?thesis by (simp add: enabled_def)
    next
      case (End i r now)
      with h en pre_end_keeps [of A i r now w w'] show ?thesis by (simp add: enabled_def)
    next
      case (State i nm v)
      with h show ?thesis by (auto simp: pre_state_def Let_def lives_upd) (simp_all add: lives_def upd_thr_def)
    next
      case (Syscall i)
      with h show ?thesis by (auto simp: event_pre_syscall_def lives_upd)
    next
      case (Load d)
      with h show ?thesis using event_module_load_same(4) [of A d w] by (auto simp: lives_def)
    next
      case (Build i x pc n mo)
      have "threads (build_block A i x pc n mo w) = threads (event_app2app x i w)"
        by (cases rule: event_analysis_cases [of A "event_app2app x i w" pc i n mo])
          (simp_all add: build_block_def assign_slot_def)
      then have "lives (build_block A i x pc n mo w) = lives (event_app2app x i w)" by (simp add: lives_def)
      with Build h show ?thesis by (auto simp: event_app2app_def lives_upd)
    next
      case (Exec i p)
      have "threads (counted i s n w) = threads (upd_thr i (\<lambda>t. t\<lparr>total := total t + n\<rparr>) w)" for s n
        by (simp add: counted_def Let_def)
      then have "lives (counted i s n w) = lives w" for s n
        using lives_upd [of "\<lambda>t. t\<lparr>total := total t + n\<rparr>" i w] by (simp add: lives_def)
      then show ?thesis
        using Exec h en exec_block_spec [OF inv, of p i] by (auto simp: enabled_def split: if_splits)
    qed (use False in simp_all)
  qed
qed

subsection \<open>Starts, exits and marker calls\<close>

fun is_marker :: "event \<Rightarrow> bool" where
  "is_marker (Begin i r sn sv now) = True"
| "is_marker (Begin_v i r n ns vs now) = True"
| "is_marker (End i r now) = True"
| "is_marker (State i nm v) = True"
| "is_marker _ = False"

fun is_exit :: "event \<Rightarrow> bool" where
  "is_exit (Thread_exit i now) = True"
| "is_exit _ = False"

fun is_init :: "event \<Rightarrow> bool" where
  "is_init (Thread_init tno) = True"
| "is_init _ = False"

fun playable :: "bool list \<Rightarrow> event list \<Rightarrow> bool" where
  "playable ls [] = True"
| "playable ls (e # es) = ((is_marker e \<or> is_exit e \<or> is_init e) \<and>
     (case actor e of None \<Rightarrow> True | Some i \<Rightarrow> i < length ls \<and> ls ! i) \<and> playable (live_step e ls) es)"

lemma playable_append: "playable ls (es @ fs) \<longleftrightarrow> playable ls es \<and> playable (fold live_step es ls) fs"
  by (induction es arbitrary: ls) auto

lemma playable_markers:
  "list_all (\<lambda>e. is_marker e \<and> (\<exists>i. actor e = Some i \<and> i < length ls \<and> ls ! i)) es \<Longrightarrow>
   playable ls es \<and> fold live_step es ls = ls"
proof (induction es)
  case (Cons e es)
  then have "live_step e ls = ls" by (cases e) simp_all
  with Cons show ?case by auto
qed simp

lemma playable_step:
  assumes inv: "world_inv A w" and al: "allocs_succeed A" and room: "0 < keys_left w"
    and ok: "playable (lives w) [e]"
  shows "\<exists>w'. step A w e = Some w' \<and> world_inv A w' \<and> lives w' = live_step e (lives w) \<and>
    length (keys w') \<le> Suc (length (keys w))"
proof -
  have kind: "is_marker e \<or> is_exit e \<or> is_init e" using ok by simp
  have en: "enabled w e"
    using ok by (cases e) (auto simp: enabled_def lives_def)
  obtain w' where w': "step A w e = Some w'" using step_returns [OF inv al room en] by blast
  then have h: "handle A w e = Some w'" by (auto simp: step_def split: if_splits)
  have "event_ok e" using kind by (cases e) simp_all
  from step_inv [OF inv this w'] have "world_inv A w'" .
  moreover have "length (keys w') \<le> Suc (length (keys w))"
  proof (cases "begins e")
    case True
    then obtain j sts now c where b: "begin_common A j (named e) sts now c = Some w'" "actor e = Some j"
      "c = w \<or> c = w\<lparr>state_overflows := state_overflows w + 1\<rparr>"
      using h begins_common by metis
    then have "keys c = keys w" "j < length (threads c)" "0 < keys_left c"
      using en room by (auto simp: keys_left_def enabled_def)
    with begin_common_keys [of A j "named e" sts now c w'] b(1) al show ?thesis by simp
  next
    case False
    show ?thesis
    proof (cases e)
      case (Thread_init tno)
      with h thread_init_lives [of A tno w w'] show ?thesis by simp
    next
      case (Thread_exit i now)
      with h en thread_exit_lives [of A i now w w'] show ?thesis by (simp add: enabled_def)
    next
      case (End i r now)
      with h en pre_end_keeps [of A i r now w w'] show ?thesis by (simp add: enabled_def)
    next
      case (State j nm v)
      then show ?thesis using h by (auto simp: pre_state_def Let_def)
    qed (use False kind in simp_all)
  qed
  ultimately show ?thesis using w' step_lives [OF inv w'] by blast
qed

lemma playable_runs:
  assumes "world_inv A w" and "allocs_succeed A" and "length es \<le> keys_left w" and "playable (lives w) es"
  shows "\<exists>w'. run (step A) w es = Some w'"
  using assms
proof (induction es arbitrary: w)
  case (Cons e es)
  then have "0 < keys_left w" "playable (lives w) [e]" by auto
  then obtain u where u: "step A w e = Some u" "world_inv A u" "lives u = live_step e (lives w)"
    "length (keys u) \<le> Suc (length (keys w))"
    using playable_step [OF Cons.prems(1,2)] by blast
  have "length es \<le> keys_left u" using Cons.prems(3) u(4) by (simp add: keys_left_def)
  moreover have "playable (lives u) es" using Cons.prems(4) u(3) by simp
  ultimately obtain w' where "run (step A) u es = Some w'" using Cons.IH [OF u(2) Cons.prems(2)] by blast
  then show ?case using u(1) by auto
qed simp

lemma playable_ok: "playable ls es \<Longrightarrow> list_all event_ok es"
proof (induction es arbitrary: ls)
  case (Cons e es)
  then show ?case by (cases e) auto
qed simp

theorem playable_ran:
  assumes w: "ran A oc main es w" and "allocs_succeed A" and "length fs \<le> keys_left w" and "playable (lives w) fs"
  shows "\<exists>w'. ran A oc main (es @ fs) w'"
proof -
  obtain w' where "run (step A) w fs = Some w'"
    using playable_runs [OF ran_inv [OF w] assms(2-4)] by blast
  then have "ran A oc main (es @ fs) w'"
    using w playable_ok [OF assms(4)] by (auto simp: ran_def run_append)
  then show ?thesis by blast
qed

end
