(* ===== verification/Balance.thy ===== *)
theory Balance
  imports Lifetimes
begin

text \<open>
  What a run's marker calls alone say about its open regions: each thread's calls open and close
  regions of that thread only, so calls that are balanced on every thread leave nothing behind,
  however the threads take turns.
\<close>

type_synonym reg_call = "bool \<times> string"   \<comment> \<open>whether a region is opened or closed, and its name\<close>

fun said :: "event \<Rightarrow> (nat \<times> reg_call) option" where
  "said (Begin i r sn sv now) = Some (i, True, region_name r)"
| "said (Begin_v i r k ns vs now) = Some (i, True, region_name r)"
| "said (End i r now) = Some (i, False, region_name r)"
| "said _ = None"

definition said_in :: "event list \<Rightarrow> (nat \<times> reg_call) list" where
  "said_in es = List.map_filter said es"

definition of_thread :: "nat \<Rightarrow> (nat \<times> 'a) list \<Rightarrow> 'a list" where
  "of_thread i cs = map snd (filter (\<lambda>c. fst c = i) cs)"

fun nest_call :: "nat \<times> reg_call \<Rightarrow> nest \<Rightarrow> nest" where
  "nest_call (i, b, r) (s, u, v) =
     (if b then (if length (s i) < MAX_DEPTH then (s(i := s i @ [r]), u, v) else (s, u, v + 1))
      else if r \<in> set (s i) then (s(i := close_name r (s i)), u, v) else (s, u + 1, v))"

lemma of_thread_simps [simp]:
  "of_thread i [] = []" "of_thread i ((j, x) # cs) = (if j = i then x # of_thread i cs else of_thread i cs)"
  "of_thread i (a @ b) = of_thread i a @ of_thread i b"
  by (simp_all add: of_thread_def)

lemma said_in_simps [simp]:
  "said_in [] = []" "said_in (e # es) = (case said e of None \<Rightarrow> said_in es | Some c \<Rightarrow> c # said_in es)"
  by (simp_all add: said_in_def split: option.split)

lemma said_in_append [simp]: "said_in (es @ fs) = said_in es @ said_in fs"
  by (induction es) (simp_all split: option.split)

text \<open>A thread that exits closes what it has open and makes no further call, so the calls alone give what
  the other threads have open.\<close>

definition dead :: "bool list \<Rightarrow> nat \<Rightarrow> bool" where
  "dead ls i \<longleftrightarrow> i < length ls \<and> \<not> ls ! i"

definition agree :: "bool list \<Rightarrow> nest \<Rightarrow> nest \<Rightarrow> bool" where
  "agree ls n n' \<longleftrightarrow> snd n = snd n' \<and> (\<forall>i. dead ls i \<longrightarrow> fst n i = []) \<and> (\<forall>i. \<not> dead ls i \<longrightarrow> fst n i = fst n' i)"

lemma dead_step: "dead (ls @ [True]) i \<longleftrightarrow> dead ls i" "j < length ls \<Longrightarrow> dead (ls[j := False]) i \<longleftrightarrow> i = j \<or> dead ls i"
  by (auto simp: dead_def nth_append less_Suc_eq nth_list_update)

lemma step_agrees:
  assumes "world_inv A w" and res: "step A w e = Some w'" and ag: "agree (lives w) n n'"
  shows "agree (lives w') (nest_step e n) (case said e of None \<Rightarrow> n' | Some c \<Rightarrow> nest_call c n')"
proof -
  have lv: "lives w' = live_step e (lives w)" by (rule step_lives [OF assms(1,2)])
  have en: "\<And>i. actor e = Some i \<Longrightarrow> i < length (lives w) \<and> lives w ! i"
    using res by (auto simp: step_def enabled_def lives_def split: if_splits)
  obtain s u v s' u' v' where n: "n = (s, u, v)" "n' = (s', u', v')" by (cases n; cases n') auto
  show ?thesis
  proof (cases e)
    case (Thread_init tno)
    then show ?thesis using ag by (simp add: lv agree_def dead_step n)
  next
    case (Thread_exit i now)
    then show ?thesis using ag en by (simp add: agree_def lv n dead_step)
  qed (use ag en in \<open>auto simp: agree_def lv n nest_begin_def dead_def\<close>)
qed

lemma run_agrees:
  assumes "world_inv A w" and "list_all event_ok es" and "run (step A) w es = Some w'" and "agree (lives w) n n'"
  shows "agree (lives w') (fold nest_step es n) (fold nest_call (said_in es) n')"
  using assms
proof (induction es arbitrary: w n n')
  case (Cons e es)
  from Cons.prems(3) obtain u where u: "step A w e = Some u" "run (step A) u es = Some w'"
    by (auto split: Option.bind_splits)
  have "world_inv A u" using Cons.prems u(1) callbacks.step_inv by auto
  from Cons.IH [OF this _ u(2) step_agrees [OF Cons.prems(1) u(1) Cons.prems(4)]] Cons.prems(2)
  show ?case by (cases "said e") auto
qed simp

text \<open>One thread's calls, as long as each has its effect.\<close>

definition own_call :: "string list \<Rightarrow> reg_call \<Rightarrow> string list option" where
  "own_call s c = (case c of (b, r) \<Rightarrow>
     if b then (if length s < MAX_DEPTH then Some (s @ [r]) else None)
     else if r \<in> set s then Some (close_name r s) else None)"

definition balanced :: "reg_call list \<Rightarrow> bool" where
  "balanced cs \<longleftrightarrow> run own_call [] cs = Some []"

lemma own_call_nest: "own_call (s i) (b, r) = Some t \<Longrightarrow> nest_call (i, b, r) (s, u, v) = (s(i := t), u, v)"
  by (auto simp: own_call_def split: if_splits)

lemma own_calls_nest:
  assumes "\<And>i. run own_call (s i) (of_thread i cs) = Some (t i)"
  shows "fold nest_call cs (s, u, v) = (t, u, v)"
  using assms
proof (induction cs arbitrary: s)
  case (Cons c cs)
  obtain i b r where c: "c = (i, b, r)" by (cases c) auto
  obtain s' where s': "own_call (s i) (b, r) = Some s'" "run own_call s' (of_thread i cs) = Some (t i)"
    using Cons.prems [of i] by (auto simp: c split: Option.bind_splits)
  have "fold nest_call cs (s(i := s'), u, v) = (t, u, v)"
  proof (rule Cons.IH)
    fix j show "run own_call ((s(i := s')) j) (of_thread j cs) = Some (t j)"
      using Cons.prems [of j] s'(2) by (cases "j = i") (simp_all add: c)
  qed
  then show ?case unfolding c fold_simps own_call_nest [of s i b r s', OF s'(1)] .
qed (auto simp: fun_eq_iff)

lemma balanced_nest:
  assumes "\<And>i. balanced (of_thread i cs)"
  shows "fold nest_call cs (\<lambda>_. [], u, v) = (\<lambda>_. [], u, v)"
  by (rule own_calls_nest) (use assms in \<open>simp add: balanced_def\<close>)

lemma balanced_append: "balanced a \<Longrightarrow> balanced b \<Longrightarrow> balanced (a @ b)"
  by (simp add: balanced_def run_append)

lemma balanced_Nil [simp]: "balanced []"
  by (simp add: balanced_def)

lemma balanced_concat: "list_all balanced css \<Longrightarrow> balanced (concat css)"
  by (induction css) (simp_all add: balanced_append)

lemma ran_said:
  assumes ran: "ran A oc main es w" and "snprintf_laws A" and "list_all event_clean es"
    and calls: "fold nest_call (said_in es) (\<lambda>_. [], 0, 0) = (\<lambda>_. [], u, v)"
  shows "nest_of w = (\<lambda>_. [], u, v)"
proof -
  have I: "world_inv A (init_world A oc main)" "list_all event_ok es" "run (step A) (init_world A oc main) es = Some w"
    using ran unfolding ran_def by (blast intro: init_world_inv)+
  have "agree (lives w) (nest_of w) (\<lambda>_. [], u, v)"
    using run_agrees [OF I, of "(\<lambda>_. [], 0, 0)" "(\<lambda>_. [], 0, 0)"] ran_nest [OF assms(1-3)] calls
    by (simp add: agree_def)
  then show ?thesis by (cases "nest_of w") (auto simp: agree_def fun_eq_iff)
qed

subsection \<open>Any order\<close>

text \<open>Workers take turns in the order \<open>ts\<close>; who is not named finishes behind.\<close>

fun take_turns :: "nat list \<Rightarrow> 'a list list \<Rightarrow> (nat \<times> 'a) list" where
  "take_turns [] ws = concat (map (\<lambda>(j, xs). map (Pair j) xs) (enumerate 0 ws))"
| "take_turns (j # ts) ws =
     (if j < length ws \<and> ws ! j \<noteq> [] then (j, hd (ws ! j)) # take_turns ts (ws[j := tl (ws ! j)]) else take_turns ts ws)"

lemma of_thread_Pair [simp]: "of_thread i (map (Pair j) xs) = (if j = i then xs else [])"
  by (induction xs) auto

lemma of_thread_enumerate:
  "of_thread i (concat (map (\<lambda>(j, xs). map (Pair j) xs) (enumerate n ws))) = (if n \<le> i \<and> i < n + length ws then ws ! (i - n) else [])"
proof (induction ws arbitrary: n)
  case (Cons x ws)
  show ?case
  proof (cases "i = n")
    case False
    then have "n \<le> i \<longleftrightarrow> Suc n \<le> i" "n \<le> i \<Longrightarrow> i - n = Suc (i - Suc n)" by auto
    with False Cons show ?thesis by auto
  next
    case True
    with Cons [of "Suc n"] show ?thesis by simp
  qed
qed auto

lemma take_turns_thread: "of_thread i (take_turns ts ws) = (if i < length ws then ws ! i else [])"
proof (induction ts ws rule: take_turns.induct)
  case (2 j ts ws)
  show ?case
  proof (cases "j < length ws \<and> ws ! j \<noteq> []")
    case True
    from 2(1) [OF True] True show ?thesis by (auto simp: nth_list_update)
  next
    case False
    then have "take_turns (j # ts) ws = take_turns ts ws" by (simp only: take_turns.simps if_False)
    then show ?thesis using 2(2) [OF False] by simp
  qed
qed (simp add: of_thread_enumerate)

lemma of_thread_renumber:
  assumes "inj f"
  shows "of_thread (f i) (map (map_prod f g) cs) = map g (of_thread i cs)"
  by (induction cs) (auto simp: inj_eq [OF assms])

end
