(* ===== verification/PyExt.thy ===== *)
theory PyExt
  imports Perfmark System
begin

text \<open>
  The Python extension (\<open>perfmark/python/_perfmark.c\<close>). Python objects are a datatype of the kinds
  the code tells apart; tuples and byte strings never change, a list is a reference into the
  interpreter's heap, since a \<open>Region\<close> keeps the caller's list and not a copy. The result of a
  function is \<open>Inl\<close> the exception or \<open>Inr ()\<close>, with the state of the interpreter; \<open>None\<close> is an
  access to an object of the wrong kind or through a NULL pointer, which C leaves undefined.
  Python's \<open>PyUnicode_AsUTF8\<close> is the parameter \<open>utf8\<close>. Reference counts are left out, and so is what the
  code of an \<open>__index__\<close> does beside its result.
\<close>

datatype py_error = Type_error | Overflow_error | Unicode_error | System_error

datatype py =
    Bytes string
  | Str "nat list"
  | Long int
  | Tuple "py list"
  | Lst nat
  | None_obj
  | Other "py_error + int"   \<comment> \<open>with what its \<open>__index__\<close> gives, a \<open>TypeError\<close> when it has none\<close>

record py_state =
  lib :: mark_lib
  heap :: "nat \<Rightarrow> py list"

record region_obj =
  rg_name :: "string option"       \<comment> \<open>\<open>None\<close>: NULL, as \<open>tp_new\<close> leaves it\<close>
  rg_states :: "nat option"
  rg_extra :: "nat option"

definition MAX_KEY_STATES :: nat where "MAX_KEY_STATES = 8"

text \<open>What a reader of the \<open>char *\<close> of a byte string sees.\<close>

definition c_string :: "string \<Rightarrow> string" where
  "c_string s = takeWhile (\<lambda>c. c \<noteq> CHR 0x00) s"

fun as_cstr :: "(nat list \<Rightarrow> string option) \<Rightarrow> py \<Rightarrow> py_error + string" where
  "as_cstr utf8 (Bytes s) = Inr (c_string s)"
| "as_cstr utf8 (Str u) = (case utf8 u of None \<Rightarrow> Inl Unicode_error | Some s \<Rightarrow> Inr (c_string s))"
| "as_cstr utf8 _ = Inl Type_error"

subsection \<open>Creating a region\<close>

fun pair_ok :: "bool \<Rightarrow> py \<Rightarrow> bool" where
  "pair_ok int_values (Tuple [Bytes k, Long v]) = int_values"
| "pair_ok int_values (Tuple [Bytes k, Bytes v]) = (\<not> int_values)"
| "pair_ok int_values _ = False"

fun check_pairs :: "(nat \<Rightarrow> py list) \<Rightarrow> py \<Rightarrow> bool \<Rightarrow> py_error + unit" where
  "check_pairs h (Lst l) int_values = (if list_all (pair_ok int_values) (h l) then Inr () else Inl Type_error)"
| "check_pairs h _ int_values = Inl Type_error"

text \<open>The arguments, in the order name, states, extra; the last two may be left out.\<close>

fun region_args :: "py list \<Rightarrow> (string \<times> py \<times> py) option" where
  "region_args [Bytes n] = Some (n, None_obj, None_obj)"
| "region_args [Bytes n, s] = Some (n, s, None_obj)"
| "region_args [Bytes n, s, x] = Some (n, s, x)"
| "region_args _ = None"

definition optional_list :: "py \<Rightarrow> nat option" where
  "optional_list o' = (case o' of Lst l \<Rightarrow> Some l | _ \<Rightarrow> None)"

definition Region_init :: "(nat \<Rightarrow> py list) \<Rightarrow> py list \<Rightarrow> region_obj \<Rightarrow> (py_error + unit) \<times> region_obj" where
  "Region_init h args rg =
     (case region_args args of
        None \<Rightarrow> (Inl Type_error, rg)
      | Some (n, s, x) \<Rightarrow>
          if s \<noteq> None_obj \<and> check_pairs h s True \<noteq> Inr () then (Inl Type_error, rg)
          else if x \<noteq> None_obj \<and> check_pairs h x False \<noteq> Inr () then (Inl Type_error, rg)
          else (Inr (), rg\<lparr>rg_name := Some n, rg_states := optional_list s, rg_extra := optional_list x\<rparr>))"

subsection \<open>Entering and leaving\<close>

text \<open>\<open>PyLong_AsLongLong\<close>: the value and the exception it leaves behind; an object that is no integer is
  asked for its \<open>__index__\<close>.\<close>

definition long_long :: "int \<Rightarrow> i64 \<times> py_error option" where
  "long_long v = (if - (2 ^ 63) \<le> v \<and> v < 2 ^ 63 then (of_int v, None) else (-1, Some Overflow_error))"

fun as_long_long :: "py \<Rightarrow> i64 \<times> py_error option" where
  "as_long_long (Long v) = long_long v"
| "as_long_long (Other (Inr v)) = long_long v"
| "as_long_long (Other (Inl e)) = (-1, Some e)"
| "as_long_long _ = (-1, Some Type_error)"

fun key_state :: "py \<Rightarrow> ((string \<times> i64) \<times> py_error option) option" where
  "key_state (Tuple (Bytes k # v # r)) = Some ((c_string k, fst (as_long_long v)), snd (as_long_long v))"
| "key_state _ = None"

text \<open>The loop over the states; an exception stays set until a later one replaces it.\<close>

fun list_states :: "py list \<Rightarrow> py_error option \<Rightarrow> ((string \<times> i64) list \<times> py_error option) option" where
  "list_states [] e = Some ([], e)"
| "list_states (t # ts) e = do {
     (s, e1) \<leftarrow> key_state t;
     (ss, e2) \<leftarrow> list_states ts (if e1 = None then e else e1);
     Some (s # ss, e2)
   }"

definition enter_begin :: "mark_env \<Rightarrow> string \<Rightarrow> py list \<Rightarrow> mark_lib \<Rightarrow> (py_error option \<times> mark_lib) option" where
  "enter_begin E n sts m =
     (case sts of
        [] \<Rightarrow> Some (None, perfmark_begin E n '''' 0 m)
      | [t] \<Rightarrow> do {
          (s, e) \<leftarrow> key_state t;
          Some (e, perfmark_begin E n (fst s) (snd s) m)
        }
      | _ \<Rightarrow> do {
          (ss, e) \<leftarrow> list_states (take MAX_KEY_STATES sts) None;
          Some (e, perfmark_begin_v E n ss m)
        })"

fun enter_extra :: "py list \<Rightarrow> mark_lib \<Rightarrow> mark_lib option" where
  "enter_extra [] m = Some m"
| "enter_extra (Tuple (Bytes k # Bytes v # r) # ts) m = enter_extra ts (perfmark_state (c_string k) (c_string v) m)"
| "enter_extra _ m = None"

text \<open>The method returns the region also when a conversion has left an exception, which the
  interpreter then reports as a \<open>SystemError\<close>.\<close>

definition Region_enter :: "mark_env \<Rightarrow> region_obj \<Rightarrow> py_state \<Rightarrow> ((py_error + unit) \<times> py_state) option" where
  "Region_enter E rg st = do {
     n \<leftarrow> rg_name rg;
     (e, m1) \<leftarrow> enter_begin E (c_string n) (case rg_states rg of None \<Rightarrow> [] | Some l \<Rightarrow> heap st l) (lib st);
     m2 \<leftarrow> (case rg_extra rg of None \<Rightarrow> Some m1 | Some l \<Rightarrow> enter_extra (heap st l) m1);
     Some (if e = None then Inr () else Inl System_error, st\<lparr>lib := m2\<rparr>)
   }"

definition Region_exit :: "region_obj \<Rightarrow> py_state \<Rightarrow> py_state option" where
  "Region_exit rg st = do {
     n \<leftarrow> rg_name rg;
     Some (st\<lparr>lib := perfmark_end (c_string n) (lib st)\<rparr>)
   }"

subsection \<open>The functions of the module\<close>

definition mod_state :: "(nat list \<Rightarrow> string option) \<Rightarrow> py list \<Rightarrow> py_state \<Rightarrow> (py_error + unit) \<times> py_state" where
  "mod_state utf8 args st =
     (case args of
        [ko, vo] \<Rightarrow> (case as_cstr utf8 ko of
            Inl e \<Rightarrow> (Inl e, st)
          | Inr k \<Rightarrow> (case as_cstr utf8 vo of
                Inl e \<Rightarrow> (Inl e, st)
              | Inr v \<Rightarrow> (Inr (), st\<lparr>lib := perfmark_state k v (lib st)\<rparr>)))
      | _ \<Rightarrow> (Inl Type_error, st))"

text \<open>The method \<open>state\<close> of a region has the same body.\<close>

definition Region_state :: "(nat list \<Rightarrow> string option) \<Rightarrow> region_obj \<Rightarrow> py list \<Rightarrow> py_state \<Rightarrow> (py_error + unit) \<times> py_state" where
  "Region_state utf8 rg args st = mod_state utf8 args st"

definition mod_end :: "(nat list \<Rightarrow> string option) \<Rightarrow> py list \<Rightarrow> py_state \<Rightarrow> (py_error + unit) \<times> py_state" where
  "mod_end utf8 args st =
     (case args of
        [no] \<Rightarrow> (case as_cstr utf8 no of
            Inl e \<Rightarrow> (Inl e, st)
          | Inr n \<Rightarrow> (Inr (), st\<lparr>lib := perfmark_end n (lib st)\<rparr>))
      | _ \<Rightarrow> (Inl Type_error, st))"

text \<open>\<open>"O|OL"\<close>: the third argument is converted before any name is looked at.\<close>

fun begin_args :: "py list \<Rightarrow> py_error + (py \<times> py option \<times> i64)" where
  "begin_args [no] = Inr (no, None, 0)"
| "begin_args [no, so] = Inr (no, Some so, 0)"
| "begin_args [no, so, v] = (case as_long_long v of (x, None) \<Rightarrow> Inr (no, Some so, x) | (x, Some e) \<Rightarrow> Inl e)"
| "begin_args _ = Inl Type_error"

definition mod_begin :: "(nat list \<Rightarrow> string option) \<Rightarrow> mark_env \<Rightarrow> py list \<Rightarrow> py_state \<Rightarrow> (py_error + unit) \<times> py_state" where
  "mod_begin utf8 E args st =
     (case begin_args args of
        Inl e \<Rightarrow> (Inl e, st)
      | Inr (no, so, x) \<Rightarrow> (case as_cstr utf8 no of
          Inl e \<Rightarrow> (Inl e, st)
        | Inr n \<Rightarrow> (case (case so of None \<Rightarrow> Inr '''' | Some s \<Rightarrow> as_cstr utf8 s) of
              Inl e \<Rightarrow> (Inl e, st)
            | Inr sn \<Rightarrow> (Inr (), st\<lparr>lib := perfmark_begin E n sn x (lib st)\<rparr>))))"

text \<open>A function of the module that raises has called no marker.\<close>

lemma mod_calls_atomic:
  "fst (mod_begin utf8 E args st) = Inl e \<Longrightarrow> snd (mod_begin utf8 E args st) = st"
  "fst (mod_end utf8 args st) = Inl e \<Longrightarrow> snd (mod_end utf8 args st) = st"
  "fst (mod_state utf8 args st) = Inl e \<Longrightarrow> snd (mod_state utf8 args st) = st"
  by (auto simp: mod_begin_def mod_end_def mod_state_def split: sum.splits list.splits option.splits)

subsection \<open>What a region does\<close>

definition lists_ok :: "(nat \<Rightarrow> py list) \<Rightarrow> region_obj \<Rightarrow> bool" where
  "lists_ok h rg \<longleftrightarrow> (\<forall>l. rg_states rg = Some l \<longrightarrow> list_all (pair_ok True) (h l)) \<and>
     (\<forall>l. rg_extra rg = Some l \<longrightarrow> list_all (pair_ok False) (h l))"

fun int_pair :: "py \<Rightarrow> string \<times> int" where
  "int_pair (Tuple [Bytes k, Long v]) = (c_string k, v)"
| "int_pair _ = ('''', 0)"

fun text_pair :: "py \<Rightarrow> string \<times> string" where
  "text_pair (Tuple [Bytes k, Bytes v]) = (c_string k, c_string v)"
| "text_pair _ = ('''', '''')"

abbreviation int_pairs :: "py list \<Rightarrow> (string \<times> int) list" where
  "int_pairs ts \<equiv> map int_pair ts"

abbreviation text_pairs :: "py list \<Rightarrow> (string \<times> string) list" where
  "text_pairs ts \<equiv> map text_pair ts"

definition fits64 :: "int \<Rightarrow> bool" where
  "fits64 v \<longleftrightarrow> - (2 ^ 63) \<le> v \<and> v < 2 ^ 63"

definition clamp64 :: "int \<Rightarrow> i64" where
  "clamp64 v = (if fits64 v then of_int v else -1)"

definition begin_mark :: "string \<Rightarrow> (string \<times> int) list \<Rightarrow> mark" where
  "begin_mark n sts = (case sts of
     [] \<Rightarrow> Mark_begin n '''' 0
   | [s] \<Rightarrow> Mark_begin n (fst s) (clamp64 (snd s))
   | _ \<Rightarrow> Mark_begin_v n (map (apsnd clamp64) (take MAX_KEY_STATES sts)))"

text \<open>The states and extra texts that a region names at the moment, and the calls they stand for.\<close>

definition states_of :: "(nat \<Rightarrow> py list) \<Rightarrow> region_obj \<Rightarrow> (string \<times> int) list" where
  "states_of h rg = (case rg_states rg of None \<Rightarrow> [] | Some l \<Rightarrow> int_pairs (h l))"

definition extras_of :: "(nat \<Rightarrow> py list) \<Rightarrow> region_obj \<Rightarrow> (string \<times> string) list" where
  "extras_of h rg = (case rg_extra rg of None \<Rightarrow> [] | Some l \<Rightarrow> text_pairs (h l))"

definition enter_marks :: "(nat \<Rightarrow> py list) \<Rightarrow> string \<Rightarrow> region_obj \<Rightarrow> mark list" where
  "enter_marks h n rg = begin_mark (c_string n) (states_of h rg) # map (\<lambda>(k, v). Mark_state k v) (extras_of h rg)"

lemma pair_ok_True: "pair_ok True t \<longleftrightarrow> (\<exists>k v. t = Tuple [Bytes k, Long v])"
  by (cases "(True, t)" rule: pair_ok.cases) auto

lemma pair_ok_False: "pair_ok False t \<longleftrightarrow> (\<exists>k v. t = Tuple [Bytes k, Bytes v])"
  by (cases "(False, t)" rule: pair_ok.cases) auto

lemma key_state_pair: "key_state (Tuple [Bytes k, Long v]) =
    Some ((c_string k, clamp64 v), if fits64 v then None else Some Overflow_error)"
  by (simp add: clamp64_def fits64_def long_long_def)

lemma list_states_pairs:
  "list_all (pair_ok True) ts \<Longrightarrow> \<exists>e'. list_states ts e = Some (map (apsnd clamp64) (int_pairs ts), e') \<and>
     (e' = None \<longleftrightarrow> e = None \<and> list_all (\<lambda>s. fits64 (snd s)) (int_pairs ts))"
proof (induction ts arbitrary: e)
  case (Cons t ts)
  then obtain k v where t: "t = Tuple [Bytes k, Long v]" by (auto simp: pair_ok_True)
  let ?e = "if fits64 v then e else Some Overflow_error"
  have "list_all (pair_ok True) ts" using Cons.prems by simp
  from Cons.IH [OF this, of ?e] obtain e'
    where "list_states ts ?e = Some (map (apsnd clamp64) (int_pairs ts), e')"
      "e' = None \<longleftrightarrow> ?e = None \<and> list_all (\<lambda>s. fits64 (snd s)) (int_pairs ts)" by blast
  then show ?case by (auto simp: t key_state_pair simp del: key_state.simps split: if_splits)
qed simp

lemma enter_begin_pairs:
  assumes "list_all (pair_ok True) ts"
  shows "\<exists>e. enter_begin E n ts m = Some (e, perform E (begin_mark n (int_pairs ts)) m) \<and>
    (e = None \<longleftrightarrow> list_all (\<lambda>s. fits64 (snd s)) (take MAX_KEY_STATES (int_pairs ts)))"
proof (cases ts rule: remdups_adj.cases)
  case 1
  then show ?thesis by (simp add: enter_begin_def begin_mark_def)
next
  case (2 t)
  then obtain k v where "t = Tuple [Bytes k, Long v]" using assms by (auto simp: pair_ok_True)
  then show ?thesis using 2
    by (simp add: enter_begin_def key_state_pair begin_mark_def MAX_KEY_STATES_def del: key_state.simps)
next
  case (3 t u us)
  have "list_all (pair_ok True) (take MAX_KEY_STATES ts)" using assms by (auto simp: list_all_iff dest: in_set_takeD)
  from list_states_pairs [OF this, of None] obtain e
    where e: "list_states (take MAX_KEY_STATES ts) None = Some (map (apsnd clamp64) (take MAX_KEY_STATES (int_pairs ts)), e)"
      "e = None \<longleftrightarrow> list_all (\<lambda>s. fits64 (snd s)) (take MAX_KEY_STATES (int_pairs ts))"
    by (auto simp: take_map)
  have "enter_begin E n ts m = Some (e, perfmark_begin_v E n (map (apsnd clamp64) (take MAX_KEY_STATES (int_pairs ts))) m)"
    using e(1) 3 by (simp add: enter_begin_def)
  moreover have "begin_mark n (int_pairs ts) = Mark_begin_v n (map (apsnd clamp64) (take MAX_KEY_STATES (int_pairs ts)))"
    using 3 by (simp add: begin_mark_def)
  ultimately show ?thesis using e(2) by simp
qed

lemma enter_extra_pairs:
  "list_all (pair_ok False) ts \<Longrightarrow>
     enter_extra ts m = Some (fold (perform E) (map (\<lambda>(k, v). Mark_state k v) (text_pairs ts)) m)"
proof (induction ts arbitrary: m)
  case (Cons t ts)
  then show ?case by (auto simp: pair_ok_False)
qed simp

lemma Region_init_ok:
  assumes "Region_init h args rg = (Inr (), rg')"
  shows "rg_name rg' \<noteq> None" "lists_ok h rg'"
proof -
  obtain n s x where a: "region_args args = Some (n, s, x)"
    and s: "s = None_obj \<or> check_pairs h s True = Inr ()" and x: "x = None_obj \<or> check_pairs h x False = Inr ()"
    and rg': "rg' = rg\<lparr>rg_name := Some n, rg_states := optional_list s, rg_extra := optional_list x\<rparr>"
    using assms by (auto simp: Region_init_def split: option.splits if_splits)
  show "rg_name rg' \<noteq> None" by (simp add: rg')
  have "list_all (pair_ok True) (h l)" if "optional_list s = Some l" for l
    using s that by (cases s) (auto simp: optional_list_def split: if_splits)
  moreover have "list_all (pair_ok False) (h l)" if "optional_list x = Some l" for l
    using x that by (cases x) (auto simp: optional_list_def split: if_splits)
  ultimately show "lists_ok h rg'" by (simp add: lists_ok_def rg')
qed

text \<open>Entering a region whose lists have the form that was checked when it was made.\<close>

lemma Region_enter_marks:
  assumes "rg_name rg = Some n" and "lists_ok (heap st) rg"
  shows "Region_enter E rg st =
    Some (if list_all (\<lambda>s. fits64 (snd s)) (take MAX_KEY_STATES (states_of (heap st) rg)) then Inr () else Inl System_error,
      st\<lparr>lib := fold (perform E) (enter_marks (heap st) n rg) (lib st)\<rparr>)"
proof -
  let ?ts = "case rg_states rg of None \<Rightarrow> [] | Some l \<Rightarrow> heap st l"
  have ts: "list_all (pair_ok True) ?ts" using assms(2) by (auto simp: lists_ok_def split: option.split)
  have p: "int_pairs ?ts = states_of (heap st) rg" by (simp add: states_of_def split: option.split)
  from enter_begin_pairs [OF ts, of E "c_string n" "lib st"] obtain e
    where e: "enter_begin E (c_string n) ?ts (lib st) = Some (e, perform E (begin_mark (c_string n) (states_of (heap st) rg)) (lib st))"
      "e = None \<longleftrightarrow> list_all (\<lambda>s. fits64 (snd s)) (take MAX_KEY_STATES (states_of (heap st) rg))"
    unfolding p by blast
  have x: "(case rg_extra rg of None \<Rightarrow> Some m | Some l \<Rightarrow> enter_extra (heap st l) m) =
      Some (fold (perform E) (map (\<lambda>(k, v). Mark_state k v) (extras_of (heap st) rg)) m)" for m
    using assms(2) by (auto simp: lists_ok_def extras_of_def enter_extra_pairs [where E = E] split: option.split)
  show ?thesis by (simp add: Region_enter_def assms(1) e x enter_marks_def)
qed

subsection \<open>What the client makes of it\<close>

text \<open>The call of a marker as the client's wrapper reads it: the arrays are readable for as many
  elements as were passed.\<close>

fun mark_event :: "nat \<Rightarrow> u64 \<Rightarrow> mark \<Rightarrow> event" where
  "mark_event i now (Mark_begin r nm v) = Begin i (Some r) (Some nm) v now"
| "mark_event i now (Mark_begin_v r sts) = Begin_v i (Some r) (int (length sts))
     (Some (\<lambda>j. map_option (\<lambda>s. Some (fst s)) (if j < length sts then Some (sts ! j) else None)))
     (Some (\<lambda>j. map_option snd (if j < length sts then Some (sts ! j) else None))) now"
| "mark_event i now (Mark_end r) = End i (Some r) now"
| "mark_event i now (Mark_state nm v) = State i (Some nm) (Some v)"

lemma read_states_list:
  "i + n \<le> length sts \<Longrightarrow>
   read_states (Some (\<lambda>j. map_option (\<lambda>s. Some (fst s)) (if j < length sts then Some (sts ! j) else None)))
     (Some (\<lambda>j. map_option snd (if j < length sts then Some (sts ! j) else None))) i n = take n (drop i sts)"
proof (induction n arbitrary: i)
  case (Suc n)
  then have "take (Suc n) (drop i sts) = sts ! i # take n (drop (Suc i) sts)"
    by (simp add: Cons_nth_drop_Suc [symmetric])
  with Suc show ?case by simp
qed simp

lemma begin_v_handled:
  "handle A w (mark_event i now (Mark_begin_v n ss)) =
     begin_common A i (Some n) (if ss = [] then [([], 0)] else take KEY_STATES ss) now
       (if KEY_STATES < length ss then w\<lparr>state_overflows := state_overflows w + 1\<rparr> else w)"
proof -
  have "nat (if int KEY_STATES < int (length ss) then int KEY_STATES else int (length ss)) = min KEY_STATES (length ss)"
    by auto
  then show ?thesis
    by (auto simp: pre_begin_v_def Let_def read_states_list KEY_STATES_def)
qed

text \<open>The states of a region become the states of the key, up to \<open>KEY_STATES\<close> of them.\<close>

lemma begin_mark_handled:
  "handle A w (mark_event i now (begin_mark n sts)) =
     begin_common A i (Some n) (if sts = [] then [([], 0)] else map (apsnd clamp64) (take KEY_STATES sts)) now
       (if KEY_STATES < length sts then w\<lparr>state_overflows := state_overflows w + 1\<rparr> else w)"
proof (cases sts rule: remdups_adj.cases)
  case (2 s)
  then show ?thesis by (simp add: begin_mark_def pre_begin_def KEY_STATES_def apsnd_def map_prod_def split: prod.split)
next
  case (3 s t us)
  have b: "begin_mark n sts = Mark_begin_v n (map (apsnd clamp64) (take MAX_KEY_STATES sts))"
    using 3 by (simp add: begin_mark_def)
  have "KEY_STATES < length (take MAX_KEY_STATES sts) \<longleftrightarrow> KEY_STATES < length sts"
    by (auto simp: KEY_STATES_def MAX_KEY_STATES_def)
  moreover have "take KEY_STATES (take MAX_KEY_STATES sts) = take KEY_STATES sts"
    by (simp add: KEY_STATES_def MAX_KEY_STATES_def min_def)
  moreover have "take MAX_KEY_STATES sts \<noteq> []" "sts \<noteq> []" using 3 by (simp_all add: MAX_KEY_STATES_def)
  ultimately show ?thesis unfolding b begin_v_handled by (simp add: take_map)
qed (simp add: begin_mark_def pre_begin_def KEY_STATES_def)

end
