(* ===== verification/WorkloadRuns.thy ===== *)
theory WorkloadRuns
  imports WorkloadCosts Balance PyExt
begin

text \<open>
  The workloads of several threads, \<open>examples/c_suite/c6_threads.c\<close>, \<open>tests/cthreads.c\<close>,
  \<open>tests/cmarkers.c\<close> and \<open>examples/cpp_suite/c6_openmp.cpp\<close>, and what the client makes of the calls of a workload. The threads that are
  started together take turns in any order, an argument of the definitions, and are joined before
  the main thread goes on; thread numbers are those of the client.
\<close>

subsection \<open>The programs\<close>

text \<open>Threads started one after the other, the first with the number \<open>b\<close>.\<close>

definition forked :: "nat \<Rightarrow> nat list \<Rightarrow> 'a list list \<Rightarrow> (nat \<times> 'a) list" where
  "forked b ts ws = map (map_prod ((+) b) (\<lambda>x. x)) (take_turns ts ws)"

definition as_int :: "int \<Rightarrow> int" where   \<comment> \<open>the cast to \<open>int\<close>\<close>
  "as_int x = sint (word_of_int x :: 32 word)"

definition c6t_work :: "int \<Rightarrow> item" where "c6t_work n = looped ''work'' (define_loop (+) n)"

definition c6t_run :: "nat \<Rightarrow> int \<Rightarrow> int \<Rightarrow> string \<Rightarrow> nat list \<Rightarrow> (nat \<times> item) list" where
  "c6t_run b n T reg ts = (0, perf_begin reg ''n'' n) # forked b ts (map (\<lambda>i. [c6t_work (n sdiv T)]) [0..T - 1]) @ [(0, perf_end reg)]"

definition c6t_main :: "string list \<Rightarrow> nat list \<Rightarrow> nat list \<Rightarrow> (nat \<times> item) list \<times> string" where
  "c6t_main as ts1 ts2 = (let n = arg as ''n'' 4000;
       is = c6t_run 1 400 4 ''warmup'' ts1 @ c6t_run 5 n 4 ''parallel'' ts2
     in (is, ''c6 n='' @ show_int n @ sink_text (map snd is)))"

definition ct_worker :: "int \<Rightarrow> bool \<Rightarrow> item list" where
  "ct_worker n own = (if own then [perf_begin ''worker_loop'' ''n'' n] else []) @ [ctest_loop_work n] @
     (if own then [perf_end ''worker_loop''] else [])"

definition ct_run :: "nat \<Rightarrow> int \<Rightarrow> int \<Rightarrow> bool \<Rightarrow> string \<Rightarrow> nat list \<Rightarrow> (nat \<times> item) list" where
  "ct_run b n T own reg ts =
     (0, perf_begin reg ''threads'' T) # forked b ts (map (\<lambda>i. ct_worker n own) [0..T - 1]) @ [(0, perf_end reg)]"

text \<open>\<open>sink[0]\<close> takes what the first worker of each run and the main thread add.\<close>

definition ct_main :: "string list \<Rightarrow> nat list \<Rightarrow> nat list \<Rightarrow> nat list \<Rightarrow> (nat \<times> item) list \<times> string" where
  "ct_main as ts1 ts2 ts3 = (let n = arg as ''n'' 100000; T0 = as_int (arg as ''threads'' 4); T = (if 64 < T0 then 64 else T0);
       k = nat T;
       is = ct_run 1 100 T False ''warmup'' ts1 @ ct_run (1 + k) n T False ''parallel'' ts2 @
         ct_run (1 + 2 * k) n T True ''parallel_own'' ts3 @
         [(0, perf_begin ''serial'' ''n'' n), (0, ctest_loop_work n), (0, perf_end ''serial'')];
       first = filter (\<lambda>c. fst c = 0 \<or> 0 < k \<and> fst c \<in> {1, 1 + k, 1 + 2 * k}) is
     in (is, ''cthreads done n='' @ show_int n @ '' threads='' @ show_int T @ sink_text (map snd first)))"

text \<open>The times that \<open>cmarkers\<close> prints are not modelled; more than 64 threads overrun its array.\<close>

definition cm_worker :: "int \<Rightarrow> item list" where
  "cm_worker n = concat (map (\<lambda>i. [perf_begin ''body'' [] 0, looped ''body'' (define_loop (+) 20), perf_end ''body'']) [0..n - 1])"

definition cm_main :: "string list \<Rightarrow> nat list \<Rightarrow> (nat \<times> item) list option" where
  "cm_main as ts = (let T = as_int (arg as ''threads'' 1); n = arg as ''n'' 100000
     in if 64 < T then None else Some (forked 1 ts (map (\<lambda>i. cm_worker n) [0..T - 1])))"

text \<open>\<open>c6_openmp.cpp\<close>: which iterations a thread of the team gets, and the size of the team, is up to the
  OpenMP library, so both are arguments. The main thread is the first of the team.\<close>

definition omp_for :: "nat \<Rightarrow> (int \<Rightarrow> nat \<Rightarrow> int list) \<Rightarrow> int \<Rightarrow> (int \<Rightarrow> item) \<Rightarrow> nat list \<Rightarrow> (nat \<times> item) list" where
  "omp_for T share n body ts = take_turns ts (map (\<lambda>t. map body (share n t)) [0..<T])"

definition omp_main :: "nat \<Rightarrow> (int \<Rightarrow> nat \<Rightarrow> int list) \<Rightarrow> string list \<Rightarrow> nat list \<Rightarrow> nat list \<Rightarrow> nat list \<Rightarrow> (nat \<times> item) list \<times> string" where
  "omp_main T share as ts0 ts1 ts2 = (let n = arg as ''n'' 1000;
       is = omp_for T share 64 (\<lambda>i. L3 8) ts0 @
         concat (map (\<lambda>ts. (0, perf_begin ''omp_for'' ''n'' n) # omp_for T share n (\<lambda>i. L3 200) ts @ [(0, perf_end ''omp_for'')]) [ts1, ts2])
     in (is, ''c6 n='' @ show_int n @ '' threads='' @ show_nat T @ sink_text (map snd is)))"

subsection \<open>The calls of a workload\<close>

fun item_said :: "item \<Rightarrow> reg_call option" where
  "item_said (Call (Mark_begin r v x)) = Some (True, region_name (Some r))"
| "item_said (Call (Mark_begin_v r vs)) = Some (True, region_name (Some r))"
| "item_said (Call (Mark_end r)) = Some (False, region_name (Some r))"
| "item_said _ = None"

definition items_said :: "(nat \<times> item) list \<Rightarrow> (nat \<times> reg_call) list" where
  "items_said is = List.map_filter (\<lambda>(t, x). map_option (Pair t) (item_said x)) is"

definition calls1 :: "item list \<Rightarrow> reg_call list" where
  "calls1 is = List.map_filter item_said is"

text \<open>A run of the client in which the threads make the calls of the program and no others, whatever
  else happens: threads start and exit, blocks are built and executed, modules are loaded.\<close>

definition plays :: "event list \<Rightarrow> (nat \<times> item) list \<Rightarrow> bool" where
  "plays es is \<longleftrightarrow> said_in es = items_said is"

lemma said_mark_event: "said (mark_event i now m) = map_option (Pair i) (item_said (Call m))"
  by (cases m) simp_all

lemma calls1_simps [simp]:
  "calls1 [] = []" "calls1 (x # is) = (case item_said x of None \<Rightarrow> calls1 is | Some c \<Rightarrow> c # calls1 is)"
  by (simp_all add: calls1_def split: option.split)

lemma calls1_append [simp]: "calls1 (a @ b) = calls1 a @ calls1 b"
  by (induction a) (simp_all split: option.split)

lemma calls1_concat: "calls1 (concat xss) = concat (map calls1 xss)"
  by (induction xss) simp_all

lemma items_said_simps [simp]:
  "items_said [] = []"
  "items_said ((t, x) # is) = (case item_said x of None \<Rightarrow> items_said is | Some c \<Rightarrow> (t, c) # items_said is)"
  by (simp_all add: items_said_def split: option.split)

lemma of_thread_said: "of_thread i (items_said is) = calls1 (of_thread i is)"
  by (induction "is") (auto split: option.split)

lemma item_said_simps [simp]:
  "item_said (perf_begin r v x) = Some (True, region_name (Some r))"
  "item_said (perf_end r) = Some (False, region_name (Some r))" "item_said (looped f q) = None"
  by (simp_all add: perf_begin_def perf_end_def looped_def)

text \<open>The events of a program, when marker calls are all its threads do.\<close>

fun mark_events :: "u64 \<Rightarrow> (nat \<times> item) list \<Rightarrow> event list" where
  "mark_events now [] = []"
| "mark_events now ((i, Call m) # is) = mark_event i now m # mark_events now is"
| "mark_events now (x # is) = mark_events now is"

lemma said_marks: "said_in (mark_events now is) = items_said is"
  by (induction now "is" rule: mark_events.induct) (simp_all add: said_mark_event split: option.split)

lemma marks_are_markers: "is_marker (mark_event i now m)" "actor (mark_event i now m) = Some i" "event_ok (mark_event i now m)"
  by (cases m; simp)+

lemma marks_playable:
  assumes "\<And>i x. (i, x) \<in> set is \<Longrightarrow> i < length ls \<and> ls ! i"
  shows "playable ls (mark_events now is) \<and> fold live_step (mark_events now is) ls = ls"
proof (rule playable_markers)
  have "e \<in> set (mark_events now is) \<Longrightarrow> \<exists>i m. e = mark_event i now m \<and> (i, Call m) \<in> set is" for e
    by (induction now "is" rule: mark_events.induct) auto
  then show "list_all (\<lambda>e. is_marker e \<and> (\<exists>i. actor e = Some i \<and> i < length ls \<and> ls ! i)) (mark_events now is)"
    using assms by (force simp: list_all_iff marks_are_markers)
qed

subsection \<open>Balanced programs\<close>

definition steady :: "(nat \<times> item) list \<Rightarrow> bool" where
  "steady is \<longleftrightarrow> (\<forall>i. balanced (calls1 (of_thread i is)))"

lemma steady_nest:
  assumes "ran A oc main es w" and "snprintf_laws A" and "list_all event_clean es" and "plays es is" and "steady is"
  shows "nest_of w = (\<lambda>_. [], 0, 0)"
proof (rule ran_said [OF assms(1-3)])
  show "fold nest_call (said_in es) (\<lambda>_. [], 0, 0) = (\<lambda>_. [], 0, 0)"
    using assms(4,5) balanced_nest [of "items_said is"] by (simp add: plays_def steady_def of_thread_said)
qed

lemma steady_append: "steady a \<Longrightarrow> steady b \<Longrightarrow> steady (a @ b)"
  by (simp add: steady_def balanced_append)

lemma steady_concat: "list_all steady iss \<Longrightarrow> steady (concat iss)"
  by (induction iss) (simp_all add: steady_append, simp add: steady_def)

lemma steady_main: "balanced (calls1 is) \<Longrightarrow> steady (map (Pair 0) is)"
  by (simp add: steady_def)

lemma forked_thread: "of_thread i (forked b ts ws) = (if b \<le> i \<and> i < b + length ws then ws ! (i - b) else [])"
proof (cases "b \<le> i")
  case True
  then have "of_thread (b + (i - b)) (forked b ts ws) = of_thread (i - b) (take_turns ts ws)"
    unfolding forked_def by (subst of_thread_renumber) simp_all
  with True show ?thesis by (auto simp: take_turns_thread)
next
  case False
  then have "of_thread i (map (map_prod ((+) b) (\<lambda>x. x)) cs) = []" for cs :: "(nat \<times> 'a) list"
    by (induction cs) auto
  with False show ?thesis by (simp add: forked_def)
qed

lemma steady_forked:
  assumes "list_all (\<lambda>w. balanced (calls1 w)) ws"
  shows "steady (forked b ts ws)"
proof -
  have "balanced (calls1 (of_thread i (forked b ts ws)))" for i
    using assms by (cases "b \<le> i \<and> i < b + length ws") (auto simp: forked_thread list_all_length less_diff_conv2)
  then show ?thesis by (simp add: steady_def)
qed

lemma steady_run:
  assumes "list_all (\<lambda>w. balanced (calls1 w)) ws" and "0 < b"
  shows "steady ((0, perf_begin r v x) # forked b ts ws @ [(0, perf_end r)])"
proof -
  have "balanced (calls1 (of_thread i ((0, perf_begin r v x) # forked b ts ws @ [(0, perf_end r)])))" for i
  proof (cases "i = 0")
    case True
    then show ?thesis using assms(2) by (simp add: forked_thread balanced_def own_call_def close_name_def MAX_DEPTH_def)
  next
    case False
    then show ?thesis using steady_forked [OF assms(1), of b ts] by (simp add: steady_def)
  qed
  then show ?thesis by (simp add: steady_def)
qed

lemmas balance_simps = balanced_def own_call_def close_name_def region_name_def MAX_DEPTH_def Let_def run_append

lemma c6t_steady: "steady (fst (c6t_main as ts1 ts2))"
  by (auto simp: c6t_main_def c6t_run_def c6t_work_def Let_def list_all_iff simp del: append_Cons append_assoc
      intro!: steady_append steady_run [simplified])

lemma ct_worker_balanced: "balanced (calls1 (ct_worker n own))"
  by (cases own) (simp_all add: ct_worker_def ctest_loop_work_def balance_simps)

lemma ct_run_steady: "0 < b \<Longrightarrow> steady (ct_run b n T own reg ts)"
  unfolding ct_run_def by (rule steady_run) (simp_all add: list_all_iff ct_worker_balanced)

lemma ct_steady: "steady (fst (ct_main as ts1 ts2 ts3))"
proof -
  have "steady [(0, perf_begin ''serial'' ''n'' n), (0, ctest_loop_work n), (0, perf_end ''serial'')]" for n
    by (simp add: steady_def ctest_loop_work_def balance_simps)
  then show ?thesis by (simp add: ct_main_def Let_def steady_append ct_run_steady)
qed

lemma cm_steady: "cm_main as ts = Some is \<Longrightarrow> steady is"
proof -
  have "balanced (calls1 (cm_worker n))" for n
    unfolding cm_worker_def calls1_concat by (rule balanced_concat) (simp add: list_all_iff balance_simps)
  then show "cm_main as ts = Some is \<Longrightarrow> steady is"
    by (auto simp: cm_main_def Let_def list_all_iff intro!: steady_forked split: if_splits)
qed

lemma silent_steady: "list_all (\<lambda>c. item_said (snd c) = None) is \<Longrightarrow> steady is"
proof -
  have "list_all (\<lambda>c. item_said (snd c) = None) is \<Longrightarrow> calls1 (of_thread i is) = []" for i
    by (induction "is") auto
  then show "list_all (\<lambda>c. item_said (snd c) = None) is \<Longrightarrow> steady is" by (simp add: steady_def)
qed

lemma omp_silent:
  assumes "\<And>i. item_said (body i) = None"
  shows "list_all (\<lambda>c. item_said (snd c) = None) (omp_for T share n body ts)"
proof -
  have "item_said x = None" if "(t, x) \<in> set (omp_for T share n body ts)" for t x
  proof -
    have "x \<in> set (of_thread t (omp_for T share n body ts))" using that by (force simp: of_thread_def)
    then show ?thesis using assms by (auto simp: omp_for_def take_turns_thread split: if_splits)
  qed
  then show ?thesis by (auto simp: list_all_iff)
qed

lemma silent_between:
  assumes "list_all (\<lambda>c. item_said (snd c) = None) is"
  shows "steady ((0, perf_begin r v x) # is @ [(0, perf_end r)])"
proof -
  have "calls1 (of_thread i is) = []" for i using assms by (induction "is") auto
  then show ?thesis by (simp add: steady_def balanced_def own_call_def close_name_def MAX_DEPTH_def)
qed

lemma omp_steady: "steady (fst (omp_main T share as ts0 ts1 ts2))"
proof -
  have "item_said (L3 k) = None" for k by (simp add: L3_def in_asm_def)
  then have S: "list_all (\<lambda>c. item_said (snd c) = None) (omp_for T share k (\<lambda>i. L3 m) ts)" for k m ts
    by (rule omp_silent)
  show ?thesis
    unfolding omp_main_def Let_def fst_conv
    by (intro steady_append steady_concat silent_steady S) (simp add: silent_between [OF S])
qed

end
