(* ===== verification/CppQueue.thy ===== *)
theory CppQueue
  imports Relations Workloads
begin

text \<open>
  The producer and consumer of \<open>examples/cpp_suite/c7_queue.cpp\<close>. Both hold the mutex from the return of
  \<open>cv.wait\<close> to the end of their turn, so a turn is one step. A thread whose predicate does not hold
  sleeps until \<open>notify_all\<close>, or wakes up for no reason, and tests it again. The main thread is the
  producer and has number 0; the number of rounds is the parameter \<open>R\<close>.
\<close>

datatype main_pc = M_rounds | M_notify | M_join | M_end

record duet =
  dq :: "int list"
  round_ready :: bool
  all_drained :: bool         \<comment> \<open>\<open>drained\<close>\<close>
  all_done :: bool            \<comment> \<open>\<open>done\<close>\<close>
  gsink :: u64
  mpc :: main_pc
  rnd_no :: int               \<comment> \<open>\<open>r\<close>\<close>
  mi :: nat
  m_asleep :: bool
  k_asleep :: bool            \<comment> \<open>the consumer\<close>
  k_returned :: bool
  dcalls :: calls

definition burst_sizes :: "int list" where "burst_sizes = [5, 9, 13, 7, 11]"
definition round_bursts :: "nat list" where "round_bursts = [1, 2, 3, 2]"

definition notify_all :: "duet \<Rightarrow> duet" where
  "notify_all s = s\<lparr>m_asleep := False, k_asleep := False\<rparr>"

definition produce_burst :: "duet \<Rightarrow> duet" where
  "produce_burst s = (let m = burst_sizes ! (mi s mod 5) in
     s\<lparr>mi := mi s + 1, dq := dq s @ map (\<lambda>i. 3 + i smod 4) [0..m - 1],
       dcalls := dcalls s @ [(0, Mark_begin ''produce'' ''m'' (of_int m)), (0, Mark_end ''produce'')]\<rparr>)"

definition main_step :: "int \<Rightarrow> duet \<Rightarrow> duet option" where
  "main_step R s = (case mpc s of
     M_rounds \<Rightarrow>
       if m_asleep s then None
       else if \<not> all_drained s then Some (s\<lparr>m_asleep := True\<rparr>)
       else if rnd_no s < R
       then Some (let s1 = (produce_burst ^^ (round_bursts ! nat (rnd_no s smod 4))) (s\<lparr>all_drained := False\<rparr>)
         in notify_all (s1\<lparr>round_ready := True, rnd_no := rnd_no s + 1\<rparr>))
       else Some (s\<lparr>all_done := True, mpc := M_notify\<rparr>)
   | M_notify \<Rightarrow> Some (notify_all (s\<lparr>mpc := M_join\<rparr>))
   | M_join \<Rightarrow> if k_returned s then Some (s\<lparr>mpc := M_end\<rparr>) else None
   | M_end \<Rightarrow> None)"

text \<open>The items are handled one after the other with \<open>loop3\<close>.\<close>

definition consume_all :: "int list \<Rightarrow> u64" where
  "consume_all xs = fold (\<lambda>x acc. acc + fst (the (loop3 x))) xs 0"

definition consumer_step :: "duet \<Rightarrow> duet option" where
  "consumer_step s =
     (if k_returned s \<or> k_asleep s then None
      else if \<not> (round_ready s \<or> all_done s) then Some (s\<lparr>k_asleep := True\<rparr>)
      else if all_done s \<and> \<not> round_ready s then Some (s\<lparr>k_returned := True\<rparr>)
      else Some (notify_all (s\<lparr>round_ready := False, gsink := gsink s + consume_all (dq s), dq := [], all_drained := True,
        dcalls := dcalls s @ [(1, Mark_begin ''consume'' ''q'' (of_nat (length (dq s)))), (1, Mark_end ''consume'')]\<rparr>)))"

lemma consumer_step_cases:
  assumes "consumer_step s = Some s'"
  obtains (sleeps) "\<not> k_returned s" "\<not> k_asleep s" "\<not> round_ready s" "\<not> all_done s" "s' = s\<lparr>k_asleep := True\<rparr>"
  | (returns) "\<not> k_returned s" "\<not> k_asleep s" "\<not> round_ready s" "all_done s" "s' = s\<lparr>k_returned := True\<rparr>"
  | (consumes) "\<not> k_returned s" "\<not> k_asleep s" "round_ready s"
      "s' = notify_all (s\<lparr>round_ready := False, gsink := gsink s + consume_all (dq s), dq := [], all_drained := True,
        dcalls := dcalls s @ [(1, Mark_begin ''consume'' ''q'' (of_nat (length (dq s)))), (1, Mark_end ''consume'')]\<rparr>)"
  using assms by (auto simp: consumer_step_def split: if_splits)

definition start_duet :: duet where
  "start_duet = \<lparr>dq = [], round_ready = False, all_drained = True, all_done = False, gsink = 0, mpc = M_rounds, rnd_no = 0,
     mi = 0, m_asleep = False, k_asleep = False, k_returned = False, dcalls = []\<rparr>"

inductive duet_step :: "int \<Rightarrow> duet \<Rightarrow> duet \<Rightarrow> bool" for R :: int where
  main_moves: "main_step R s = Some s' \<Longrightarrow> duet_step R s s'"
| consumer_moves: "consumer_step s = Some s' \<Longrightarrow> duet_step R s s'"

inductive_cases duet_stepE: "duet_step R s s'"

text \<open>The states that can come up, spurious wake-ups included.\<close>

inductive duet_reachable :: "int \<Rightarrow> duet \<Rightarrow> bool" for R :: int where
  first: "duet_reachable R start_duet"
| next_step: "duet_reachable R s \<Longrightarrow> duet_step R s s' \<Longrightarrow> duet_reachable R s'"
| main_wakes: "duet_reachable R s \<Longrightarrow> duet_reachable R (s\<lparr>m_asleep := False\<rparr>)"
| consumer_wakes: "duet_reachable R s \<Longrightarrow> duet_reachable R (s\<lparr>k_asleep := False\<rparr>)"

subsection \<open>The invariant\<close>

definition duet_turns :: "duet \<Rightarrow> bool" where
  "duet_turns s \<longleftrightarrow> (all_drained s \<longleftrightarrow> \<not> round_ready s) \<and> (all_drained s \<longrightarrow> dq s = []) \<and> 0 \<le> rnd_no s \<and>
     (all_done s \<longleftrightarrow> mpc s \<noteq> M_rounds) \<and> (all_done s \<longrightarrow> all_drained s) \<and>
     (m_asleep s \<longrightarrow> mpc s = M_rounds \<and> \<not> all_drained s) \<and>
     (k_asleep s \<longrightarrow> \<not> round_ready s \<and> (all_done s \<longrightarrow> mpc s = M_notify)) \<and>
     (k_returned s \<longrightarrow> all_done s) \<and> (mpc s = M_end \<longrightarrow> k_returned s)"

definition duet_calls :: "duet \<Rightarrow> bool" where
  "duet_calls s \<longleftrightarrow> cum_law (''produce'', ''m'') (''consume'', ''q'') ''q'' 0 (dcalls s) \<and>
     field_total ''produce'' ''m'' (dcalls s) - field_total ''consume'' ''q'' (dcalls s) = of_nat (length (dq s))"

definition duet_inv :: "duet \<Rightarrow> bool" where
  "duet_inv s \<longleftrightarrow> duet_turns s \<and> duet_calls s"

lemma burst_size: "5 \<le> burst_sizes ! (k mod 5)"
proof -
  have "k mod 5 < 5" by simp
  then have "k mod 5 \<in> {0, 1, 2, 3, 4}" by auto
  then show ?thesis by (auto simp: burst_sizes_def)
qed

lemma produce_burst_calls:
  assumes "duet_calls s"
  shows "duet_calls (produce_burst s)"
proof -
  let ?m = "burst_sizes ! (mi s mod 5)"
  have "of_nat (length [0..?m - 1]) = (of_int ?m :: u64)" using burst_size [of "mi s"] by (simp add: of_nat_nat)
  then show ?thesis using assms by (simp add: duet_calls_def produce_burst_def Let_def algebra_simps)
qed

lemma produce_burst_rest:
  "round_ready (produce_burst s) = round_ready s" "all_drained (produce_burst s) = all_drained s"
  "all_done (produce_burst s) = all_done s" "mpc (produce_burst s) = mpc s" "rnd_no (produce_burst s) = rnd_no s"
  "m_asleep (produce_burst s) = m_asleep s" "k_asleep (produce_burst s) = k_asleep s" "k_returned (produce_burst s) = k_returned s"
  by (simp_all add: produce_burst_def Let_def)

lemma bursts_rest [simp]:
  "round_ready ((produce_burst ^^ n) s) = round_ready s" "all_drained ((produce_burst ^^ n) s) = all_drained s"
  "all_done ((produce_burst ^^ n) s) = all_done s" "mpc ((produce_burst ^^ n) s) = mpc s" "rnd_no ((produce_burst ^^ n) s) = rnd_no s"
  "m_asleep ((produce_burst ^^ n) s) = m_asleep s" "k_asleep ((produce_burst ^^ n) s) = k_asleep s"
  "k_returned ((produce_burst ^^ n) s) = k_returned s"
  by (induction n) (simp_all add: produce_burst_rest)

lemma bursts_calls: "duet_calls s \<Longrightarrow> duet_calls ((produce_burst ^^ n) s)"
  by (induction n) (simp_all add: produce_burst_calls)

lemma duet_calls_cong: "dcalls s' = dcalls s \<Longrightarrow> dq s' = dq s \<Longrightarrow> duet_calls s' = duet_calls s"
  by (simp add: duet_calls_def)

lemma main_step_inv:
  assumes "duet_inv s" and "main_step R s = Some s'"
  shows "duet_inv s'"
proof -
  have "duet_turns s'"
    using assms by (cases "mpc s") (auto simp: duet_inv_def duet_turns_def main_step_def notify_all_def Let_def split: if_splits)
  moreover have "duet_calls s'"
  proof (cases "mpc s = M_rounds \<and> \<not> m_asleep s \<and> all_drained s \<and> rnd_no s < R")
    case True
    let ?s = "(produce_burst ^^ (round_bursts ! nat (rnd_no s smod 4))) (s\<lparr>all_drained := False\<rparr>)"
    have "duet_calls (s\<lparr>all_drained := False\<rparr>)" using assms(1) by (simp add: duet_inv_def duet_calls_def)
    then have "duet_calls ?s" by (rule bursts_calls)
    moreover have "dcalls s' = dcalls ?s" "dq s' = dq ?s" using True assms(2) by (auto simp: main_step_def notify_all_def Let_def)
    ultimately show ?thesis using duet_calls_cong [of s' ?s] by simp
  next
    case False
    then have "dcalls s' = dcalls s \<and> dq s' = dq s" using assms(2)
      by (cases "mpc s") (auto simp: main_step_def notify_all_def split: if_splits)
    then show ?thesis using assms(1) duet_calls_cong [of s' s] by (simp add: duet_inv_def)
  qed
  ultimately show ?thesis by (simp add: duet_inv_def)
qed

lemma consumer_step_inv:
  assumes "duet_inv s" and "consumer_step s = Some s'"
  shows "duet_inv s'"
  using assms(2)
proof (cases rule: consumer_step_cases)
  case sleeps
  then show ?thesis using assms(1) by (auto simp: duet_inv_def duet_turns_def duet_calls_def)
next
  case returns
  then show ?thesis using assms(1) by (auto simp: duet_inv_def duet_turns_def duet_calls_def)
next
  case consumes
  then have "duet_turns s'" using assms(1) by (simp add: duet_inv_def duet_turns_def notify_all_def)
  moreover have "duet_calls s'" using assms(1) consumes(4) by (simp add: duet_inv_def duet_calls_def notify_all_def algebra_simps)
  ultimately show ?thesis by (simp add: duet_inv_def)
qed

lemma duet_reachable_inv: "duet_reachable R s \<Longrightarrow> duet_inv s"
proof (induction rule: duet_reachable.induct)
  case first
  show ?case by (simp add: start_duet_def duet_inv_def duet_turns_def duet_calls_def)
next
  case (next_step s s')
  then show ?case by (auto elim!: duet_stepE intro: main_step_inv consumer_step_inv)
qed (auto simp: duet_inv_def duet_turns_def duet_calls_def)

lemma duet_rounds: "duet_reachable R s \<Longrightarrow> rnd_no s \<le> max 0 R \<and> (all_done s \<longrightarrow> R \<le> rnd_no s)"
proof (induction rule: duet_reachable.induct)
  case first
  show ?case by (simp add: start_duet_def)
next
  case (next_step s s')
  from next_step(2) show ?case
  proof cases
    case main_moves
    then show ?thesis using next_step(3)
      by (cases "mpc s") (auto simp: main_step_def notify_all_def Let_def split: if_splits)
  next
    case consumer_moves
    then show ?thesis using next_step(3) by (cases rule: consumer_step_cases) (auto simp: notify_all_def)
  qed
qed simp_all

subsection \<open>The threads end\<close>

definition main_rank :: "main_pc \<Rightarrow> nat" where
  "main_rank p = (case p of M_rounds \<Rightarrow> 3 | M_notify \<Rightarrow> 2 | M_join \<Rightarrow> 1 | M_end \<Rightarrow> 0)"

definition duet_order :: "int \<Rightarrow> (duet \<times> duet) set" where
  "duet_order R = inv_image (less_than <*lex*> less_than <*lex*> less_than)
     (\<lambda>s. (nat (R - rnd_no s), main_rank (mpc s),
       (if k_returned s then 0 else 8) + (if round_ready s then 4 else 0) +
       (if m_asleep s then 0 else 1) + (if k_asleep s then 0 else 1 :: nat)))"

lemma wf_duet_order: "wf (duet_order R)"
  by (auto simp: duet_order_def)

lemma duet_step_order:
  assumes "duet_step R s s'" and "duet_inv s"
  shows "(s', s) \<in> duet_order R"
  using assms(1)
proof cases
  case main_moves
  then show ?thesis
    by (cases "mpc s") (auto simp: duet_order_def main_rank_def main_step_def notify_all_def Let_def split: if_splits)
next
  case consumer_moves
  then show ?thesis
    by (cases rule: consumer_step_cases) (simp_all add: duet_order_def notify_all_def)
qed

lemma duet_no_endless_run:
  assumes "duet_reachable R s"
  shows "\<nexists>f. f 0 = s \<and> (\<forall>n. duet_step R (f n) (f (Suc n)))"
proof (rule notI, elim exE conjE)
  fix f assume f: "f 0 = s" "\<forall>n. duet_step R (f n) (f (Suc n))"
  have "duet_reachable R (f n)" for n by (induction n) (use assms f in \<open>auto intro: next_step\<close>)
  then have "(f (Suc n), f n) \<in> duet_order R" for n using f(2) by (blast intro: duet_step_order duet_reachable_inv)
  with wf_duet_order [of R] show False unfolding wf_iff_no_infinite_down_chain by blast
qed

lemma duet_not_stuck:
  assumes "duet_inv s" and "main_step R s = None" and "consumer_step s = None"
  shows "mpc s = M_end \<and> k_returned s \<and> dq s = []"
  using assms by (cases "mpc s") (auto simp: duet_inv_def duet_turns_def main_step_def consumer_step_def split: if_splits)

text \<open>Items are at least 3, so every \<open>loop3\<close> ends where its counter does, and the value of the sink is
  seven times what was pushed.\<close>

lemma consume_all_value: "consume_all xs = 7 * of_int (sum_list xs)"
proof -
  have "fold (\<lambda>x acc. acc + fst (the (loop3 x))) xs a = a + 7 * of_int (sum_list xs)" for a
    by (induction xs arbitrary: a) (simp_all add: loop3_runs algebra_simps)
  then show ?thesis by (simp add: consume_all_def)
qed

end
