(* ===== verification/Handoff.thy ===== *)
theory Handoff
  imports Relations "HOL-Library.Signed_Division"
begin

text \<open>
  The producer and consumer of \<open>examples/c_suite/c6_queue.c\<close> and the helpers of \<open>suite.h\<close> that they
  use. The producer thread and \<open>main\<close> hand each other the turn with a mutex and two condition
  variables. Everything that happens under the mutex between two waits is one step; outside it
  every statement that touches shared state is one. A thread waiting on a condition variable
  sleeps until it is signalled, or wakes up for no reason, and then looks again. A \<open>long\<close> is an
  \<open>int\<close>; the number of rounds is the parameter \<open>R\<close>.
\<close>

datatype p_pc = P_top | P_burst | P_begin | P_push | P_end | P_signal | P_wait | P_finish | P_exit

datatype c_pc = C_top | C_wait | C_read | C_begin | C_items | C_end | C_signal | C_join | C_exit

record handoff =
  ring :: "nat \<Rightarrow> int"
  head :: int
  tail :: int
  ready :: bool
  drained :: bool
  finished :: bool              \<comment> \<open>\<open>done\<close>\<close>
  sink :: u64
  ppc :: p_pc
  round_no :: int               \<comment> \<open>\<open>k\<close>\<close>
  burst :: int
  burst_no :: int               \<comment> \<open>\<open>b\<close>\<close>
  p_asleep :: bool
  cpc :: c_pc
  found :: int                  \<comment> \<open>\<open>q\<close>\<close>
  item_no :: int                \<comment> \<open>\<open>i\<close>\<close>
  c_asleep :: bool
  calls :: calls                \<comment> \<open>the marker calls, of thread 0 (\<open>main\<close>) and 1\<close>

text \<open>\<open>DEFINE_LOOP\<close> with \<open>add\<close>.\<close>

definition per_item :: "int \<Rightarrow> u64" where
  "per_item n = fold (\<lambda>i acc. acc + of_int i) [0..n - 1] 0"

definition ring_index :: "int \<Rightarrow> nat" where
  "ring_index t = nat (t AND 0xFFFF)"

fun push_items :: "nat \<Rightarrow> int \<Rightarrow> handoff \<Rightarrow> handoff" where
  "push_items 0 i s = s"
| "push_items (Suc n) i s = push_items n (i + 1) (s\<lparr>ring := (ring s)(ring_index (tail s) := i), tail := tail s + 1\<rparr>)"

definition take_item :: "handoff \<Rightarrow> handoff" where
  "take_item s = s\<lparr>sink := sink s + per_item 8 + of_int (ring s (ring_index (head s))), head := head s + 1, item_no := item_no s + 1\<rparr>"

definition mark_call :: "nat \<Rightarrow> mark \<Rightarrow> handoff \<Rightarrow> handoff" where
  "mark_call t m s = s\<lparr>calls := calls s @ [(t, m)]\<rparr>"

text \<open>The number of items that round \<open>k\<close> produces.\<close>

definition amount :: "int \<Rightarrow> int" where
  "amount k = 5 + 20 * (k smod 4)"

text \<open>The steps of \<open>produce\<close> and of \<open>consume\<close>.\<close>

definition produce_step :: "handoff \<Rightarrow> handoff" where
  "produce_step s = (case ppc s of
     P_begin \<Rightarrow> mark_call 1 (Mark_begin ''produce'' ''m'' (of_int (amount (round_no s)))) (s\<lparr>ppc := P_push\<rparr>)
   | P_push \<Rightarrow> push_items (nat (amount (round_no s))) 0 (s\<lparr>ppc := P_end\<rparr>)
   | P_end \<Rightarrow> mark_call 1 (Mark_end ''produce'') (s\<lparr>ppc := P_burst\<rparr>)
   | _ \<Rightarrow> s)"

definition consume_step :: "handoff \<Rightarrow> handoff" where
  "consume_step s = (case cpc s of
     C_read \<Rightarrow> s\<lparr>found := tail s - head s, cpc := C_begin\<rparr>
   | C_begin \<Rightarrow> mark_call 0 (Mark_begin ''consume'' ''q'' (of_int (found s))) (s\<lparr>item_no := 0, cpc := C_items\<rparr>)
   | C_items \<Rightarrow> if item_no s < found s then take_item s else s\<lparr>cpc := C_end\<rparr>
   | C_end \<Rightarrow> mark_call 0 (Mark_end ''consume'') (s\<lparr>cpc := C_signal\<rparr>)
   | _ \<Rightarrow> s)"

text \<open>\<open>pthread_cond_signal\<close> wakes the other thread when it is waiting there.\<close>

definition wake_consumer :: "handoff \<Rightarrow> handoff" where
  "wake_consumer s = (if cpc s = C_wait then s\<lparr>c_asleep := False\<rparr> else s)"

definition wake_producer :: "handoff \<Rightarrow> handoff" where
  "wake_producer s = (if ppc s = P_wait then s\<lparr>p_asleep := False\<rparr> else s)"

text \<open>The loop \<open>while (!drained) pthread_cond_wait(..)\<close> at its test, and what follows it.\<close>

definition await_drained :: "handoff \<Rightarrow> handoff" where
  "await_drained s = (if drained s then s\<lparr>drained := False, ppc := P_top\<rparr> else s\<lparr>ppc := P_wait, p_asleep := True\<rparr>)"

text \<open>The next step of \<open>producer\<close>; \<open>None\<close> when it sleeps or has returned.\<close>

definition producer :: "int \<Rightarrow> handoff \<Rightarrow> handoff option" where
  "producer R s = (case ppc s of
     P_top \<Rightarrow> Some (if round_no s < R then s\<lparr>burst := 1 + round_no s smod 3, burst_no := 0, ppc := P_burst\<rparr>
       else s\<lparr>ppc := P_finish\<rparr>)
   | P_burst \<Rightarrow> Some (if burst_no s < burst s \<and> round_no s < R then s\<lparr>ppc := P_begin\<rparr> else s\<lparr>ppc := P_signal\<rparr>)
   | P_begin \<Rightarrow> Some (produce_step s)
   | P_push \<Rightarrow> Some (produce_step s)
   | P_end \<Rightarrow> Some ((produce_step s)\<lparr>burst_no := burst_no s + 1, round_no := round_no s + 1\<rparr>)
   | P_signal \<Rightarrow> Some (await_drained (wake_consumer (s\<lparr>ready := True\<rparr>)))
   | P_wait \<Rightarrow> if p_asleep s then None else Some (await_drained s)
   | P_finish \<Rightarrow> Some (wake_consumer (s\<lparr>finished := True, ready := True, ppc := P_exit\<rparr>))
   | P_exit \<Rightarrow> None)"

definition await_ready :: "handoff \<Rightarrow> handoff" where
  "await_ready s =
     (if \<not> ready s then s\<lparr>cpc := C_wait, c_asleep := True\<rparr>
      else if finished s \<and> tail s = head s then s\<lparr>ready := False, cpc := C_join\<rparr>
      else s\<lparr>ready := False, cpc := C_read\<rparr>)"

text \<open>The next step of \<open>main\<close>; it waits for the producer to return before it ends.\<close>

definition consumer :: "handoff \<Rightarrow> handoff option" where
  "consumer s = (case cpc s of
     C_top \<Rightarrow> Some (await_ready s)
   | C_wait \<Rightarrow> if c_asleep s then None else Some (await_ready s)
   | C_read \<Rightarrow> Some (consume_step s)
   | C_begin \<Rightarrow> Some (consume_step s)
   | C_items \<Rightarrow> Some (consume_step s)
   | C_end \<Rightarrow> Some (consume_step s)
   | C_signal \<Rightarrow> Some (wake_producer (s\<lparr>drained := True, cpc := C_top\<rparr>))
   | C_join \<Rightarrow> if ppc s = P_exit then Some (s\<lparr>cpc := C_exit\<rparr>) else None
   | C_exit \<Rightarrow> None)"

definition start_handoff :: handoff where
  "start_handoff = \<lparr>ring = (\<lambda>_. 0), head = 0, tail = 0, ready = False, drained = False, finished = False, sink = 0,
     ppc = P_top, round_no = 0, burst = 0, burst_no = 0, p_asleep = False,
     cpc = C_top, found = 0, item_no = 0, c_asleep = False, calls = []\<rparr>"

text \<open>A step of one of the threads.\<close>

inductive own_step :: "int \<Rightarrow> handoff \<Rightarrow> handoff \<Rightarrow> bool" for R :: int where
  produces: "producer R s = Some s' \<Longrightarrow> own_step R s s'"
| consumes: "consumer s = Some s' \<Longrightarrow> own_step R s s'"

text \<open>The states that can come up, spurious wake-ups included.\<close>

inductive reachable :: "int \<Rightarrow> handoff \<Rightarrow> bool" for R :: int where
  begins: "reachable R start_handoff"
| steps: "reachable R s \<Longrightarrow> own_step R s s' \<Longrightarrow> reachable R s'"
| wakes_producer: "reachable R s \<Longrightarrow> ppc s = P_wait \<Longrightarrow> reachable R (s\<lparr>p_asleep := False\<rparr>)"
| wakes_consumer: "reachable R s \<Longrightarrow> cpc s = C_wait \<Longrightarrow> reachable R (s\<lparr>c_asleep := False\<rparr>)"

inductive_cases own_stepE: "own_step R s s'"

subsection \<open>The invariant\<close>

definition waiting_ready :: "handoff \<Rightarrow> bool" where
  "waiting_ready s \<longleftrightarrow> cpc s \<in> {C_top, C_wait}"

definition consuming :: "handoff \<Rightarrow> bool" where
  "consuming s \<longleftrightarrow> cpc s \<in> {C_read, C_begin, C_items, C_end, C_signal}"

definition producing :: "handoff \<Rightarrow> bool" where
  "producing s \<longleftrightarrow> ppc s \<in> {P_burst, P_begin, P_push, P_end, P_signal}"

text \<open>Whose turn it is, and that nobody sleeps who has been given it.\<close>

definition turn_ok :: "handoff \<Rightarrow> bool" where
  "turn_ok s \<longleftrightarrow>
     (if ppc s = P_exit
      then finished s \<and> \<not> drained s \<and> (waiting_ready s \<and> ready s \<and> (cpc s = C_wait \<longrightarrow> \<not> c_asleep s) \<or> cpc s \<in> {C_join, C_exit})
      else if ppc s = P_wait
      then \<not> finished s \<and>
        (waiting_ready s \<and> ready s \<and> \<not> drained s \<and> (cpc s = C_wait \<longrightarrow> \<not> c_asleep s) \<or>
         consuming s \<and> \<not> ready s \<and> \<not> drained s \<or>
         waiting_ready s \<and> \<not> ready s \<and> drained s \<and> \<not> p_asleep s)
      else waiting_ready s \<and> \<not> ready s \<and> \<not> drained s \<and> \<not> finished s)"

definition made :: "int \<Rightarrow> int" where
  "made k = (\<Sum>j\<leftarrow>[0..k - 1]. amount j)"

definition items_ok :: "int \<Rightarrow> handoff \<Rightarrow> bool" where
  "items_ok R s \<longleftrightarrow> 0 \<le> round_no s \<and> (round_no s \<le> R \<or> round_no s = 0) \<and> 0 \<le> head s \<and> head s \<le> tail s \<and>
     tail s = made (round_no s) + (if ppc s = P_end then amount (round_no s) else 0) \<and>
     (ppc s \<in> {P_begin, P_push, P_end} \<longrightarrow> round_no s < R) \<and>
     (ppc s \<in> {P_finish, P_exit} \<longrightarrow> R \<le> round_no s) \<and>
     (ppc s \<in> {P_top, P_finish, P_exit} \<or> cpc s \<in> {C_end, C_signal} \<or> drained s \<longrightarrow> head s = tail s) \<and>
     (cpc s = C_begin \<longrightarrow> found s = tail s - head s) \<and>
     (cpc s = C_items \<longrightarrow> 0 \<le> item_no s \<and> item_no s \<le> found s \<and> found s - item_no s = tail s - head s)"

definition relation :: "i64 \<Rightarrow> calls \<Rightarrow> bool" where
  "relation n ms \<longleftrightarrow> cum_law (''produce'', ''m'') (''consume'', ''q'') ''q'' n ms"

definition calls_ok :: "handoff \<Rightarrow> bool" where
  "calls_ok s \<longleftrightarrow> relation 0 (calls s) \<and>
     field_total ''produce'' ''m'' (calls s) = of_int (tail s + (if ppc s = P_push then amount (round_no s) else 0)) \<and>
     field_total ''consume'' ''q'' (calls s) = of_int (head s + (if cpc s = C_items then found s - item_no s else 0))"

definition handoff_inv :: "int \<Rightarrow> handoff \<Rightarrow> bool" where
  "handoff_inv R s \<longleftrightarrow> turn_ok s \<and> items_ok R s \<and> calls_ok s"

lemma push_items_simps [simp]:
  "tail (push_items n i s) = tail s + int n" "head (push_items n i s) = head s" "ready (push_items n i s) = ready s"
  "drained (push_items n i s) = drained s" "finished (push_items n i s) = finished s" "ppc (push_items n i s) = ppc s"
  "round_no (push_items n i s) = round_no s" "burst (push_items n i s) = burst s" "burst_no (push_items n i s) = burst_no s"
  "p_asleep (push_items n i s) = p_asleep s" "cpc (push_items n i s) = cpc s" "found (push_items n i s) = found s"
  "item_no (push_items n i s) = item_no s" "c_asleep (push_items n i s) = c_asleep s" "calls (push_items n i s) = calls s"
  by (induction n i s rule: push_items.induct) simp_all

lemma amount_range: "0 \<le> k \<Longrightarrow> 5 \<le> amount k"
  by (auto simp: amount_def signed_modulo_int_def sgn_if)

lemma burst_range: "0 \<le> k \<Longrightarrow> 1 \<le> 1 + k smod 3" for k :: int
  by (auto simp: signed_modulo_int_def sgn_if)

lemma made_next: "0 \<le> k \<Longrightarrow> made (k + 1) = made k + amount k"
  by (simp add: made_def upto_rec2)

lemmas step_defs = producer_def consumer_def await_drained_def await_ready_def wake_consumer_def wake_producer_def
  mark_call_def take_item_def produce_step_def consume_step_def

lemma producer_turn: "turn_ok s \<Longrightarrow> producer R s = Some s' \<Longrightarrow> turn_ok s'"
  by (cases "ppc s"; cases "cpc s"; clarsimp simp: turn_ok_def waiting_ready_def consuming_def step_defs split: if_splits)

lemma consumer_turn: "turn_ok s \<Longrightarrow> (ppc s = P_exit \<Longrightarrow> head s = tail s) \<Longrightarrow> consumer s = Some s' \<Longrightarrow> turn_ok s'"
  by (cases "cpc s"; cases "ppc s"; clarsimp simp: turn_ok_def waiting_ready_def consuming_def step_defs split: if_splits)

text \<open>What the turn says when one thread moves.\<close>

lemma turn_producer:
  assumes "turn_ok s" and "ppc s \<noteq> P_wait" and "ppc s \<noteq> P_exit"
  shows "cpc s = C_top \<or> cpc s = C_wait" "\<not> ready s" "\<not> drained s" "\<not> finished s"
  using assms by (simp_all add: turn_ok_def waiting_ready_def)

lemma turn_consumer:
  assumes "turn_ok s" and "cpc s \<noteq> C_top" and "cpc s \<noteq> C_wait" and "cpc s \<noteq> C_join" and "cpc s \<noteq> C_exit"
  shows "ppc s = P_wait" "\<not> ready s" "\<not> drained s" "\<not> finished s"
  using assms by (auto simp: turn_ok_def waiting_ready_def split: if_splits)

lemma producer_items:
  assumes "turn_ok s" and "items_ok R s" and "producer R s = Some s'"
  shows "items_ok R s'"
proof (cases "ppc s")
  case P_push
  then show ?thesis using assms(2,3) turn_producer [OF assms(1)] amount_range [of "round_no s"]
    by (clarsimp simp: items_ok_def step_defs) auto
next
  case P_end
  then show ?thesis using assms(2,3) made_next [of "round_no s"]
    by (clarsimp simp: items_ok_def step_defs)
next
  case P_signal
  then show ?thesis using assms(2,3) turn_producer(3) [OF assms(1)]
    by (clarsimp simp: items_ok_def step_defs split: if_splits)
next
  case P_wait
  then show ?thesis using assms(2,3)
    by (clarsimp simp: items_ok_def step_defs split: if_splits)
next
  case P_finish
  then show ?thesis using assms(2,3)
    by (clarsimp simp: items_ok_def step_defs split: if_splits)
qed (use assms(2,3) in \<open>clarsimp simp: items_ok_def step_defs split: if_splits\<close>)+

lemma consumer_items:
  assumes "turn_ok s" and "items_ok R s" and "consumer s = Some s'"
  shows "items_ok R s'"
proof (cases "cpc s")
  case C_items
  then show ?thesis using assms(2,3) turn_consumer [OF assms(1)]
    by (clarsimp simp: items_ok_def step_defs split: if_splits)
qed (use assms(2,3) in \<open>clarsimp simp: items_ok_def step_defs split: if_splits\<close>)+

lemma producer_calls:
  assumes "turn_ok s" and "items_ok R s" and "calls_ok s" and "producer R s = Some s'"
  shows "calls_ok s'"
proof (cases "ppc s")
  case P_push
  have "0 \<le> amount (round_no s)" using amount_range [of "round_no s"] assms(2) by (clarsimp simp: items_ok_def)
  then show ?thesis using P_push assms(3,4) by (clarsimp simp: calls_ok_def relation_def step_defs)
next
  case P_begin
  then show ?thesis using assms(3,4) by (clarsimp simp: calls_ok_def relation_def step_defs algebra_simps)
qed (use assms(3,4) in \<open>clarsimp simp: calls_ok_def relation_def step_defs split: if_splits\<close>)+

lemma consumer_calls:
  assumes "turn_ok s" and "items_ok R s" and "calls_ok s" and "consumer s = Some s'"
  shows "calls_ok s'"
proof (cases "cpc s")
  case C_begin
  then show ?thesis using assms(2-4) turn_consumer(1) [OF assms(1)]
    by (clarsimp simp: items_ok_def calls_ok_def relation_def step_defs)
next
  case C_items
  have n: "0 \<le> item_no s" "item_no s \<le> found s" using C_items assms(2) by (simp_all add: items_ok_def)
  have c: "relation 0 (calls s)" "field_total ''produce'' ''m'' (calls s) = of_int (tail s)"
    "field_total ''consume'' ''q'' (calls s) = of_int (head s + (found s - item_no s))"
    using C_items assms(3) turn_consumer(1) [OF assms(1)] by (simp_all add: calls_ok_def)
  have s': "s' = (if item_no s < found s then take_item s else s\<lparr>cpc := C_end\<rparr>)"
    using C_items assms(4) by (simp add: consumer_def consume_step_def)
  show ?thesis
    using C_items c n turn_consumer(1) [OF assms(1)] by (simp add: s' calls_ok_def take_item_def)
qed (use assms(3,4) in \<open>clarsimp simp: calls_ok_def relation_def step_defs split: if_splits\<close>)+

lemma own_step_inv: "own_step R s s' \<Longrightarrow> handoff_inv R s \<Longrightarrow> handoff_inv R s'"
proof (induction rule: own_step.induct)
  case (produces s s')
  then show ?case using producer_turn producer_items producer_calls unfolding handoff_inv_def by blast
next
  case (consumes s s')
  moreover have "ppc s = P_exit \<Longrightarrow> head s = tail s" using consumes by (simp add: handoff_inv_def items_ok_def)
  ultimately show ?case using consumer_turn consumer_items consumer_calls unfolding handoff_inv_def by blast
qed

lemma wake_inv:
  "handoff_inv R s \<Longrightarrow> handoff_inv R (s\<lparr>p_asleep := False\<rparr>)" "handoff_inv R s \<Longrightarrow> handoff_inv R (s\<lparr>c_asleep := False\<rparr>)"
proof -
  assume inv: "handoff_inv R s"
  have "turn_ok (s\<lparr>p_asleep := False\<rparr>)" "turn_ok (s\<lparr>c_asleep := False\<rparr>)"
    using inv by (auto simp: handoff_inv_def turn_ok_def waiting_ready_def consuming_def)
  then show "handoff_inv R (s\<lparr>p_asleep := False\<rparr>)" "handoff_inv R (s\<lparr>c_asleep := False\<rparr>)"
    using inv by (simp_all add: handoff_inv_def items_ok_def calls_ok_def)
qed

lemma reachable_inv: "reachable R s \<Longrightarrow> handoff_inv R s"
proof (induction rule: reachable.induct)
  case begins
  show ?case by (simp add: start_handoff_def handoff_inv_def turn_ok_def items_ok_def calls_ok_def relation_def waiting_ready_def made_def)
qed (blast intro: own_step_inv wake_inv)+

subsection \<open>The threads end\<close>

definition p_rank :: "int \<Rightarrow> handoff \<Rightarrow> nat" where
  "p_rank R s = (case ppc s of P_exit \<Rightarrow> 0 | P_end \<Rightarrow> 1 | P_push \<Rightarrow> 2 | P_begin \<Rightarrow> 3 | P_finish \<Rightarrow> 4
     | P_burst \<Rightarrow> if burst_no s < burst s \<and> round_no s < R then 5 else 9
     | P_top \<Rightarrow> 6 | P_wait \<Rightarrow> 7 | P_signal \<Rightarrow> 8)"

definition c_rank :: "handoff \<Rightarrow> nat" where
  "c_rank s = (case cpc s of C_exit \<Rightarrow> 0 | C_join \<Rightarrow> 3 | C_signal \<Rightarrow> 4 | C_end \<Rightarrow> 5 | C_items \<Rightarrow> 6 | C_begin \<Rightarrow> 7 | C_read \<Rightarrow> 8
     | C_top \<Rightarrow> if ready s then 9 else 2
     | C_wait \<Rightarrow> if ready s then 9 else if c_asleep s then 1 else 2)"

text \<open>Rounds to come, where the producer is, where the consumer is, items to take, and whether the
  producer will look again.\<close>

definition progress :: "int \<Rightarrow> (handoff \<times> handoff) set" where
  "progress R = inv_image (less_than <*lex*> less_than <*lex*> less_than <*lex*> less_than <*lex*> less_than)
     (\<lambda>s. (nat (R - round_no s), p_rank R s, c_rank s, if cpc s = C_items then nat (found s - item_no s) else 0,
       if p_asleep s then 0 else Suc 0))"

lemma wf_progress: "wf (progress R)"
  by (auto simp: progress_def)

lemma producer_progress:
  assumes "handoff_inv R s" and "producer R s = Some s'"
  shows "(s', s) \<in> progress R"
proof (cases "ppc s")
  case P_top
  have "0 \<le> round_no s" using assms(1) by (simp add: handoff_inv_def items_ok_def)
  from burst_range [OF this] show ?thesis using P_top assms(2)
    by (clarsimp simp: progress_def p_rank_def step_defs split: if_splits)
next
  case P_push
  then have "round_no s' = round_no s" "p_rank R s' < p_rank R s" using assms(2) by (auto simp: p_rank_def step_defs)
  then show ?thesis by (simp add: progress_def)
next
  case P_end
  then show ?thesis using assms
    by (clarsimp simp: handoff_inv_def items_ok_def progress_def step_defs)
next
  case P_wait
  then show ?thesis using assms(2)
    by (clarsimp simp: progress_def p_rank_def c_rank_def step_defs split: if_splits)
qed (use assms(2) in \<open>clarsimp simp: progress_def p_rank_def step_defs split: if_splits\<close>)+

lemma consumer_progress:
  assumes "handoff_inv R s" and "consumer s = Some s'"
  shows "(s', s) \<in> progress R"
proof (cases "cpc s")
  case C_signal
  have "\<not> ready s" using turn_consumer(2) [of s] assms(1) C_signal by (simp add: handoff_inv_def)
  then show ?thesis using C_signal assms(2)
    by (clarsimp simp: progress_def p_rank_def c_rank_def step_defs split: if_splits)
qed (use assms(2) in \<open>clarsimp simp: progress_def p_rank_def c_rank_def step_defs split: if_splits\<close>)+

lemma own_step_progress: "handoff_inv R s \<Longrightarrow> own_step R s s' \<Longrightarrow> (s', s) \<in> progress R"
  by (erule own_stepE) (simp_all add: producer_progress consumer_progress)

definition final :: "handoff \<Rightarrow> bool" where
  "final s \<longleftrightarrow> ppc s = P_exit \<and> cpc s = C_exit"

lemma not_stuck:
  assumes "handoff_inv R s" and "producer R s = None" and "consumer s = None"
  shows "final s"
proof -
  have "turn_ok s" using assms(1) by (simp add: handoff_inv_def)
  moreover have "ppc s = P_wait \<and> p_asleep s \<or> ppc s = P_exit" using assms(2) by (auto simp: producer_def split: p_pc.splits if_splits)
  moreover have "cpc s = C_wait \<and> c_asleep s \<or> cpc s = C_join \<and> ppc s \<noteq> P_exit \<or> cpc s = C_exit"
    using assms(3) by (auto simp: consumer_def split: c_pc.splits if_splits)
  ultimately show ?thesis by (auto simp: turn_ok_def waiting_ready_def consuming_def final_def split: if_splits)
qed

lemma final_all: "handoff_inv R s \<Longrightarrow> final s \<Longrightarrow> head s = made (max 0 R) \<and> tail s = made (max 0 R)"
  by (auto simp: handoff_inv_def items_ok_def final_def max_def)

lemma no_endless_run:
  assumes "reachable R s"
  shows "\<nexists>f. f 0 = s \<and> (\<forall>n. own_step R (f n) (f (Suc n)))"
proof (rule notI, elim exE conjE)
  fix f assume f: "f 0 = s" "\<forall>n. own_step R (f n) (f (Suc n))"
  have "reachable R (f n)" for n by (induction n) (use assms f in \<open>auto intro: steps\<close>)
  then have "(f (Suc n), f n) \<in> progress R" for n using f(2) by (blast intro: own_step_progress reachable_inv)
  with wf_progress [of R] show False unfolding wf_iff_no_infinite_down_chain by blast
qed

subsection \<open>Running\<close>

text \<open>The threads move in the given order, \<open>True\<close> for the producer.\<close>

fun run_threads :: "int \<Rightarrow> bool list \<Rightarrow> handoff \<Rightarrow> handoff option" where
  "run_threads R [] s = Some s"
| "run_threads R (p # ps) s = (if p then producer R s else consumer s) \<bind> run_threads R ps"

lemma run_threads_reachable: "reachable R s \<Longrightarrow> run_threads R ps s = Some s' \<Longrightarrow> reachable R s'"
proof (induction ps arbitrary: s)
  case (Cons p ps)
  then obtain s1 where s1: "(if p then producer R s else consumer s) = Some s1" "run_threads R ps s1 = Some s'"
    by (cases "if p then producer R s else consumer s") auto
  then have "own_step R s s1" by (cases p) (auto intro: own_step.intros)
  then show ?case using Cons.IH [OF _ s1(2)] Cons.prems(1) by (blast intro: steps)
qed simp

end
