(* ===== verification/WorkloadNests.thy ===== *)
theory WorkloadNests
  imports WorkloadRuns CppQueue Handoff
begin

text \<open>
  All workloads of the suites and of \<open>tests\<close>, with the orders in which their threads can take turns,
  and that their marker calls are balanced on every thread; of \<open>ctest\<close> the one end that is not.
\<close>

subsection \<open>One thread\<close>

lemmas work_defs = work_a_def work_b_def quad_def work_lin_def c4_work_n_def c4_work_m_def small_path_def big_path_def fix_path_def
  extra3_def c7_work_def lin_work_def cap_work_def c9_work_n_def c9_work_m_def c9_work_prod_def stos_def movs_def
  ctest_loop_work_def L3_def L5_def LC_def in_asm_def taken_def filled_def virtual_calls_def template_calls_def dot_def

lemma c1_balanced: "balanced (calls1 (fst (c1_main as)))"
proof -
  have "balanced (calls1 (c1_round n))" for n by (simp add: c1_round_def work_defs balance_simps)
  then have "balanced (calls1 (concat (map (\<lambda>m. c1_round (n * m)) ms)))" for n ms
    unfolding calls1_concat by (intro balanced_concat) (simp add: list_all_iff)
  then show ?thesis by (simp add: c1_main_def Let_def work_defs)
qed

lemma suite_balanced:
  "balanced (calls1 (fst (c3_main as)))" "balanced (calls1 (fst (c5_main as)))" "balanced (calls1 (fst (c7_main HEAD as)))"
  "balanced (calls1 (fst (c8_main as)))"
  "balanced (calls1 (fst (cpp_c1_main as)))" "balanced (calls1 (fst (cpp_c3_main as)))" "balanced (calls1 (fst (cpp_c4_main as)))"
  "balanced (calls1 (fst (cpp_c5_main as)))" "balanced (calls1 (fst (cpp_c8_main HEAD as)))"
  by (simp_all add: c3_main_def c5_main_def c7_main_def c8_main_def cpp_c1_main_def cpp_c3_main_def cpp_c4_main_def
      cpp_c5_main_def cpp_c8_main_def upto_0_2 work_defs balance_simps)

lemma c9_balanced: "balanced (calls1 (fst (c9_main as)))"
  by (simp add: c9_main_def upto_0_2 work_defs balance_simps)

lemma partial_balanced:
  "c2_main as mem = Some p \<Longrightarrow> balanced (calls1 (fst p))" "c4_main as = Some p \<Longrightarrow> balanced (calls1 (fst p))"
  "cpp_c2_main as = Some p \<Longrightarrow> balanced (calls1 (fst p))" "cpp_c9_main as = Some p \<Longrightarrow> balanced (calls1 (fst p))"
  by (auto simp: c2_main_def c4_main_def cpp_c2_main_def cpp_c9_main_def work_defs balance_simps split: if_splits)

subsection \<open>The queues\<close>

definition as_items :: "calls \<Rightarrow> (nat \<times> item) list" where
  "as_items cs = map (\<lambda>(t, m). (t, Call m)) cs"

lemma as_items_simps [simp]:
  "as_items [] = []" "as_items ((t, m) # cs) = (t, Call m) # as_items cs" "as_items (a @ b) = as_items a @ as_items b"
  by (simp_all add: as_items_def)

lemma steady_pair: "item_said (Call m) = Some (True, r) \<Longrightarrow> item_said (Call m') = Some (False, r) \<Longrightarrow> steady [(t, Call m), (t, Call m')]"
  by (simp add: steady_def balance_simps)

lemma burst_steady: "steady (as_items (dcalls s)) \<Longrightarrow> steady (as_items (dcalls ((produce_burst ^^ k) s)))"
proof (induction k)
  case (Suc k)
  then show ?case
    by (simp add: produce_burst_def Let_def steady_append steady_pair)
qed simp

lemma duet_steady: "duet_reachable R s \<Longrightarrow> steady (as_items (dcalls s))"
proof (induction rule: duet_reachable.induct)
  case first
  then show ?case by (simp add: start_duet_def steady_def)
next
  case (next_step s s')
  from next_step.hyps(2) show ?case
  proof (cases rule: duet_step.cases)
    case main_moves
    then show ?thesis using next_step.IH burst_steady [of "s\<lparr>all_drained := False\<rparr>"]
      by (auto simp: main_step_def notify_all_def Let_def split: main_pc.splits if_splits)
  next
    case consumer_moves
    then show ?thesis using next_step.IH
      by (cases rule: consumer_step_cases) (simp_all add: notify_all_def steady_append steady_pair)
  qed
qed simp_all

text \<open>What each thread of the other queue has open.\<close>

definition handoff_open :: "handoff \<Rightarrow> nat \<Rightarrow> string list" where
  "handoff_open s i =
     (if i = 0 \<and> cpc s \<in> {C_items, C_end} then [''consume''] else if i = 1 \<and> ppc s \<in> {P_push, P_end} then [''produce''] else [])"

text \<open>A step makes at most one call, and its thread has open what the call leaves.\<close>

definition handoff_told :: "nat \<Rightarrow> handoff \<Rightarrow> handoff \<Rightarrow> bool" where
  "handoff_told i s s' \<longleftrightarrow> (\<forall>j. j \<noteq> i \<longrightarrow> handoff_open s' j = handoff_open s j) \<and>
     (calls s' = calls s \<and> handoff_open s' i = handoff_open s i \<or>
      (\<exists>m c. calls s' = calls s @ [(i, m)] \<and> item_said (Call m) = Some c \<and>
         own_call (handoff_open s i) c = Some (handoff_open s' i)))"

lemma push_items_keeps: "calls (push_items n k s) = calls s \<and> ppc (push_items n k s) = ppc s \<and> cpc (push_items n k s) = cpc s"
  by (induction n k s rule: push_items.induct) simp_all

lemmas told_defs = ex_bool_eq handoff_told_def handoff_open_def step_defs push_items_keeps own_call_def close_name_def region_name_def MAX_DEPTH_def

lemma producer_told: "producer R s = Some s' \<Longrightarrow> handoff_told 1 s s'"
  by (cases "ppc s"; clarsimp simp: told_defs split: if_splits)

lemma consumer_told: "consumer s = Some s' \<Longrightarrow> handoff_told 0 s s'"
  by (cases "cpc s"; clarsimp simp: told_defs split: if_splits)

definition handoff_calls :: "handoff \<Rightarrow> bool" where
  "handoff_calls s \<longleftrightarrow> (\<forall>i. run own_call [] (calls1 (of_thread i (as_items (calls s)))) = Some (handoff_open s i))"

lemma told_calls:
  assumes "handoff_told i s s'" and "handoff_calls s"
  shows "handoff_calls s'"
proof -
  have "run own_call [] (calls1 (of_thread j (as_items (calls s')))) = Some (handoff_open s' j)" for j
    using assms by (cases "j = i") (auto simp: handoff_told_def handoff_calls_def run_append)
  then show ?thesis by (simp add: handoff_calls_def)
qed

lemma handoff_nested: "reachable R s \<Longrightarrow> handoff_calls s"
proof (induction rule: reachable.induct)
  case begins
  then show ?case by (simp add: start_handoff_def handoff_calls_def handoff_open_def)
next
  case (steps s s')
  from steps.hyps(2) show ?case
    using steps.IH producer_told consumer_told told_calls by (cases rule: Handoff.own_step.cases) blast+
qed (simp_all add: handoff_calls_def handoff_open_def)

lemma handoff_steady: "reachable R s \<Longrightarrow> ppc s = P_exit \<Longrightarrow> cpc s = C_exit \<Longrightarrow> steady (as_items (calls s))"
  using handoff_nested [of R s] by (simp add: handoff_calls_def handoff_open_def steady_def balanced_def)

subsection \<open>All of them\<close>

text \<open>\<open>c6_openmp.cpp\<close> with any team and any shares; the two queues when all their threads have returned.\<close>

inductive workload :: "(nat \<times> item) list \<Rightarrow> bool" where
  one: "is \<in> {fst (c1_main as), fst (c3_main as), fst (c5_main as), fst (c7_main HEAD as), fst (c8_main as), fst (c9_main as),
      fst (cpp_c1_main as), fst (cpp_c3_main as), fst (cpp_c4_main as), fst (cpp_c5_main as), fst (cpp_c8_main HEAD as)} \<Longrightarrow>
    workload (map (Pair 0) is)"
| some: "Some p \<in> {c2_main as mem, c4_main as, cpp_c2_main as, cpp_c9_main as} \<Longrightarrow> workload (map (Pair 0) (fst p))"
| threads6: "workload (fst (c6t_main as ts1 ts2))"
| openmp: "workload (fst (omp_main T share as ts0 ts1 ts2))"
| cthreads: "workload (fst (ct_main as ts1 ts2 ts3))"
| cmarkers: "cm_main as ts = Some is \<Longrightarrow> workload is"
| queue6: "reachable R s \<Longrightarrow> ppc s = P_exit \<Longrightarrow> cpc s = C_exit \<Longrightarrow> workload (as_items (calls s))"
| queue7: "duet_reachable R s \<Longrightarrow> mpc s = M_end \<Longrightarrow> workload (as_items (dcalls s))"

lemma workload_steady: "workload is \<Longrightarrow> steady is"
proof (induction rule: workload.induct)
  case (one "is" as HEAD)
  then show ?case by (auto intro!: steady_main c1_balanced suite_balanced c9_balanced)
next
  case (some p as mem)
  then have "c2_main as mem = Some p \<or> c4_main as = Some p \<or> cpp_c2_main as = Some p \<or> cpp_c9_main as = Some p" by auto
  then show ?case using partial_balanced by (intro steady_main) blast
qed (simp_all add: c6t_steady omp_steady ct_steady cm_steady handoff_steady duet_steady)

text \<open>\<open>ctest\<close>: one end without a region.\<close>

lemma ctest_nest:
  assumes "ctest_main as = Some p"
  shows "fold nest_call (items_said (map (Pair 0) (fst p))) (\<lambda>_. [], 0, 0) = (\<lambda>_. [], 1, 0)"
  using assms by (auto simp: ctest_main_def upto_0_2 work_defs balance_simps fun_eq_iff split: if_splits)

end
