(* ===== verification/Ownership.thy ===== *)
theory Ownership
  imports Nesting
begin

text \<open>
  Every counter array that has been handed out is the array of a key of the table and an index below
  \<open>MAX_THREADS\<close>, in every run: nothing that is allocated gets lost. Pointers change in \<open>slots_for\<close> only,
  which is called with the key of an open region.
\<close>

definition owned :: "'h keyst \<Rightarrow> bool" where
  "owned s \<longleftrightarrow> (\<forall>k i a. tslots s k i = Some a \<longrightarrow> k < length (keys s) \<and> i < MAX_THREADS) \<and>
     (\<forall>a<narrays s. \<exists>k i. tslots s k i = Some a)"

definition holds :: "('h, 'z) client_scheme \<Rightarrow> bool" where
  "holds c \<longleftrightarrow> owned (keyst.truncate c)"

lemma holds_def': "holds c \<longleftrightarrow> (\<forall>k i a. tslots c k i = Some a \<longrightarrow> k < length (keys c) \<and> i < MAX_THREADS) \<and>
    (\<forall>a<narrays c. \<exists>k i. tslots c k i = Some a)"
  by (simp add: holds_def owned_def keyst.defs)

lemma holds_marks [simp]:
  "holds (c\<lparr>marker_seen := b\<rparr>) = holds c" "holds (c\<lparr>seq_counter := n\<rparr>) = holds c"
  "holds (c\<lparr>unmatched_ends := n\<rparr>) = holds c" "holds (c\<lparr>marker_seen := b, depth_overflows := n\<rparr>) = holds c"
  "holds (c\<lparr>state_overflows := n\<rparr>) = holds c"
  by (simp_all add: holds_def')

lemma holds_grows:
  assumes "holds c" and "mem.truncate c' = mem.truncate c" and "length (keys c) \<le> length (keys c')"
  shows "holds c'"
proof -
  have "tslots c' = tslots c" "narrays c' = narrays c" using assms(2) by (simp_all add: mem.defs)
  then show ?thesis using assms(1,3) unfolding holds_def' by (metis order.strict_trans2)
qed

lemma holds_slots_for:
  assumes "holds c" and "\<And>k. ko = Some k \<Longrightarrow> k < length (keys c)" and "i < MAX_THREADS"
  shows "holds (snd (slots_for A ko i c))"
proof (cases rule: slots_for_cases [of ko A i c])
  case (fresh k)
  have "\<exists>k' i'. ((tslots c)(k := (tslots c k)(i \<mapsto> narrays c))) k' i' = Some a" if a: "a < Suc (narrays c)" for a
  proof (cases "a = narrays c")
    case False
    then obtain k' i' where "tslots c k' i' = Some a" using a assms(1) by (auto simp: holds_def' less_Suc_eq)
    then show ?thesis using fresh(2) by (intro exI [of _ k'] exI [of _ i']) auto
  next
    case True
    then have "((tslots c)(k := (tslots c k)(i \<mapsto> narrays c))) k i = Some a" by simp
    then show ?thesis by blast
  qed
  then show ?thesis using assms fresh(1) unfolding fresh(5) by (auto simp: holds_def')
qed (use assms(1) in \<open>simp_all add: holds_def'\<close>)

text \<open>The threads' indices and the keys of their frames are in range.\<close>

definition tops_below :: "('h, 'z) client_scheme \<Rightarrow> bool" where
  "tops_below c \<longleftrightarrow> (\<forall>i<length (threads c). index (thr c i) < MAX_THREADS \<and>
     (\<forall>k \<in> set (fkeys (thr c i)). k < length (keys c)))"

lemma tops_belowD:
  "tops_below c \<Longrightarrow> i < length (threads c) \<Longrightarrow> index (thr c i) < MAX_THREADS"
  "tops_below c \<Longrightarrow> i < length (threads c) \<Longrightarrow> top_key (thr c i) = Some k \<Longrightarrow> k < length (keys c)"
proof -
  assume t: "tops_below c" "i < length (threads c)"
  then show "index (thr c i) < MAX_THREADS" by (simp add: tops_below_def)
  assume "top_key (thr c i) = Some k"
  then have "k \<in> set (fkeys (thr c i))"
    by (auto simp: top_key_def fkeys_def spine_def split: if_splits)
  then show "k < length (keys c)" using t by (simp add: tops_below_def)
qed

lemma tops_upd_thr:
  assumes "tops_below c" and "\<And>t. index (f t) = index t" and "\<And>t. fkeys (f t) = fkeys t"
  shows "tops_below (upd_thr i f c)"
  using assms by (auto simp: tops_below_def thr_upd_thr_if)

lemma holds_upd_thr [simp]: "holds (upd_thr i f c) = holds c"
  by (simp add: holds_def' upd_thr_def)

lemma fkeys_cur [simp]: "fkeys (t\<lparr>cur := a, followed := b\<rparr>) = fkeys t"
  by (simp add: fkeys_def spine_def)

lemma tops_set_cur:
  assumes "tops_below c"
  shows "tops_below (set_thread_cur i a c)" "tops_below (steer_follower i a c)"
  unfolding set_thread_cur_def steer_follower_def by (rule tops_upd_thr [OF assms]; simp)+

lemma tops_slots_for [simp]: "tops_below (snd (slots_for A ko i c)) = tops_below (c :: ('h, 'z) client_scheme)"
  by (simp add: tops_below_def)

subsection \<open>\<open>update_shared\<close>\<close>

definition good :: "('h, 'z) client_scheme \<Rightarrow> bool" where
  "good c \<longleftrightarrow> holds c \<and> tops_below c"

lemma good_slots_for:
  assumes "good c" and "i < length (threads c)" and "\<And>k. ko = Some k \<Longrightarrow> k < length (keys c)"
    and "slots_for A ko (index (thr c i)) c = (a, c')"
  shows "good c'" "threads c' = threads c" "keys c' = keys c"
proof -
  have c': "c' = snd (slots_for A ko (index (thr c i)) c)" using assms(4) by simp
  have "holds c'" unfolding c'
    using assms tops_belowD(1) [of c i] by (intro holds_slots_for) (auto simp: good_def)
  then show "good c'" using assms(1) unfolding c' by (simp add: good_def)
  show "threads c' = threads c" "keys c' = keys c" unfolding c' by simp_all
qed

lemma good_set_cur:
  assumes "good c"
  shows "good (set_thread_cur i a c)" "good (steer_follower i a c)"
  using assms tops_set_cur [of c i a] by (simp_all add: good_def set_thread_cur_def steer_follower_def)

lemma good_set_own:
  assumes "good c" and "i < length (threads c)" and "\<And>k. ko = Some k \<Longrightarrow> k < length (keys c)"
  shows "good (set_own A ko i c)"
proof -
  obtain a c1 where s: "slots_for A ko (index (thr c i)) c = (a, c1)" by (cases "slots_for A ko (index (thr c i)) c")
  from good_set_cur(1) [OF good_slots_for(1) [OF assms(1,2) _ s]] assms(3) show ?thesis by (simp add: set_own_def s)
qed

lemma good_steer_one:
  assumes "good c" and "i < length (threads c)" and "\<And>k. nk = Some k \<Longrightarrow> k < length (keys c)"
  shows "good (steer_one A nk i c) \<and> length (threads (steer_one A nk i c)) = length (threads c) \<and>
    keys (steer_one A nk i c) = keys c"
proof -
  obtain a c1 where s: "slots_for A nk (index (thr c i)) c = (a, c1)" by (cases "slots_for A nk (index (thr c i)) c")
  have g: "good c1" "threads c1 = threads c" "keys c1 = keys c"
    using good_slots_for [OF assms(1,2) _ s] assms(3) by simp_all
  have "length (threads (steer_follower i a c1)) = length (threads c) \<and> keys (steer_follower i a c1) = keys c"
    by (simp add: steer_follower_def g upd_thr_def)
  then show ?thesis using good_set_cur(2) [OF g(1)] assms(1) by (simp add: steer_one_def s)
qed

lemma good_steer_all:
  assumes "good c" and "\<forall>j \<in> set js. j < length (threads c)" and "\<And>k. nk = Some k \<Longrightarrow> k < length (keys c)"
  shows "good (steer_all A nk js c)"
  using assms
proof (induction js arbitrary: c)
  case (Cons j js)
  note S = good_steer_one [of c j nk A]
  have "good (steer_all A nk js (steer_one A nk j c))"
    by (rule Cons.IH) (use Cons.prems S in auto)
  then show ?case by (simp only: steer_all_Cons)
qed simp

lemma good_leader [simp]: "good (c\<lparr>leader := l\<rparr>) = good c" "good (c\<lparr>shared_key := sk\<rparr>) = good c"
  by (simp_all add: good_def holds_def' tops_below_def)

lemma good_update_shared:
  assumes "good c" and "\<And>i. self = Some i \<Longrightarrow> i < length (threads c)" and "\<And>l. leader c = Some l \<Longrightarrow> l < length (threads c)"
  shows "good (update_shared A self c)"
proof -
  have top: "k < length (keys c)" if "i < length (threads c)" "top_key (thr c i) = Some k" for i k
    using tops_belowD(2) [of c i k] that assms(1) by (simp add: good_def)
  show ?thesis
  proof (cases "nthreads_seen c \<le> 1")
    case True
    define l where "l = (case self of None \<Rightarrow> None | Some i \<Rightarrow> if 0 < depth (thr c i) then Some i else None)"
    define sk where "sk = (case l of None \<Rightarrow> None | Some i \<Rightarrow> top_key (thr c i))"
    let ?c = "c\<lparr>leader := l, shared_key := sk\<rparr>"
    have "k < length (keys c)" if "sk = Some k" for k
      using that top assms(2) by (auto simp: sk_def l_def split: option.splits if_splits)
    then have "good (set_own A sk i ?c)" if "self = Some i" for i
      using assms(1,2) that by (intro good_set_own) auto
    moreover have "update_shared A self c = (case self of None \<Rightarrow> ?c | Some i \<Rightarrow> if depth (thr c i) = 0 then set_own A sk i ?c else ?c)"
      using True by (simp add: update_shared_def l_def sk_def set_own_def Let_def split: option.split)
    ultimately show ?thesis using assms(1) by (auto split: option.split)
  next
    case False
    define l1 where "l1 = (case leader c of None \<Rightarrow> None | Some i \<Rightarrow> if alive (thr c i) then Some i else None)"
    define l2 where "l2 = (case l1 of None \<Rightarrow> (case self of None \<Rightarrow> None | Some i \<Rightarrow> if 0 < depth (thr c i) then Some i else None)
      | Some i \<Rightarrow> Some i)"
    define nk where "nk = (case l2 of None \<Rightarrow> None | Some i \<Rightarrow> top_key (thr c i))"
    have "i < length (threads c)" if "l2 = Some i" for i
      using that assms(2,3) by (auto simp: l2_def l1_def split: option.splits if_splits)
    then have nk: "k < length (keys c)" if "nk = Some k" for k
      using that top by (auto simp: nk_def split: option.splits)
    have "good (steer_all A nk (rev [0..<length (threads c)]) (c\<lparr>leader := l2, shared_key := nk\<rparr>))"
      using assms(1) nk by (intro good_steer_all) auto
    then show ?thesis using False assms(1)
      by (simp add: update_shared_def Let_def l1_def [symmetric] l2_def [symmetric] nk_def [symmetric])
  qed
qed

subsection \<open>The handlers\<close>

lemma tops_own:
  assumes "tops_below c" and own: "own_step i c c'" and "\<forall>k \<in> set (fkeys (thr c' i)). k < length (keys c')"
  shows "tops_below c'"
proof -
  have "index (thr c' j) < MAX_THREADS \<and> (\<forall>k \<in> set (fkeys (thr c' j)). k < length (keys c'))" if "j < length (threads c')" for j
    using that assms by (cases "j = i") (fastforce simp: tops_below_def own_step_def)+
  then show ?thesis by (simp add: tops_below_def)
qed

lemma control_tops: "control_inv A c \<Longrightarrow> tops_below c"
  by (fastforce simp: control_inv_def tops_below_def fkeys_def thr_ok_def thr_base_def dest: threads_okD)

lemma control_shared:
  assumes "control_inv A c" and "shared_key c = Some k"
  shows "k < length (keys c)"
proof -
  have "base_inv A c" "leader_ok c" using assms(1) by (simp_all add: control_inv_def)
  then obtain l where l: "leader c = Some l" "top_key (thr c l) = Some k" "l < length (threads c)"
    using assms(2) by (auto simp: leader_ok_def base_inv_def split: option.splits)
  then show ?thesis using tops_belowD(2) [OF control_tops [OF assms(1)]] by blast
qed

lemma control_leader: "control_inv A c \<Longrightarrow> leader c = Some l \<Longrightarrow> l < length (threads c)"
  by (simp add: control_inv_def base_inv_def)

lemma close_frame_mem: "close_frame A i tot se te b c = Some c' \<Longrightarrow> mem.truncate c' = mem.truncate c"
  by (drule close_frame_eq) (auto simp: upd_thr_def mem.defs)

lemma close_above_mem: "close_above A i tot se te d c = Some c' \<Longrightarrow> mem.truncate c' = mem.truncate c"
proof (induction A i tot se te d c rule: close_above.induct)
  case (1 A i tot se te d c)
  then show ?case
    by (fastforce simp: close_above.simps [of A i tot se te d c] dest: close_frame_mem split: Option.bind_splits if_splits)
qed

lemma holds_begun:
  assumes inv: "control_inv A c" and laws: "ht_laws A" and i: "i < length (threads c)" "alive (thr c i)"
    and d: "depth (thr c i) < MAX_DEPTH" and gk: "get_key A r sts par rt (thr c i) c = Some (k, t', c1)" and h: "holds c"
  shows "good (begun A i k now t' c1)"
proof -
  note B = begun_spec [OF inv laws i d gk, of now]
  note same = get_key_same [OF gk]
  note sc = same_keyst_client [OF conjunct1 [OF same]] and st = same_caches_thread [OF conjunct2 [OF same]]
  have ks: "\<exists>ks. keys c1 = keys c @ ks" using B by (auto simp: own_step_def)
  have h1: "holds c1" by (rule holds_grows [OF h sc(7)]) (use ks in auto)
  define c3 where "c3 = (if 0 < opt_trace c1 then c1\<lparr>seq_counter := seq_counter c1 + 1\<rparr> else c1)"
  have "holds (upd_thr i (\<lambda>_. t') c3)" using h1 by (simp add: c3_def)
  moreover have kb: "keys (begun A i k now t' c1) = keys c1" "k < length (keys (begun A i k now t' c1))" using B by blast+
  have "k < length (keys (upd_thr i (\<lambda>_. t') c3))" using kb(2) unfolding kb(1) by (simp add: c3_def)
  moreover have "index t' < MAX_THREADS" using tops_belowD(1) [OF control_tops [OF inv] i(1)] by (simp add: st)
  ultimately have "holds (snd (slots_for A (Some k) (index t') (upd_thr i (\<lambda>_. t') c3)))"
    by (intro holds_slots_for) auto
  then have "holds (begun A i k now t' c1)" by (auto simp: begun_def c3_def [symmetric] Let_def split: prod.split)
  moreover have "tops_below (begun A i k now t' c1)"
  proof (rule tops_own [OF control_tops [OF inv]])
    show "own_step i c (begun A i k now t' c1)" using B by blast
    obtain a where sp: "spine (thr (begun A i k now t' c1) i) = spine (thr c i) @ [(k, a)]" using B by blast
    have "\<forall>k \<in> set (fkeys (thr c i)). k < length (keys c)" using control_tops [OF inv] i(1) by (simp add: tops_below_def)
    then show "\<forall>k' \<in> set (fkeys (thr (begun A i k now t' c1) i)). k' < length (keys (begun A i k now t' c1))"
      using B ks unfolding fkeys_def sp by auto
  qed
  ultimately show ?thesis by (simp add: good_def)
qed

lemma holds_begin_common:
  assumes inv: "control_inv A c" and laws: "ht_laws A" and i: "i < length (threads c)" "alive (thr c i)"
    and res: "begin_common A i reg sts now c = Some c'" and h: "holds c"
  shows "holds c'"
proof (cases "depth (thr c i) < MAX_DEPTH")
  case False
  then have "c' = c\<lparr>marker_seen := True, depth_overflows := depth_overflows c + 1\<rparr>"
    using res by (simp add: begin_common_def Let_def)
  then show ?thesis using h by simp
next
  case True
  let ?c = "c\<lparr>marker_seen := True\<rparr>"
  obtain k t' c1 where gk: "get_key A (region_name reg) sts (fst (begin_call c i)) (snd (begin_call c i)) (thr c i) ?c = Some (k, t', c1)"
    and same: "same_keyst ?c c1"
    and c': "c' = (let c6 = begun A i k now t' c1 in
       if leader c1 = None \<or> leader c1 = Some i then update_shared A (Some i) c6 else c6)"
    by (rule begin_common_eq [OF res i(1) True])
  have inv': "control_inv A ?c" "i < length (threads ?c)" "alive (thr ?c i)" "depth (thr ?c i) < MAX_DEPTH" "holds ?c"
    and gk': "get_key A (region_name reg) sts (fst (begin_call c i)) (snd (begin_call c i)) (thr ?c i) ?c = Some (k, t', c1)"
    using inv i True h gk by simp_all
  note g = holds_begun [OF inv'(1) laws inv'(2-4) gk' inv'(5), of now]
  have own: "own_step i ?c (begun A i k now t' c1)" using begun_spec [OF inv'(1) laws inv'(2-4) gk'] by blast
  have "good (update_shared A (Some i) (begun A i k now t' c1))"
    by (rule good_update_shared [OF g]) (use own i control_leader [OF inv] in \<open>auto simp: own_step_def\<close>)
  then show ?thesis using g by (simp add: c' Let_def good_def)
qed

lemma good_closed:
  assumes "control_inv A c" and "own_step i c c'" and "mem.truncate c' = mem.truncate c" and "holds c"
    and "spine (thr c' i) = take n (spine (thr c i))" and "i < length (threads c)"
  shows "good c'"
proof -
  have ks: "\<exists>ks. keys c' = keys c @ ks" using assms(2) by (simp add: own_step_def)
  have "holds c'" by (rule holds_grows [OF assms(4,3)]) (use ks in auto)
  moreover have "\<forall>k \<in> set (fkeys (thr c i)). k < length (keys c)"
    using control_tops [OF assms(1)] assms(6) by (simp add: tops_below_def)
  then have "\<forall>k \<in> set (fkeys (thr c' i)). k < length (keys c')"
    using ks in_set_takeD [of _ n "spine (thr c i)"] by (fastforce simp: fkeys_def assms(5))
  ultimately show ?thesis using tops_own [OF control_tops [OF assms(1)] assms(2)] by (simp add: good_def)
qed

lemma good_reinstall:
  assumes "good c" and "i < length (threads c)" and "\<And>k. shared_key c = Some k \<Longrightarrow> k < length (keys c)"
  shows "good (reinstall A i c)"
proof -
  have "good (set_own A (shared_key c) i c)" by (rule good_set_own [OF assms(1,2)]) (rule assms(3))
  then show ?thesis using good_set_cur(1) [OF assms(1)] by (simp add: reinstall_def)
qed

lemma leader_reinstall: "leader (reinstall A i c) = leader c"
proof -
  obtain a c1 where s: "slots_for A (shared_key c) (index (thr c i)) c = (a, c1)"
    by (cases "slots_for A (shared_key c) (index (thr c i)) c")
  then have "leader c1 = leader c" using client_slots_for [of A "shared_key c" "index (thr c i)" c] by simp
  then show ?thesis by (simp add: reinstall_def set_own_def s set_thread_cur_def)
qed

lemma holds_pre_end:
  assumes inv: "control_inv A c" and i: "i < length (threads c)" and res: "pre_end A i reg now c = Some c'" and h: "holds c"
  shows "holds c'"
proof (cases "find_frame (keys c) (stack (thr c i)) (region_name reg) (depth (thr c i))")
  case None
  then show ?thesis using res h by (auto simp: pre_end_def Let_def)
next
  case (Some m)
  obtain c0 c2 c3 se te where c0: "c0 = c\<lparr>seq_counter := seq_counter c0\<rparr>"
    and c2: "close_above A i (total (thr c i)) se te (m + 1) c0 = Some c2"
    and c3: "close_frame A i (total (thr c i)) se te False c2 = Some c3"
    and c': "c' = (let c4 = reinstall A i c3 in if leader c4 = Some i then update_shared A (Some i) c4 else c4)"
    by (rule pre_end_eq [OF res i Some])
  have inv0: "control_inv A c0" "holds c0" by (subst c0, use inv h in simp)+
  have i0: "i < length (threads c0)" by (subst c0) (use i in simp)
  have t0: "threads c0 = threads c" by (subst c0) simp
  note S2 = close_above_step [OF c2 i0]
  have i2: "i < length (threads c2)" using S2 i0 by (simp add: own_step_def)
  note S3 = close_frame_step [OF c3 i2]
  have own: "own_step i c0 c3" using S2 S3 own_step_trans by blast
  have m: "m < depth (thr c i)" using find_frame_Some [OF Some] by simp
  have sp: "spine (thr c3 i) = take m (spine (thr c0 i))"
    using S2 S3 m by (simp add: t0 butlast_take flip: length_spine)
  have "mem.truncate c3 = mem.truncate c0" using close_above_mem [OF c2] close_frame_mem [OF c3] by simp
  from good_closed [OF inv0(1) own this inv0(2) sp i0] have g: "good c3" .
  have o3: "shared_key c3 = shared_key c0" "leader c3 = leader c0" "length (threads c3) = length (threads c0)"
    "length (keys c0) \<le> length (keys c3)" using own by (auto simp: own_step_def)
  have g4: "good (reinstall A i c3)"
    by (rule good_reinstall [OF g]) (use i0 o3 control_shared [OF inv0(1)] in fastforce)+
  have l4: "length (threads (reinstall A i c3)) = length (threads c3)" "leader (reinstall A i c3) = leader c3"
    by (rule inertD(6) [OF inert_reinstall]) (rule leader_reinstall)
  have "good (update_shared A (Some i) (reinstall A i c3))"
    by (rule good_update_shared [OF g4]) (use l4 o3 i0 control_leader [OF inv0(1)] in auto)
  then show ?thesis using g4 by (simp add: c' Let_def good_def)
qed

lemma holds_thread_exit:
  assumes inv: "control_inv A c" and i: "i < length (threads c)" and res: "event_thread_exit A i now c = Some c'" and h: "holds c"
  shows "holds c'"
proof -
  let ?c0 = "c\<lparr>seq_counter := seq_counter c + 1\<rparr>"
  obtain c1 where c1: "close_above A i (total (thr c i)) (seq_counter c + 1) now 0 ?c0 = Some c1"
    and c': "c' = (let c2 = upd_thr i (\<lambda>t. t\<lparr>final_total := total (thr c i), alive := False\<rparr>) c1
      in if leader c2 = Some i then update_shared A None c2 else c2)"
    using res by (auto simp: event_thread_exit_def Let_def split: Option.bind_splits)
  let ?c2 = "upd_thr i (\<lambda>t. t\<lparr>final_total := total (thr c i), alive := False\<rparr>) c1"
  have i0: "i < length (threads ?c0)" and inv0: "control_inv A ?c0" "holds ?c0" using i inv h by simp_all
  note S = close_above_step [OF c1 i0]
  have sp: "spine (thr c1 i) = take 0 (spine (thr ?c0 i))" using S by simp
  have g: "good c1" by (rule good_closed [OF inv0(1) conjunct1 [OF S] close_above_mem [OF c1] inv0(2) sp i0])
  have "tops_below ?c2" by (rule tops_upd_thr) (use g in \<open>simp_all add: good_def fkeys_def spine_def\<close>)
  then have g2: "good ?c2" using g by (simp add: good_def)
  have "good (update_shared A None ?c2)"
    by (rule good_update_shared [OF g2]) (use S control_leader [OF inv] in \<open>auto simp: own_step_def\<close>)
  then show ?thesis using g2 by (simp add: c' Let_def good_def)
qed

lemma holds_thread_init:
  assumes inv: "control_inv A c" and res: "event_thread_init A tno c = Some c'" and h: "holds c"
  shows "holds c'"
proof -
  let ?n = "length (threads c)"
  define c1 where "c1 = c\<lparr>threads := threads c @ [new_thread A tno (nthreads_seen c)], nthreads_seen := nthreads_seen c + 1\<rparr>"
  have c': "c' = set_own A (shared_key c1) ?n c1"
    using res by (auto simp: event_thread_init_def Let_def c1_def set_own_def split: if_splits prod.splits)
  have "holds c1" using h by (simp add: holds_def' c1_def)
  moreover have "tops_below c1" using control_tops [OF inv]
    by (auto simp: tops_below_def c1_def nth_append new_thread_def fkeys_def spine_def MAX_THREADS_def less_Suc_eq)
  ultimately have "good c1" by (simp add: good_def)
  then have "good (set_own A (shared_key c1) ?n c1)"
    by (rule good_set_own) (use control_shared [OF inv] in \<open>simp_all add: c1_def\<close>)
  then show ?thesis by (simp add: c' good_def)
qed

subsection \<open>Runs\<close>

lemma holds_same: "holds c \<Longrightarrow> mem.truncate c' = mem.truncate c \<Longrightarrow> keys c' = keys c \<Longrightarrow> holds c'"
  by (rule holds_grows) auto

lemma holds_bump: "holds (bump a s n m) = holds m"
  by (simp add: holds_def' bump_def split: carr.split)

lemma holds_build:
  assumes "holds w"
  shows "holds (build_block A i x pc n mo w)"
proof -
  have "holds (event_app2app x i w)" using assms by (simp add: event_app2app_def)
  then show ?thesis
    by (cases rule: event_analysis_cases [of A "event_app2app x i w" pc i n mo])
      (simp_all add: build_block_def holds_def' assign_slot_def)
qed

lemma step_holds:
  assumes inv: "world_inv A w" and h: "holds w" and res: "step A w e = Some w'"
  shows "holds w'"
proof -
  have en: "enabled w e" and hd: "handle A w e = Some w'" using res by (auto simp: step_def split: if_splits)
  have C: "control_inv A w" "ht_laws A" using inv by (simp_all add: world_inv_def)
  have b: "holds w'" if be: "begins e"
  proof -
    obtain i sts now c where b: "begin_common A i (named e) sts now c = Some w'" "actor e = Some i"
      "c = w \<or> c = w\<lparr>state_overflows := state_overflows w + 1\<rparr>"
      using begins_common [OF be hd] by metis
    then have "control_inv A c" "holds c" "i < length (threads c)" "alive (thr c i)"
      using C h en by (auto simp: enabled_def)
    from holds_begin_common [OF this(1) C(2) this(3,4) b(1) this(2)] show ?thesis .
  qed
  show ?thesis
  proof (cases e)
    case (Thread_init tno)
    with hd holds_thread_init [OF C(1) _ h] show ?thesis by simp
  next
    case (Thread_exit i now)
    with hd en holds_thread_exit [OF C(1) _ _ h, of i now w'] show ?thesis by (simp add: enabled_def)
  next
    case (End i r now)
    with hd en holds_pre_end [OF C(1) _ _ h, of i r now w'] show ?thesis by (simp add: enabled_def)
  next
    case (State i nm v)
    with hd h show ?thesis by (auto simp: pre_state_def Let_def)
  next
    case (Syscall i)
    with hd h show ?thesis by (auto simp: event_pre_syscall_def)
  next
    case (Load d)
    with hd holds_same [OF h event_module_load_same(1,2)] show ?thesis by auto
  next
    case (Build i x pc n mo)
    with hd holds_build [OF h] show ?thesis by auto
  next
    case (Exec i p)
    with en have "i < length (threads w)" "p \<in> code w" by (simp_all add: enabled_def)
    from exec_block_spec [OF inv this(2,1)] Exec hd h show ?thesis
      by (auto simp: counted_def Let_def holds_bump split: if_splits)
  qed (use b in simp_all)
qed

lemma ran_holds:
  assumes "ran A oc main es w"
  shows "holds w"
  using assms
proof (rule ran_induct [where Q = "\<lambda>_. True"])
  show "holds (init_world A oc main)" by (simp add: holds_def' init_world_def)
qed (auto simp: list_all_iff intro: step_holds)

end
