(* ===== verification/Cleanup.thy ===== *)
theory Cleanup
  imports Ownership Symbols
begin

text \<open>
  The end of \<open>event_exit\<close>, which gives the client's memory back, with \<open>free_modsyms\<close>: the blocks that
  are freed, in order. The counter arrays among them are those that \<open>slots_for\<close> has allocated, each
  once, whatever keys and threads they belong to. The hash tables and locks of DynamoRIO, which are
  deleted last, are left out.
\<close>

datatype chunk =
    Counter_array nat            \<comment> \<open>an element of \<open>tslots\<close>\<close>
  | Pointer_array nat            \<comment> \<open>\<open>tslots\<close> of a key\<close>
  | Key_record nat
  | Trace_chunk nat nat          \<comment> \<open>thread and place in its list\<close>
  | Stats_array nat
  | Thread_record nat
  | Symbol_table
  | Symbol_name nat nat          \<comment> \<open>module and place\<close>
  | Symbol_array nat
  | Slot_pc | Slot_mod | Slot_sym | Dummy_slots

definition free_key :: "('h, 'z) keyst_scheme \<Rightarrow> nat \<Rightarrow> chunk list" where
  "free_key s k = map Counter_array (List.map_filter (tslots s k) [0..<MAX_THREADS]) @ [Pointer_array k, Key_record k]"

definition free_thread :: "('h, 'z) client_scheme \<Rightarrow> nat \<Rightarrow> chunk list" where
  "free_thread c i = map (Trace_chunk i) [0..<length (trace (thr c i))] @
     (if stats (thr c i) \<noteq> None then [Stats_array i] else []) @ [Thread_record i]"

definition free_modsyms :: "('h, 'p) xworld \<Rightarrow> chunk list" where
  "free_modsyms w = concat (map (\<lambda>m. let ms = modsyms_of w m in
     map (Symbol_name m) [0..<length (ms_syms ms)] @ (if ms_cap ms \<noteq> 0 then [Symbol_array m] else [])) [0..<MAX_MODULES])"

text \<open>The list of threads has the newest first. When the output file cannot be opened \<open>event_exit\<close>
  returns at once, and nothing is freed.\<close>

definition exit_frees :: "exit_api \<Rightarrow> ('h, 'p) xworld \<Rightarrow> chunk list" where
  "exit_frees E w =
     (if \<not> opens E (opt_out w) then []
      else concat (map (free_key w) [0..<length (keys w)]) @
        concat (map (free_thread w) (rev [0..<length (threads w)])) @
        (if syms_cap w \<noteq> 0 then [Symbol_table] else []) @ free_modsyms w @ [Slot_pc, Slot_mod, Slot_sym, Dummy_slots])"

lemma set_map_filter: "set (List.map_filter f xs) = {y. \<exists>x \<in> set xs. f x = Some y}"
  by (induction xs) (auto split: option.split)

lemma distinct_map_filter':
  "distinct xs \<Longrightarrow> (\<And>x y z. x \<in> set xs \<Longrightarrow> y \<in> set xs \<Longrightarrow> f x = Some z \<Longrightarrow> f y = Some z \<Longrightarrow> x = y) \<Longrightarrow>
   distinct (List.map_filter f xs)"
  by (induction xs) (fastforce simp: set_map_filter split: option.split)+

lemma set_free_key: "set (free_key s k) = {Counter_array a |a. \<exists>i<MAX_THREADS. tslots s k i = Some a} \<union> {Pointer_array k, Key_record k}"
  by (force simp: free_key_def set_map_filter)

lemma distinct_free_key:
  assumes "mem_inv s"
  shows "distinct (free_key s k)"
proof -
  have "distinct (List.map_filter (tslots s k) [0..<MAX_THREADS])"
    by (rule distinct_map_filter' [OF distinct_upt]) (use mem_inv_private [OF assms] in blast)
  then show ?thesis by (auto simp: free_key_def distinct_map inj_on_def)
qed

lemma distinct_concat_map:
  assumes "distinct xs" and "\<And>x. x \<in> set xs \<Longrightarrow> distinct (f x)"
    and "\<And>x y. x \<in> set xs \<Longrightarrow> y \<in> set xs \<Longrightarrow> x \<noteq> y \<Longrightarrow> set (f x) \<inter> set (f y) = {}"
  shows "distinct (concat (map f xs))"
  using assms
proof (induction xs)
  case (Cons x xs)
  have "set (f x) \<inter> set (f y) = {}" if "y \<in> set xs" for y using Cons.prems that by auto
  then show ?case using Cons by auto
qed simp

lemma distinct_free_keys:
  assumes "mem_inv s"
  shows "distinct (concat (map (free_key s) [0..<n]))"
proof (rule distinct_concat_map)
  fix k k' :: nat assume "k \<noteq> k'"
  then show "set (free_key s k) \<inter> set (free_key s k') = {}"
    using mem_inv_private [OF assms] by (auto simp: set_free_key)
qed (simp_all add: distinct_free_key [OF assms])

lemma distinct_free_threads: "distinct (concat (map (free_thread c) (rev [0..<n])))"
proof (rule distinct_concat_map)
  fix i j :: nat assume "i \<noteq> j"
  then show "set (free_thread c i) \<inter> set (free_thread c j) = {}" by (auto simp: free_thread_def)
qed (auto simp: free_thread_def distinct_map inj_on_def)

lemma distinct_free_modsyms: "distinct (free_modsyms w)"
  unfolding free_modsyms_def Let_def
proof (rule distinct_concat_map)
  fix i j :: nat assume "i \<noteq> j"
  then show "set (map (Symbol_name i) [0..<length (ms_syms (modsyms_of w i))] @ (if ms_cap (modsyms_of w i) \<noteq> 0 then [Symbol_array i] else [])) \<inter>
    set (map (Symbol_name j) [0..<length (ms_syms (modsyms_of w j))] @ (if ms_cap (modsyms_of w j) \<noteq> 0 then [Symbol_array j] else [])) = {}"
    by (auto split: if_splits)
qed (auto simp: distinct_map inj_on_def)

lemma free_sets:
  "set (concat (map (free_key s) [0..<n])) \<subseteq> {Counter_array a |a. True} \<union> {Pointer_array k |k. True} \<union> {Key_record k |k. True}"
  "set (concat (map (free_thread c) is)) \<subseteq> {Trace_chunk i j |i j. True} \<union> {Stats_array i |i. True} \<union> {Thread_record i |i. True}"
  "set (free_modsyms w) \<subseteq> {Symbol_name i j |i j. True} \<union> {Symbol_array i |i. True}"
  by (auto simp: free_key_def free_thread_def free_modsyms_def Let_def split: if_splits)

lemma distinct_exit_frees:
  assumes "mem_inv w"
  shows "distinct (exit_frees E w)"
proof (cases "opens E (opt_out w)")
  case True
  then show ?thesis
    using distinct_free_keys [OF assms, of "length (keys w)"] distinct_free_threads [of w "length (threads w)"]
      distinct_free_modsyms [of w] free_sets(1) [of w "length (keys w)"] free_sets(2) [of w "rev [0..<length (threads w)]"] free_sets(3) [of w]
    by (simp only: exit_frees_def not_True_eq_False if_False distinct_append) fastforce
qed (simp add: exit_frees_def)

lemma arrays_freed:
  assumes "mem_inv w" and "holds w" and "opens E (opt_out w)"
  shows "{a. Counter_array a \<in> set (exit_frees E w)} = {..<narrays w}"
proof -
  have "Counter_array a \<in> set (exit_frees E w) \<longleftrightarrow> (\<exists>k<length (keys w). \<exists>i<MAX_THREADS. tslots w k i = Some a)" for a
    using free_sets(2) [of w "rev [0..<length (threads w)]"] free_sets(3) [of w] assms(3)
    by (auto simp: exit_frees_def set_free_key)
  then show ?thesis using assms(1,2) unfolding holds_def' mem_inv_def by (auto simp: lessThan_def) metis
qed

text \<open>What the report adds to the state while it is written are symbols only.\<close>

lemma exit_frees_world:
  assumes "mem_inv (world.truncate v)" and "holds (world.truncate v)"
  shows "distinct (exit_frees E v)"
    "opens E (opt_out v) \<Longrightarrow> {a. Counter_array a \<in> set (exit_frees E v)} = {..<narrays (world.truncate v)}"
proof -
  have "mem_inv v" "holds v" "narrays (world.truncate v) = narrays v"
    using assms by (simp_all add: mem_inv_def opts_ok_def holds_def' world.defs)
  then show "distinct (exit_frees E v)"
    "opens E (opt_out v) \<Longrightarrow> {a. Counter_array a \<in> set (exit_frees E v)} = {..<narrays (world.truncate v)}"
    using distinct_exit_frees arrays_freed by simp_all
qed

end
