(* ===== verification/Spec2Isabelle.thy ===== *)
theory Spec2Isabelle
  imports Demo Allocation Steering Pipeline WorkloadNests Cleanup
begin

text \<open>
  A verification development for drperf, which counts the instructions that marked regions of a
  program execute. The program under test calls markers (\<open>perfmark/\<close>, also from Python); a client
  of DynamoRIO (\<open>client/drperf.c\<close>) wraps them, inlines a counter into every basic block and writes
  the counts, statistics and a trace of the regions at exit. Python programs outside this
  development (\<open>bin/\<close>, \<open>lib/\<close>) start the client and fit cost functions to its output. The two
  examples with logic of their own, \<open>examples/playground/system.c\<close> and
  \<open>examples/c_suite/c6_queue.c\<close>, are modelled too: they are what the relation between declared
  states, which the tool looks for, is tried on.

  \<^bold>\<open>The client\<close> is one state, extended from theory to theory as the code adds to it:

  \<^item> \<open>CString\<close>, \<open>DynamoRIO\<close>: C strings; the record \<open>dr_api\<close> of the services of DynamoRIO, its
    hash tables and \<open>dr_snprintf\<close>, with the laws they document as predicates (\<open>ht_laws\<close>,
    \<open>pt_laws\<close>, \<open>snprintf_laws\<close>), and an instance \<open>assoc_api\<close> that has them.
  \<^item> \<open>Counters\<close>: options, counter arrays under the byte budget (\<open>slots_for\<close>), the addition that the
    inlined code makes (\<open>bump\<close>), the dummy array of a thread that got none. \<open>Allocation\<close>: the reads,
    writes and lock operations of \<open>slots_for\<close> as steps of their own, any number of calls interleaved,
    against \<open>slots_for\<close> as one step.
  \<^item> \<open>Stats\<close>: \<open>kstats_t\<close>, one closed instance added, and \<open>merge_stats\<close>.
  \<^item> \<open>Keys\<close>, \<open>KeyText\<close>, \<open>KeyTable\<close>, \<open>KeyIntern\<close>, \<open>KeyContract\<close>: \<open>get_key\<close> with its content cache, the
    text of a key, the table, the budget of a region and its shared bucket. The locale \<open>interner\<close>
    is what the rest relies on, interpreted on \<open>get_key\<close>.
  \<^item> \<open>Client\<close>, \<open>Markers\<close>: frames, threads, leader and followers (\<open>update_shared\<close>), and the handlers
    of markers, threads and system calls.
  \<^item> \<open>Control\<close>, \<open>Sharing\<close>, \<open>Attribution\<close>, \<open>Closing\<close>, \<open>Handlers\<close>, \<open>Effects\<close>: the control invariant (every
    live thread counts into the array of its focus), that each handler keeps it, and what each
    handler does to the stack and the statistics of its thread.
  \<^item> \<open>Steering\<close>: begins, ends and \<open>update_shared\<close> as single reads and writes on several threads that
    take turns; alone, a thread does what its handler does in one step.
  \<^item> \<open>Blocks\<close>: modules, block slots, the packed word from \<open>event_analysis\<close> to \<open>event_insert\<close>, and
    what the inserted instructions do at their width.
  \<^item> \<open>System\<close>: the callbacks as events of one machine (locale \<open>machine\<close> of \<open>Prelude\<close>) with the
    invariant of the whole state. \<open>Counting\<close>, \<open>SelfCost\<close>, \<open>Instances\<close> and \<open>Inclusive\<close> tie what is counted to what ran,
    \<open>Names\<close>, \<open>Slots\<close> and \<open>Trace\<close> say what names, block slots and traces are in any run. \<open>Nesting\<close> has the
    client against an abstract machine of open region names, \<open>Progress\<close> that no handler aborts while
    there is memory and room for keys, \<open>Lifetimes\<close> which threads are alive after any events, \<open>Balance\<close> what
    balanced calls of several threads leave behind, threads that exit included,
    \<open>Ownership\<close> that no counter array gets lost; \<open>Cleanup\<close> is the freeing of memory at exit.
  \<^item> \<open>Symbols\<close>, \<open>Report\<close>, \<open>Output\<close>, \<open>OutputSpec\<close>, \<open>BlocksFile\<close>: symbolisation at exit and the four files
    as strings, with readers for the JSON strings and for the \<open>.blocks\<close> file.
  \<^item> \<open>Options\<close>: the command line and the start. \<open>Demo\<close>: a short run worked out, for the witnesses.

  \<^bold>\<open>The markers\<close>: \<open>Perfmark\<close> has the exported functions with the late attach and the calls a client
  sees; \<open>PyExt\<close> the Python extension over Python objects with a heap of lists, and what the client
  makes of its calls; \<open>Relations\<close> the sums of declared values over calls.

  \<^bold>\<open>The examples\<close>: \<open>Playground\<close> is the program, \<open>Rounds\<close> the workers of a round in any order,
  \<open>Pipeline\<close> the main loop against an abstract FIFO (locale \<open>loop_simulation\<close>), \<open>Handoff\<close> the two
  threads of the queue example as a step relation, \<open>CppQueue\<close> those of the C++ one. \<open>Assembly\<close> executes the
  loops that are written in assembly (\<open>asm_run\<close>, with a count of the instructions). \<open>Workloads\<close> has the other
  programs of \<open>examples/c_suite\<close>, \<open>examples/cpp_suite\<close> and \<open>tests\<close>: marker calls and loops, each loop with
  its value and the number of its iterations or of its instructions; \<open>WorkloadCosts\<close> the costs of their
  regions, with the instructions that the compiler makes of an iteration of a C loop as the parameter \<open>w\<close>;
  \<open>WorkloadRuns\<close> the programs of several threads and the calls that a client sees; \<open>WorkloadNests\<close> that
  these are balanced, for all the programs and both queues.

  \<^bold>\<open>Conventions.\<close> A handler gives \<open>None\<close> where the code aborts or would fault. Counters, totals and
  hashes are 64-bit words and wrap as in C; declared values are read as signed. The counters that
  the code only reports (\<open>unmatched_ends\<close>, \<open>trace_records\<close> and the like), and a \<open>long\<close> of the
  examples, are unbounded integers, so a run of \<open>2 ^ 63\<close> steps is outside the model. \<open>ran A oc main es w\<close>
  says that the events \<open>es\<close> take a client started with options \<open>oc\<close> to \<open>w\<close>. No fuel is used: the
  loops are structural, have a measure, or are partial functions whose return is a theorem.

  \<^bold>\<open>The properties\<close> below are in sections: whole runs (counts, self costs, pointers), keys,
  markers, memory and blocks, the files, symbols and statistics, the start, the marker library,
  the Python extension, the playground, the queue of two threads, and the workloads. Each has its claim in front
  of it and, where it has hypotheses, a witness behind it that uses it on a concrete state.

  \<^bold>\<open>Not modelled.\<close> Outside \<open>Allocation\<close> and \<open>Steering\<close> a handler is one step: what is proved of
  whole runs is about runs in which no two handlers overlap, and \<open>steer_race\<close> says what can go wrong
  when they do. \<open>get_key\<close>, which runs under a lock of its own, is always one step, and memory weaker
  than sequential consistency is left out. Of the services of
  DynamoRIO only what the laws say is used; registering callbacks and reserving registers are left
  out, and so is the text of time stamps, which is a floating-point computation
  (a parameter of \<open>Output\<close>), and the reference counts of Python objects. Of the workloads, the size of
  the OpenMP team of \<open>c6_openmp.cpp\<close> and the shares of its threads are arguments; left out are the times
  that \<open>cmarkers.c\<close> prints, what \<open>memcpy\<close> and the containers of \<open>c2_stl.cpp\<close> execute, and what the
  compiler puts around a loop. \<open>workload\<close> leaves the playground out: its workers are
  numbered anew in every round, which is not how the client numbers threads.
  The Python, Rust and shell parts and the build files hold no logic of the client.
\<close>

section \<open>Whole runs\<close>

text \<open>C1. In any run of the client from its start, as long as no counter array was refused,
  the counts that are reported for a region key are exactly the instructions of the blocks that
  ran while that key was the thread's focus (its innermost open region, or the leader's when the
  thread has none).\<close>

theorem region_counts_exact:
  assumes "ht_laws A" and "pt_laws A"
    and "1024 \<le> unat (opt_max_slots oc)" and "opt_max_slots oc \<le> 2 ^ 28"
    and "list_all event_ok es" and "run (step A) (init_world A oc main) es = Some w"
    and "counter_denied w = 0"
  shows "key_count w k s = tally A (init_world A oc main) es k s"
proof -
  have "key_count (init_world A oc main) k s = 0" by (simp add: key_count_def init_world_def)
  with run_counts [OF init_world_inv [OF assms(1-4)] assms(5,6), of k s] assms(7) show ?thesis by simp
qed

theorem region_counts_exact_witness:
  "key_count demo5 0 0 = 5 \<and> tally assoc_api demo demo_run 0 0 = 5"
proof -
  have "key_count demo5 0 0 = tally assoc_api demo demo_run 0 0"
    unfolding demo_def
    by (rule region_counts_exact [OF assoc_api_laws(1,2) demo_max_slots(1,2) demo_ok demo_runs [unfolded demo_def]])
      (rule demo5_denied)
  with demo_tally show ?thesis by simp
qed

text \<open>C2. No instruction is lost or counted twice: with block counters on, the sum of all
  counters of all arrays, the shared dummy array included, is the number of instructions that the
  instrumented blocks executed, whether or not counter memory was refused.\<close>

theorem counts_conserved:
  assumes "ht_laws A" and "pt_laws A"
    and "1024 \<le> unat (opt_max_slots oc)" and "opt_max_slots oc \<le> 2 ^ 28"
    and "list_all event_ok es" and "run (step A) (init_world A oc main) es = Some w"
    and "opt_block_counters oc"
  shows "all_counts w = executed es"
proof -
  have "all_counts (init_world A oc main) = 0" "opt_block_counters (init_world A oc main)"
    using assms(7) by (simp_all add: all_counts_def init_world_def)
  with run_counts [OF init_world_inv [OF assms(1-4)] assms(5,6)] show ?thesis by simp
qed

theorem counts_conserved_witness: "all_counts demo5 = 5"
  using counts_conserved [OF assoc_api_laws(1,2) demo_max_slots(1,2) demo_ok demo_runs [unfolded demo_def]
    demo_max_slots(3)] by (simp add: demo_executed)

text \<open>C3. The self costs of a thread partition what it executes inside regions: once all its
  regions are closed, the self sums over all keys add up to the instructions the thread executed
  while it had an open region, for every nesting, with implicit ends and unmatched ends.\<close>

theorem self_costs_partition:
  assumes "ht_laws A" and "pt_laws A"
    and "1024 \<le> unat (opt_max_slots oc)" and "opt_max_slots oc \<le> 2 ^ 28"
    and "list_all event_ok es" and "run (step A) (init_world A oc main) es = Some w"
    and "j < length (threads w)" and "stack (thr w j) = []"
  shows "self_total (thr w j) = inside A (init_world A oc main) es j"
  using run_account [OF init_world_inv [OF assms(1-4)] assms(5,6), of j] assms(7,8)
  by (simp add: account_of_def [of w] account_closed_thread)

theorem self_costs_partition_witness: "self_total (thr demo5 0) = 5"
proof -
  have "self_total (thr demo5 0) = inside assoc_api demo demo_run 0"
    unfolding demo_def
    by (rule self_costs_partition [OF assoc_api_laws(1,2) demo_max_slots(1,2) demo_ok demo_runs [unfolded demo_def]])
      (simp_all add: demo5_threads)
  with demo_inside_run show ?thesis by simp
qed

text \<open>C4. The inclusive cost of an instance is exact in any run: when a begin opens a region, the
  region stays open while anything happens on any thread, and its end comes with no other region
  open inside, then the end adds one instance to the key, with exactly the instructions and the
  system calls that the thread itself executed in between.\<close>

theorem inclusive_exact:
  assumes "ran A oc main es w" and "begins b" and "actor b = Some i" and "depth (thr w i) < MAX_DEPTH"
    and "step A w b = Some w1" and "run (step A) w1 fs = Some w2" and "list_all event_ok (b # fs)"
    and "stays_open A w1 fs i (depth (thr w i))" and "depth (thr w2 i) = depth (thr w1 i)"
    and "top_key (thr w1 i) = Some k" and "region (keys w2 ! k) = region_name reg" and "step A w2 (End i reg now) = Some w3"
  shows "depth (thr w3 i) = depth (thr w i) \<and>
    incl_sum (stats_base (thr w3 i) k) = incl_sum (stats_base (thr w2 i) k) + instrs_by fs i \<and>
    sys_sum (stats_base (thr w3 i) k) = sys_sum (stats_base (thr w2 i) k) + syscalls_by fs i \<and>
    kstats.count (stats_base (thr w3 i) k) = kstats.count (stats_base (thr w2 i) k) + 1"
proof -
  have inv: "world_inv A w1" using callbacks.step_inv [OF ran_inv [OF assms(1)] _ assms(5)] assms(7) by simp
  have B: "i < length (threads w1)" "depth (thr w1 i) = Suc (depth (thr w i))"
      "noted (thr w1 i) ! depth (thr w i) = (k, clocks (thr w1 i))"
    using begin_notes [OF assms(5,2-4)] assms(10) by auto
  have N: "noted (thr w2 i) ! depth (thr w i) = (k, total (thr w1 i), sys (thr w1 i))" "i < length (threads w2)"
      "total (thr w2 i) = total (thr w1 i) + instrs_by fs i" "sys (thr w2 i) = sys (thr w1 i) + syscalls_by fs i"
    using run_noted [OF inv _ assms(6) B(1) assms(8)] assms(7) B(3) by (simp_all add: clocks_def)
  have "pre_end A i reg now w2 = Some w3" using assms(12) by (simp add: step_def split: if_splits)
  from pre_end_sums [OF this N(2,1) _ assms(11)] assms(9) B(2) N(3,4) show ?thesis by simp
qed

theorem inclusive_exact_witness: "incl_sum (stats_base (thr demo5 0) 0) = incl_sum (stats_base (thr demo4 0) 0) + 5"
proof -
  let ?fs = "[Build 0 False 4096 5 None, Exec 0 (packed_word 0 5)]"
  have t: "thr demo1 0 = new_thread assoc_api 1 0" "thr demo2 0 = demo_thread 0" "thr demo3 0 = demo_thread 0"
      "thr demo4 0 = demo_thread 5"
    by (simp_all add: demo1_def demo2_def demo3_def demo_fields)
  have d: "depth (thr demo1 0) = 0" unfolding t(1) new_thread_def by simp
  have r: "run (step assoc_api) demo2 ?fs = Some demo4" by (simp add: demo_step3 demo_step4)
  have s: "stays_open assoc_api demo2 ?fs 0 (depth (thr demo1 0))" unfolding d by (simp add: t demo_step3 demo_step4 demo_depth demo_thread_fields)
  have k: "top_key (thr demo2 0) = Some 0" "region (keys demo4 ! 0) = region_name (Some ''a'')"
    using demo_find by (auto simp: t top_key_def demo_thread_fields demo_frame_def region_name_def demo_depth split: if_splits)
  have "incl_sum (stats_base (thr demo5 0) 0) = incl_sum (stats_base (thr demo4 0) 0) + instrs_by ?fs 0"
    using inclusive_exact [OF demo1_ran _ _ _ demo_step2 r _ s _ k demo_step5]
    unfolding d by (simp add: t demo_depth demo_thread_fields MAX_DEPTH_def)
  then show ?thesis by (simp add: demo_packed)
qed

text \<open>C5. At every moment of every run the counter pointer of a live thread is the array of
  its focus and its own index; it is the shared dummy array only when there is no focus or when a
  request for counter memory has been refused.\<close>

theorem pointer_follows_focus:
  assumes "ht_laws A" and "pt_laws A"
    and "1024 \<le> unat (opt_max_slots oc)" and "opt_max_slots oc \<le> 2 ^ 28"
    and "list_all event_ok es" and "run (step A) (init_world A oc main) es = Some w"
    and "j < length (threads w)" and "alive (thr w j)"
  shows "case cur (thr w j) of
      Arr a \<Rightarrow> \<exists>k. focus (shared_key w) (thr w j) = Some k \<and> tslots w k (min j (MAX_THREADS - 1)) = Some a
    | Dummy \<Rightarrow> focus (shared_key w) (thr w j) = None \<or> 0 < counter_denied w"
proof -
  have inv: "world_inv A w" by (rule callbacks.run_inv [OF init_world_inv [OF assms(1-4)] assms(5,6)])
  then have "index (thr w j) = min j (MAX_THREADS - 1)"
    using assms(7) by (simp add: world_inv_def control_inv_def base_inv_def)
  with focus_array [OF inv assms(7,8)] show ?thesis by (simp add: carr_ok_def split: carr.splits)
qed

theorem pointer_follows_focus_witness:
  "cur (thr demo5 0) = Dummy \<and> focus (shared_key demo5) (thr demo5 0) = None"
proof -
  have "case cur (thr demo5 0) of
      Arr a \<Rightarrow> \<exists>k. focus (shared_key demo5) (thr demo5 0) = Some k \<and> tslots demo5 k (min 0 (MAX_THREADS - 1)) = Some a
    | Dummy \<Rightarrow> focus (shared_key demo5) (thr demo5 0) = None \<or> 0 < counter_denied demo5"
    by (rule pointer_follows_focus [OF assoc_api_laws(1,2) demo_max_slots(1,2) demo_ok demo_runs [unfolded demo_def]])
      (simp_all add: demo5_threads)
  then show ?thesis by (simp add: demo5_threads demo5_denied)
qed

text \<open>In every run the comparison in \<open>steer_follower\<close> holds for every thread, also for one that
  has a region of its own open: \<open>set_thread_cur\<close> has made \<open>followed\<close> equal to the pointer. A leader that
  found the thread without a region a moment before still takes its pointer away, and the thread's
  blocks are then counted for the leader's key while its focus is its own.\<close>

theorem steer_unguarded:
  assumes "ran A oc main es w" and "i < length (threads w)"
  shows "steer_follower i a w = set_thread_cur i a w \<and> cur (thr (steer_follower i a w) i) = a \<and>
    focus sk (thr (steer_follower i a w) i) = focus sk (thr w i)"
proof -
  have "followed (thr w i) = cur (thr w i)"
    using ran_inv [OF assms(1)] assms(2) by (auto simp: world_inv_def control_inv_def thr_ok_def thr_base_def dest: threads_okD)
  then show ?thesis
    using assms(2) by (simp add: steer_follower_def set_thread_cur_def upd_thr_def upd_nth_def focus_def top_key_def)
qed

text \<open>C6. With the reads and writes of handlers interleaved, two threads at rest can be left with a wrong
  pointer until their next marker: one that opened a region while the leader was about to steer it
  counts into the leader's key, and one that closed its last region while the leader changed its key
  counts into the key that the leader has left.\<close>

theorem steer_race:
  "(\<exists>s. steered assoc_api two_threads s \<and> at s 0 = Quiet \<and> at s 1 = Quiet \<and>
      top_key (thr (cl s) 1) = Some 1 \<and> tslots (cl s) 0 1 = Some 2 \<and> cur (thr (cl s) 1) = Arr 2) \<and>
   (\<exists>s. steered assoc_api two_threads s \<and> at s 0 = Quiet \<and> at s 1 = Quiet \<and>
      stack (thr (cl s) 1) = [] \<and> shared_key (cl s) = Some 2 \<and> tslots (cl s) 0 1 = Some 1 \<and> cur (thr (cl s) 1) = Arr 1)"
proof
  obtain s where s: "play assoc_api opened_meanwhile two_threads = Some s" "at s 0 = Quiet" "at s 1 = Quiet"
      "top_key (thr (cl s) 1) = Some 1" "cur (thr (cl s) 1) = Arr 2" "tslots (cl s) 0 1 = Some 2"
    using opened_meanwhile by auto
  show "\<exists>s. steered assoc_api two_threads s \<and> at s 0 = Quiet \<and> at s 1 = Quiet \<and>
      top_key (thr (cl s) 1) = Some 1 \<and> tslots (cl s) 0 1 = Some 2 \<and> cur (thr (cl s) 1) = Arr 2"
    using s play_steered [OF steered.begins s(1)] by blast
  obtain s where s: "play assoc_api changed_meanwhile two_threads = Some s" "at s 0 = Quiet" "at s 1 = Quiet"
      "stack (thr (cl s) 1) = []" "shared_key (cl s) = Some 2" "cur (thr (cl s) 1) = Arr 1" "tslots (cl s) 0 1 = Some 1"
    using changed_meanwhile by auto
  show "\<exists>s. steered assoc_api two_threads s \<and> at s 0 = Quiet \<and> at s 1 = Quiet \<and>
      stack (thr (cl s) 1) = [] \<and> shared_key (cl s) = Some 2 \<and> tslots (cl s) 0 1 = Some 1 \<and> cur (thr (cl s) 1) = Arr 1"
    using s play_steered [OF steered.begins s(1)] by blast
qed

text \<open>C7. What interleaving cannot do: no two threads of different index ever add to the same array,
  and while a handler is under way some thread can take a step. The hypotheses on the start hold at
  the end of every run of whole handlers.\<close>

theorem steering_private:
  assumes "steered A s0 s" and "private_ok s0" and "lock_ok s0"
    and "i < length (threads (cl s))" "alive (thr (cl s) i)" and "j < length (threads (cl s))" "alive (thr (cl s) j)"
    and "index (thr (cl s) i) \<noteq> index (thr (cl s) j)" and "cur (thr (cl s) i) = Arr x"
  shows "cur (thr (cl s) j) \<noteq> Arr x \<and> (at s k \<noteq> Quiet \<longrightarrow> (\<exists>d. steer_step A d s \<noteq> None))"
  using steered_private [OF assms(1,2,4-9)] steered_moves [OF lock_ok_steered [OF assms(1,3)]] by blast

theorem steering_private_witness:
  "\<exists>s. steered assoc_api two_threads s \<and> cur (thr (cl s) 1) = Arr 2 \<and> cur (thr (cl s) 0) \<noteq> Arr 2"
proof -
  obtain s where s: "play assoc_api opened_meanwhile two_threads = Some s" "cur (thr (cl s) 1) = Arr 2"
      "length (threads (cl s)) = 2" "alive (thr (cl s) 0)" "alive (thr (cl s) 1)" "index (thr (cl s) 0) = 0" "index (thr (cl s) 1) = 1"
    using opened_meanwhile opened_threads by auto
  have "steered assoc_api two_threads s" by (rule play_steered [OF steered.begins s(1)])
  from steering_private [OF this two_threads_ok, of 1 0 2] this s(2-) show ?thesis by auto
qed

theorem run_then_steer:
  assumes "ran A oc main es w"
  shows "private_ok (all_quiet (client.truncate w)) \<and> lock_ok (all_quiet (client.truncate w))"
proof -
  have "control_inv A w" using ran_inv [OF assms] by (simp add: world_inv_def)
  then show ?thesis by (simp add: all_quiet_lock all_quiet_private [OF control_inv_truncate])
qed

text \<open>A thread that runs a begin or an end without the others taking turns does what the handler does in
  one step.\<close>

theorem handlers_alone:
  assumes "leader_lock s = None"
  shows "open_region i f s = Some s1 \<Longrightarrow> solo A i s1 (put i Quiet (begin_shared A i f (cl s)) s)"
    and "close_regions i d s = Some s1 \<Longrightarrow> solo A i s1 (put i Quiet (end_shared A i (cl s1)) s)"
  using begin_alone [OF _ assms] end_alone [OF _ assms] by blast+

section \<open>Keys\<close>

text \<open>C8. A marker call that has a key keeps it: after any sequence of calls by any threads, every
  thread is given the same key for the same region, states and root, whatever its caches hold.\<close>

theorem key_stable:
  assumes "interned_inv A g" and "list_all (\<lambda>(i, a). call_ok a) cs" and "gets (get_at A) cs g = Some g'"
    and "call_ok c" and "stored A g c k"
  shows "\<exists>g''. get_at A i c g' = Some (k, g'')"
  using assms by (rule keys_of.stable)

theorem key_stable_witness:
  "\<exists>g'. gets (get_at assoc_api) [(1, demo_call)] demo_shared = Some g' \<and>
     (\<exists>g''. get_at assoc_api 2 demo_call g' = Some (0, g''))"
proof -
  obtain g' where g: "get_at assoc_api 1 demo_call demo_shared = Some (0, g')"
    using get_at_known [OF demo_shared_inv demo_call_ok demo_call_stored] by blast
  then have "gets (get_at assoc_api) [(1, demo_call)] demo_shared = Some g'" by simp
  moreover have "\<exists>g''. get_at assoc_api 2 demo_call g' = Some (0, g'')"
    by (rule key_stable [OF demo_shared_inv _ calculation demo_call_ok demo_call_stored])
      (simp add: demo_call_ok)
  ultimately show ?thesis by blast
qed

text \<open>C9. For calls within the limits (names that fit the client's arrays, one to four states,
  no separator character in a name) the text under which a key is stored fits its buffer whole and
  determines the region, the states with their values and the root. The limits on the names are needed:
  with a separator in a name two calls that differ in their states have the same text, and so have all calls
  whose state names agree in the first 63 characters.\<close>

theorem key_text_faithful:
  assumes "snprintf_laws A" and "clean_call r sts rt" and "clean_call r' sts' rt'"
  shows "length (kbuf_of A r sts rt) \<le> 659 \<and>
    (kbuf_of A r sts rt = kbuf_of A r' sts' rt' \<longleftrightarrow> r = r' \<and> sts = sts' \<and> rt = rt') \<and>
    (\<exists>s s'. s \<noteq> s' \<and> short_call r s rt \<and> short_call r s' rt \<and> kbuf_of A r s rt = kbuf_of A r s' rt) \<and>
    (\<forall>x y z v. 63 \<le> length x \<longrightarrow> kbuf_of A r [(x @ y, v)] rt = kbuf_of A r [(x @ z, v)] rt)"
proof -
  have "length (kbuf_of A r sts rt) \<le> 659 \<and>
      (kbuf_of A r sts rt = kbuf_of A r' sts' rt' \<longleftrightarrow> r = r' \<and> sts = sts' \<and> rt = rt')"
    using assms kbuf_of_plain clean_short plain_key_inject [OF assms(2,3)] by metis
  moreover have "kbuf_of A r [([], 0), ([], 0)] rt = kbuf_of A r [(''=0'' @ [SOH], 0)] rt \<and>
      short_call r [([], 0), ([], 0)] rt \<and> short_call r [(''=0'' @ [SOH], 0)] rt"
    using separator_joins [OF assms(1) clean_short [OF assms(2)]] .
  ultimately show ?thesis using cut_names_join by (metis list.inject not_Cons_self2)
qed

theorem key_text_faithful_witness:
  "kbuf_of assoc_api ''a'' [([], 0)] [] \<noteq> kbuf_of assoc_api ''a'' [([], 1)] []"
proof -
  have "clean_call ''a'' [([], v)] []" for v
    by (simp add: clean_call_def short_call_def fits_def nul_free_def sep_free_def key_limits)
  from key_text_faithful [OF assoc_api_laws(3) this [of 0] this [of 1]] show ?thesis by simp
qed

text \<open>C10. The content cache in front of the key table never changes an answer: when it hits, the
  full look-up would have given the same key and left the shared state alone.\<close>

theorem fast_path_sound:
  assumes "snprintf_laws A" and "table_inv A s" and "cache_inv A s t" and "clean_call r sts rt"
    and "fast_hit (keys s) t r sts rt = Some i"
  shows "get_key A r sts par rt t s = Some (i, t, s) \<and> (\<exists>t'. get_key_slow A r sts par rt t s = Some (i, t', s))"
  using get_key_slow_known [OF assms(1,3,4) fast_hit_sound [OF assms(2-5)]] assms(5)
  by (simp add: get_key_def)

theorem fast_path_sound_witness:
  "get_key assoc_api ''a'' [([], 0)] [] [] (demo_thread 0) demo2 = Some (0, demo_thread 0, demo2)"
  using fast_path_sound [OF assoc_api_laws(3) demo_table_inv demo_cache_inv demo_clean demo_fast_hit] by blast

text \<open>C11. From an empty table, no sequence of marker calls by any threads gives a region that has an
  entry in \<open>region_keys\<close> more than 128 keys besides its shared bucket; and as long as that array is
  not full, every region is such a region.\<close>

theorem region_budget:
  fixes s :: "('h, 'z) keyst_scheme"
  assumes "keys s = []" and "region_keys s = []" and "gets (get_at A) cs (s, ts) = Some (s', ts')"
    and "list_all (\<lambda>(i, r, sts, par, rt). fits RNAME_MAX r) cs"
    and "length (region_keys s') < NREGION_KEYS \<or> r \<in> fst ` set (region_keys s')"
  shows "region_uses (keys s') r \<le> KEYS_PER_REGION"
proof -
  have "budget_inv s" using assms(1,2) by (simp add: budget_inv_def)
  then have "budget_inv s'" by (rule gets_budget [OF _ assms(4,3)])
  then show ?thesis using assms(5) by (rule budget_inv_uses)
qed

theorem region_budget_witness:
  "\<exists>s' ts'. gets (get_at assoc_api) [(0, demo_call)] demo_fresh = Some (s', ts') \<and>
     region_uses (keys s') ''a'' \<le> KEYS_PER_REGION"
proof -
  obtain s' ts' where g: "gets (get_at assoc_api) [(0, demo_call)] (fst demo_fresh, snd demo_fresh) = Some (s', ts')"
    and rk: "region_keys s' = [(''a'', 1)]"
    using demo_first_call by auto
  have "region_uses (keys s') ''a'' \<le> KEYS_PER_REGION"
    by (rule region_budget [OF demo_fresh_empty g])
      (simp_all add: rk demo_call_def fits_def nul_free_def key_limits)
  with g show ?thesis by auto
qed

text \<open>The cap per region covers the first 64 regions only: once \<open>region_keys\<close> is full, every
  further combination of any other region is granted, and nothing is recorded.\<close>

theorem budget_table_full:
  assumes "length rk = NREGION_KEYS" and "r \<notin> fst ` set rk"
  shows "region_key_budget rk r = (True, rk)"
  using assms budget_loop_None [of rk r] by (simp add: region_key_budget_def)

theorem budget_table_full_witness:
  "region_key_budget (map (\<lambda>i. (''r'' @ show_nat i, 1)) [0..<64]) ''late'' =
     (True, map (\<lambda>i. (''r'' @ show_nat i, 1)) [0..<64])"
  by (rule budget_table_full) (auto simp: NREGION_KEYS_def)

text \<open>C12. A region whose name has 160 characters or more escapes the cap and uses it up for the
  others: its entry holds the cut name, which never compares equal, so every new combination of it
  is granted and takes another entry.\<close>

theorem long_name_budget:
  assumes "nul_free r" and "RNAME_MAX \<le> length r" and "list_all (\<lambda>(r', n). length r' < RNAME_MAX) rk"
    and "length rk < NREGION_KEYS"
  shows "region_key_budget rk r = (True, rk @ [(take (RNAME_MAX - 1) r, 1)])"
proof -
  have "r \<notin> fst ` set rk" using assms(2,3) by (auto simp: list_all_iff)
  then show ?thesis
    using assms(1,4) budget_loop_None [of rk r] by (simp add: region_key_budget_def safe_strcpy_Some)
qed

theorem long_name_budget_witness:
  "length (snd (region_key_budget [(replicate 159 CHR ''x'', 1)] (replicate 160 CHR ''x''))) = 2"
  using long_name_budget [of "replicate 160 CHR ''x''" "[(replicate 159 CHR ''x'', 1)]"]
  by (simp add: nul_free_def key_limits)

section \<open>Markers\<close>

text \<open>C13. In any run in which the program's names fit and hold no separator, a begin below the depth
  limit pushes exactly one frame onto the stack of its thread: with the key of the region it named,
  the thread's instruction count and no children.\<close>

theorem begin_opens:
  assumes "ran A oc main es w" and "snprintf_laws A" and "list_all event_clean es"
    and "event_clean (Begin i r sn sv now)" and "step A w (Begin i r sn sv now) = Some w'"
    and "depth (thr w i) < MAX_DEPTH"
  shows "\<exists>f. stack (thr w' i) = stack (thr w i) @ [f] \<and> region (keys w' ! f_key f) = region_name r \<and>
    total_at_begin f = total (thr w i) \<and> children_incl f = 0"
proof -
  note N = ran_names [OF assms(1-3)] and inv = ran_inv [OF assms(1)]
  have i: "i < length (threads w)" and h: "handle A w (Begin i r sn sv now) = Some w'"
    using assms(5) by (auto simp: step_def enabled_def split: if_splits)
  let ?sts = "[((case sn of None \<Rightarrow> [] | Some s \<Rightarrow> s), sv)]"
  have cl: "clean_name RNAME_MAX (region_name r)" "clean_states ?sts"
    using assms(4) by (auto simp: clean_states_def clean_name_def key_limits fits_def nul_free_def sep_free_def split: option.splits)
  have "begin_common A i r ?sts now w = Some w'" using h by (simp add: pre_begin_def)
  from begin_common_names [OF _ N _ assms(2) i cl this] inv assms(6) show ?thesis
    by (auto simp: world_inv_def)
qed

theorem begin_opens_witness:
  "\<exists>f. stack (thr demo2 0) = [f] \<and> region (keys demo2 ! f_key f) = ''a''"
proof -
  have "\<exists>f. stack (thr demo2 0) = stack (thr demo1 0) @ [f] \<and>
      region (keys demo2 ! f_key f) = region_name (Some ''a'') \<and>
      total_at_begin f = total (thr demo1 0) \<and> children_incl f = 0"
    by (rule begin_opens [OF demo1_ran assoc_api_laws(3) _ _ demo_step2])
      (use demo_clean in \<open>simp_all add: region_name_def clean_name_def clean_call_def short_call_def demo1_def new_thread_def MAX_DEPTH_def\<close>)
  then show ?thesis by (auto simp: demo1_def new_thread_def region_name_def)
qed

text \<open>C14. An end closes the innermost open region of its name and everything inside it: the frames
  outside stay, one instance is counted for each closed frame's key, and an implicit end for each
  frame but the named one.\<close>

theorem end_closes:
  assumes "i < length (threads c)" and "pre_end A i reg now c = Some c'"
    and "find_frame (keys c) (stack (thr c i)) (region_name reg) (depth (thr c i)) = Some j"
  shows "spine (thr c' i) = take j (spine (thr c i)) \<and>
    region (keys c ! f_key (stack (thr c i) ! j)) = region_name reg \<and>
    (\<forall>m. j < m \<longrightarrow> m < depth (thr c i) \<longrightarrow> region (keys c ! f_key (stack (thr c i) ! m)) \<noteq> region_name reg) \<and>
    kstats.count (stats_base (thr c' i) k) = kstats.count (stats_base (thr c i) k) + keyed k (drop j (spine (thr c i))) \<and>
    implicit_ends (stats_base (thr c' i) k) =
      implicit_ends (stats_base (thr c i) k) + keyed k (drop (Suc j) (spine (thr c i)))"
  using pre_end_matched [OF assms(2,1,3), of k] find_frame_Some [OF assms(3)] by blast

theorem end_closes_witness: "stack (thr demo5 0) = [] \<and> kstats.count (stats_base (thr demo5 0) 0) = 1"
proof -
  have e: "pre_end assoc_api 0 (Some ''a'') 9 demo4 = Some demo5"
    using demo_step5 by (auto simp: step_def split: if_splits)
  have i: "0 < length (threads demo4)" by (simp add: demo_fields)
  have f: "find_frame (keys demo4) (stack (thr demo4 0)) (region_name (Some ''a'')) (depth (thr demo4 0)) = Some 0"
    using demo_find demo_depth [of 5] by (simp add: demo_fields region_name_def)
  have s: "spine (thr demo4 0) = [(0, Arr 0)]"
    by (simp add: demo_fields demo_thread_fields demo_frame_def spine_def)
  have z: "kstats.count (stats_base (thr demo4 0) 0) = 0"
    by (simp add: demo_fields demo_thread_fields stats_base_def kstats_zero_def)
  note E = end_closes [OF i e f, of 0]
  have "spine (thr demo5 0) = []" using conjunct1 [OF E] by simp
  moreover have "kstats.count (stats_base (thr demo5 0) 0) = 1" using E unfolding s z by simp
  ultimately show ?thesis by simp
qed

text \<open>C15. In every run, an end whose region name has 160 characters or more closes nothing: the
  keys hold cut names, so no frame compares equal, and only the number of unmatched ends changes.\<close>

theorem long_name_unmatched:
  assumes "ran A oc main es w" and "i < length (threads w)" and "alive (thr w i)"
    and "RNAME_MAX \<le> length r"
  shows "step A w (End i (Some r) now) = Some (w\<lparr>unmatched_ends := unmatched_ends w + 1\<rparr>)"
proof -
  have r: "region_name (Some r) = r" using assms(4) by (auto simp: region_name_def RNAME_MAX_def)
  have base: "thr_base A w (thr w i)"
    using ran_inv [OF assms(1)] assms(2) by (auto simp: world_inv_def control_inv_def thr_ok_def dest: threads_okD)
  have "region (keys w ! f_key (stack (thr w i) ! m)) \<noteq> r" if "m < depth (thr w i)" for m
  proof -
    have "f_key (stack (thr w i) ! m) < length (keys w)"
      using base nth_mem [OF that] by (auto simp: thr_base_def spine_def)
    then have "length (region (keys w ! f_key (stack (thr w i) ! m))) < RNAME_MAX"
      using ran_short [OF assms(1)] by (simp add: short_keys_def)
    then show ?thesis using assms(4) by auto
  qed
  then have "find_frame (keys w) (stack (thr w i)) r (depth (thr w i)) = None"
    unfolding find_frame_None by blast
  then show ?thesis using assms(2,3) by (simp add: step_def enabled_def pre_end_def r)
qed

theorem long_name_unmatched_witness:
  "step assoc_api demo2 (End 0 (Some (replicate 160 CHR ''a'')) 9) =
     Some (demo2\<lparr>unmatched_ends := unmatched_ends demo2 + 1\<rparr>)"
  by (rule long_name_unmatched [OF demo2_ran])
    (simp_all add: RNAME_MAX_def demo2_def demo_thread_fields)

text \<open>C16. In any run in which the program's names fit and hold no separator, the open regions of
  all threads, the unmatched ends and the overflows are what an abstract machine makes of the
  marker calls: a stack of names for each thread, on which a begin pushes below the depth limit and
  an end takes off the innermost region of its name with everything inside it.\<close>

theorem nesting_refines:
  assumes "ran A oc main es w" and "snprintf_laws A" and "list_all event_clean es"
  shows "nest_of w = fold nest_step es (\<lambda>_. [], 0, 0)"
  by (rule ran_nest [OF assms])

theorem nesting_refines_witness: "nest_of demo5 = (\<lambda>_. [], 0, 0)"
  using nesting_refines [OF demo_ran assoc_api_laws(3) demo_run_clean]
  by (simp add: demo_run_def nest_begin_def close_name_def region_name_def MAX_DEPTH_def fun_eq_iff)

text \<open>In every run no thread has more than 64 open regions, and a thread that has exited has
  none.\<close>

theorem depth_bounded:
  assumes "ran A oc main es w" and "j < length (threads w)"
  shows "depth (thr w j) \<le> 64 \<and> (\<not> alive (thr w j) \<longrightarrow> stack (thr w j) = [])"
proof -
  have "thr_base A w (thr w j)"
    using ran_inv [OF assms(1)] assms(2) by (auto simp: world_inv_def control_inv_def thr_ok_def dest: threads_okD)
  then show ?thesis by (simp add: thr_base_def MAX_DEPTH_def)
qed

theorem depth_bounded_witness: "depth (thr demo5 0) \<le> 64"
  using depth_bounded [OF demo_ran, of 0] by (simp add: demo5_threads)

text \<open>C17. At the depth limit a begin is only counted, so the end that belongs to it closes the
  enclosing instance instead when that has the same name: a balanced pair of calls leaves one region
  less open.\<close>

theorem overflow_unbalances:
  assumes "i < length (threads c)" and "depth (thr c i) = MAX_DEPTH"
    and "region (keys c ! f_key (last (stack (thr c i)))) = region_name r"
    and "pre_begin A i r sn sv now c = Some c1" and "pre_end A i r now' c1 = Some c2"
  shows "depth (thr c2 i) = MAX_DEPTH - 1 \<and> depth_overflows c1 = depth_overflows c + 1"
proof -
  have c1: "c1 = c\<lparr>marker_seen := True, depth_overflows := depth_overflows c + 1\<rparr>"
    using assms(2,4) by (simp add: pre_begin_def begin_common_def Let_def)
  have "stack (thr c i) ! (MAX_DEPTH - 1) = last (stack (thr c i))"
    using assms(2) by (metis last_conv_nth length_0_conv MAX_DEPTH_def zero_neq_numeral)
  then have "find_frame (keys c) (stack (thr c i)) (region_name r) (Suc (MAX_DEPTH - 1)) = Some (MAX_DEPTH - 1)"
    using assms(3) by simp
  then have "find_frame (keys c1) (stack (thr c1 i)) (region_name r) (depth (thr c1 i)) = Some (MAX_DEPTH - 1)"
    using assms(2) by (simp add: c1 MAX_DEPTH_def)
  then have "spine (thr c2 i) = take (MAX_DEPTH - 1) (spine (thr c1 i))"
    using pre_end_matched [OF assms(5), of "MAX_DEPTH - 1"] assms(1) by (simp add: c1)
  then have "length (spine (thr c2 i)) = MAX_DEPTH - 1" using assms(2) by (simp add: c1)
  then show ?thesis by (simp add: c1)
qed

definition deep :: "((string \<times> nat) list, (addr \<times> nat) list) world" where
  "deep = demo2\<lparr>threads := [(demo_thread 0)\<lparr>stack := replicate 64 demo_frame\<rparr>]\<rparr>"

theorem overflow_unbalances_witness:
  "\<exists>c1 c2. pre_begin assoc_api 0 (Some ''a'') None 0 7 deep = Some c1 \<and> pre_end assoc_api 0 (Some ''a'') 9 c1 = Some c2 \<and>
     depth (thr c2 0) = MAX_DEPTH - 1"
proof -
  have t: "threads deep = [(demo_thread 0)\<lparr>stack := replicate 64 demo_frame\<rparr>]" "keys deep = [demo_key]"
    "stats (thr deep 0) = None" "opt_trace deep = 500000" "stack (thr deep 0) = replicate 64 demo_frame"
    by (simp_all add: deep_def demo2_def demo1_def demo_def init_world_def demo_options_def demo_thread_fields)
  let ?c1 = "deep\<lparr>marker_seen := True, depth_overflows := depth_overflows deep + 1\<rparr>"
  have c1: "pre_begin assoc_api 0 (Some ''a'') None 0 7 deep = Some ?c1"
    by (simp add: pre_begin_def begin_common_def Let_def t MAX_DEPTH_def)
  have r: "region demo_key = ''a''" by (rule demo_key_call)
  have f: "find_frame [demo_key] (replicate 64 demo_frame) ''a'' 64 = Some 63"
    using find_frame.simps(2) [of "[demo_key]" "replicate 64 demo_frame" "''a''" 63]
    by (simp add: demo_frame_def r numeral_eq_Suc)
  obtain c2 where c2: "pre_end assoc_api 0 (Some ''a'') 9 ?c1 = Some c2"
    using pre_end_returns [of 0 ?c1 assoc_api "Some ''a''" 9]
    by (auto simp: t spine_def demo_frame_def MAX_KEYS_def assoc_simps)
  from overflow_unbalances [OF _ _ _ c1 c2] have "depth (thr c2 0) = MAX_DEPTH - 1"
    by (simp add: t MAX_DEPTH_def r region_name_def last_replicate demo_frame_def)
  with c1 c2 show ?thesis by blast
qed

text \<open>C18. The client never ends the program under test: in every state of any run, the handler
  of every callback that DynamoRIO can make there returns, as long as the allocations succeed and
  the table has room for a key; whatever is open, and however the calls are nested.\<close>

theorem never_aborts:
  assumes "ran A oc main es w" and "allocs_succeed A" and "length (keys w) < MAX_KEYS" and "enabled w e"
  shows "\<exists>w'. step A w e = Some w'"
  using step_returns [OF ran_inv [OF assms(1)] assms(2) _ assms(4)] assms(3) by (simp add: keys_left_def)

lemma assoc_allocs: "allocs_succeed assoc_api"
  by (simp add: allocs_succeed_def assoc_simps)

theorem never_aborts_witness: "\<exists>w'. step assoc_api demo4 (Thread_exit 0 9) = Some w'"
  by (rule never_aborts [OF demo4_ran assoc_allocs])
    (simp_all add: enabled_def demo_fields demo_thread_fields MAX_KEYS_def demo4_def demo3_def demo2_def)

text \<open>A thread's exit returns, whatever is open: provided its statistics can be allocated and its
  keys have entries there, every open region is closed as an implicit end of its key, the thread is
  dead and its instruction count is kept.\<close>

theorem exit_closes:
  assumes "i < length (threads c)" and "stats (thr c i) \<noteq> None \<or> stats_alloc A i"
    and "\<forall>f \<in> set (stack (thr c i)). f_key f < MAX_KEYS"
  shows "\<exists>c'. event_thread_exit A i now c = Some c' \<and> stack (thr c' i) = [] \<and> \<not> alive (thr c' i) \<and>
    final_total (thr c' i) = total (thr c i) \<and>
    (\<forall>k. implicit_ends (stats_base (thr c' i) k) =
       implicit_ends (stats_base (thr c i) k) + keyed k (spine (thr c i)))"
proof -
  have "\<exists>c1. close_above A i (total (thr c i)) (seq_counter c + 1) now 0 (c\<lparr>seq_counter := seq_counter c + 1\<rparr>) = Some c1"
    by (rule close_above_returns) (use assms in \<open>auto simp: spine_def\<close>)
  then obtain c' where "event_thread_exit A i now c = Some c'"
    by (auto simp: event_thread_exit_def Let_def)
  with thread_exit_effect [OF assms(1) this] show ?thesis by blast
qed

theorem exit_closes_witness:
  "\<exists>c'. event_thread_exit assoc_api 0 9 demo4 = Some c' \<and> stack (thr c' 0) = []"
  using exit_closes [of 0 demo4 assoc_api 9]
  by (auto simp: demo_fields demo_thread_fields assoc_simps demo_frame_def MAX_KEYS_def)

section \<open>Memory and blocks\<close>

text \<open>C19. In every run the counter arrays handed out take exactly the bytes that are accounted for,
  never more than 96 GB, and each array belongs to one key and one thread index. When the client
  gives its memory back at exit, no block is freed twice, and the counter arrays that are freed are
  all those that were handed out, provided the output file can be opened.\<close>

theorem counter_memory:
  fixes w :: "('h, 'p) world"
  assumes "ran A oc main es w"
  shows "unat (counter_bytes w) = narrays w * (unat (opt_max_slots w) * 8) \<and> unat (counter_bytes w) \<le> 96 * 2 ^ 30 \<and>
    (\<forall>k i k' i' a. tslots w k i = Some a \<longrightarrow> tslots w k' i' = Some a \<longrightarrow> k = k' \<and> i = i') \<and>
    (\<forall>v :: ('h, 'p) xworld. world.truncate v = w \<longrightarrow>
       distinct (exit_frees E v) \<and>
       (opens E (opt_out v) \<longrightarrow> {a. Counter_array a \<in> set (exit_frees E v)} = {..<narrays w}))"
proof -
  have m: "mem_inv w" using ran_inv [OF assms] by (simp add: world_inv_def control_inv_def base_inv_def)
  then have "counter_bytes w \<le> COUNTER_BUDGET" by (rule mem_inv_budget)
  then have "unat (counter_bytes w) \<le> 96 * 2 ^ 30" by (simp add: word_le_nat_alt unat_budget)
  moreover have "k = k' \<and> i = i'" if "tslots w k i = Some a" "tslots w k' i' = Some a" for k i k' i' a
    by (rule mem_inv_private [OF m that])
  moreover have "distinct (exit_frees E v)" "opens E (opt_out v) \<Longrightarrow> {a. Counter_array a \<in> set (exit_frees E v)} = {..<narrays w}"
    if "world.truncate v = w" for v :: "('h, 'p) xworld"
    using exit_frees_world [of v E] m ran_holds [OF assms] that by simp_all
  ultimately show ?thesis using m by (simp add: mem_inv_def)
qed

theorem counter_memory_witness:
  "unat (counter_bytes demo5) = narrays demo5 * (unat (opt_max_slots demo5) * 8) \<and> distinct (exit_frees demo_exit (at_exit assoc_api demo5))"
proof -
  have "world.truncate (at_exit assoc_api demo5) = demo5" by (simp add: at_exit_def world.defs)
  with counter_memory [OF demo_ran] show ?thesis by blast
qed

text \<open>C20. Calls of \<open>slots_for\<close> on several threads, in any interleaving of their reads, writes and
  lock operations, give what they give as one step each, one after the other in some order: every
  call gets the result it has there, the memory is the one made there whenever the lock is free, and
  calls decided by an earlier moment come before all others. While a call has not returned, some
  call can move.\<close>

theorem slots_linear:
  assumes "interleaved A args (calls_start m0) s" and "interleaved A args s s'"
  shows "\<exists>cs rs m cs' rs' m'. in_order A args cs m0 = (rs, m) \<and> in_order A args cs' m = (rs', m') \<and> distinct (cs @ cs') \<and>
    (\<forall>c r. (c, r) \<in> set rs \<longleftrightarrow> outcome (pcs s c) = Some r) \<and>
    (\<forall>c r. (c, r) \<in> set (rs @ rs') \<longleftrightarrow> outcome (pcs s' c) = Some r) \<and>
    (keys_lock s' = None \<longrightarrow> shared s' = m') \<and>
    (\<forall>c. (\<forall>r. pcs s' c \<noteq> A_done r) \<longrightarrow> (\<exists>d. call_step A args d s' \<noteq> None))"
proof -
  obtain cs rs m where 1: "linear A args m0 s cs rs m" using interleaved_linear [OF assms(1) linear_start] by auto
  obtain cs' rs'' m' where 2: "linear A args m0 s' (cs @ cs') rs'' m'" using interleaved_linear [OF assms(2) 1] by blast
  then obtain rs' where "in_order A args cs' m = (rs', m')" "rs'' = rs @ rs'"
    using in_order_append [of A args cs cs' m0 rs'' m'] 1 by (auto simp: linear_def)
  moreover have "\<forall>c. (\<forall>r. pcs s' c \<noteq> A_done r) \<longrightarrow> (\<exists>d. call_step A args d s' \<noteq> None)"
    using interleaved_moves [OF interleaved_trans [OF assms]] by blast
  moreover note linear_parts [OF 1] linear_parts [OF 2]
  ultimately show ?thesis by (intro exI [of _ cs] exI [of _ rs] exI [of _ m] exI [of _ cs'] exI [of _ rs'] exI [of _ m']) simp
qed

theorem slots_linear_witness:
  "\<exists>cs rs m cs' rs'. in_order assoc_api same_array cs some_mem = (rs, m) \<and> set rs = {} \<and>
     in_order assoc_api same_array cs' m = (rs', shared both_done) \<and> set rs' = {(0, Arr 0), (1, Arr 0)}"
proof -
  obtain cs rs m cs' rs' m' where i: "in_order assoc_api same_array cs some_mem = (rs, m)"
      "in_order assoc_api same_array cs' m = (rs', m')"
    and r: "\<And>c r. (c, r) \<in> set rs \<longleftrightarrow> outcome (pcs both_read c) = Some r"
      "\<And>c r. (c, r) \<in> set (rs @ rs') \<longleftrightarrow> outcome (pcs both_done c) = Some r"
    and m: "keys_lock both_done = None \<longrightarrow> shared both_done = m'"
    using slots_linear [OF both_read_reached both_done_reached] by (elim exE conjE) (rule that; blast)
  have none: "x \<notin> set rs" for x
    using r(1) [of "fst x" "snd x"] by (simp add: both_read_outcome)
  have "x \<in> set rs' \<longleftrightarrow> x \<in> {(0, Arr 0), (1, Arr 0)}" for x
    using r(2) [of "fst x" "snd x"] none [of x] by (cases x) (simp add: both_done_outcome)
  then have "set rs' = {(0, Arr 0), (1, Arr 0)}" by (rule set_eqI)
  moreover have "set rs = {}" by (rule equals0I) (use none in blast)
  moreover have "in_order assoc_api same_array cs' m = (rs', shared both_done)" using i(2) m both_done_free by simp
  ultimately show ?thesis using i(1) by blast
qed

text \<open>A block's address keeps the slot it was given for the rest of the run, building it again
  changes nothing, and no other address has that slot.\<close>

theorem block_slot:
  assumes "ran A oc main es w" and "pt_lookup A (slot_table w) pc = Some v"
    and "list_all event_ok fs" and "run (step A) w fs = Some w'" and "n < 2 ^ 31"
  shows "slot_of (fst (event_analysis A i pc n mo w')) = v - 1 \<and> snd (event_analysis A i pc n mo w') = w' \<and>
    (\<forall>pc'. pt_lookup A (slot_table w') pc' = Some v \<longrightarrow> pc' = pc)"
proof -
  note inv = ran_inv [OF assms(1)]
  have inv': "world_inv A w'" by (rule callbacks.run_inv [OF inv assms(3,4)])
  have v: "pt_lookup A (slot_table w') pc = Some v" by (rule run_slot_kept [OF inv assms(3,4,2)])
  have "pc' = pc" if "pt_lookup A (slot_table w') pc' = Some v" for pc'
    using known_slot(3) [OF inv' v assms(5)] known_slot(3) [OF inv' that assms(5)] by simp
  then show ?thesis using known_slot(1,2) [OF inv' v assms(5)] by blast
qed

theorem block_slot_witness: "slot_of (fst (event_analysis assoc_api 0 4096 5 None demo4)) = 0"
proof -
  have r: "run (step assoc_api) demo4 [] = Some demo4" by simp
  have "pt_lookup assoc_api (slot_table demo4) 4096 = Some 1"
    by (simp add: demo4_def demo3_def assoc_simps)
  from block_slot [OF demo4_ran this _ r, of 5] show ?thesis by simp
qed

text \<open>C21. The instructions inserted into a block of \<open>n\<close> instructions with slot \<open>slot\<close> add \<open>n\<close> to the
  thread's total and, unless block counters are off, to the entry of its slot in the array the
  thread's pointer names, and do nothing else, for every slot below \<open>2 ^ 28\<close> and count below
  \<open>2 ^ 31\<close>.\<close>

theorem block_counts:
  assumes "slot < 2 ^ 28" and "0 < n" and "n < 2 ^ 31" and "i < length (threads w)"
  shows "exec_block i (packed_word slot n) w = Some
    (let w' = upd_thr i (\<lambda>t. t\<lparr>total := total t + n\<rparr>) w
     in if opt_block_counters w then bump (cur (thr w i)) (unat slot) n w' else w')"
  using exec_block_counted [OF assms] by (simp add: counted_def)

theorem block_counts_witness:
  "\<exists>w'. exec_block 0 (packed_word 0 5) demo3 = Some w' \<and> total (thr w' 0) = 5"
  using block_counts [of 0 5 0 demo3]
  by (auto simp: demo3_def demo2_def demo_thread_def Let_def bump_def upd_thr_def split: carr.split)

text \<open>From slot \<open>2 ^ 28\<close> on the 32-bit displacement of the inserted addition is negative: the
  count would be written in front of the array. \<open>-max_slots\<close> accepts such sizes.\<close>

theorem displacement_wraps:
  assumes "2 ^ 28 \<le> slot" and "slot < 2 ^ 29" and "0 < n" and "n < 2 ^ 31" and "i < length (threads w)"
    and "opt_block_counters w"
  shows "exec_block i (packed_word slot n) w = None"
proof -
  have s: "slot < 2 ^ 32" using assms(2) by (simp add: word_less_nat_alt)
  have p: "drop_bit 32 (packed_word slot n) = slot" "packed_word slot n AND 0xffffffff = (n AND 0xffffffff)"
    unfolding packed_word_def by (rule packed_slot [OF s], rule packed_count)
  show ?thesis
    using disp_negative [OF assms(1,2)] assms(3,6) ucast_low_eq_0 [OF assms(4)]
    by (simp add: exec_block_def event_insert_def p exec_meta_def Let_def)
qed

theorem displacement_wraps_witness: "exec_block 0 (packed_word (2 ^ 28) 5) demo3 = None"
  by (rule displacement_wraps)
    (simp_all add: demo3_def demo2_def demo1_def demo_def init_world_def demo_options_def)

section \<open>The files written at exit\<close>

definition two_syms :: sym_api where
  "two_syms = \<lparr>sym_enumerate = (\<lambda>_. [(Sym_success, Some ''f'', 16), (Sym_success, Some ''g'', 4)]),
     sym_lookup = (\<lambda>_ _. \<lparr>i_status = Sym_other, i_name = [], i_start = 0, i_end = 0\<rparr>),
     qsort_msym = sort_key offs\<rparr>"

text \<open>C22. The report of any run in which no counter array was refused has one entry per key, in the
  order of their creation, and the sums in an entry are right: the whole is what the key's focus
  threads executed, and the parts by module and by symbol each add up to it.\<close>

theorem report_right:
  fixes A :: "('h, 'p) dr_api"
  assumes "ran A oc main es w" and "counter_denied w = 0" and "opens E (opt_out w)"
  shows "\<exists>R. main_file (event_exit A Y E (at_exit A w)) = Some
      (head_text A E (at_exit A w) (sym_buf A 560 (opt_out w @ ''.trace'')) @ modules_text (at_exit A w) @
       threads_text (at_exit A w) @
       concat (map (\<lambda>i. case R i of (T, v :: ('h, 'p) xworld) \<Rightarrow> key_entry i T v) [0..<length (keys w)]) @
       NL # ''  ]'' @ [NL] @ ''}'' @ [NL]) \<and>
    (\<forall>i<length (keys w). case R i of (T, v) \<Rightarrow>
       slot_total T = (\<Sum>s<unat (next_slot w). tally A (init_world A oc main) es i s) \<and>
       (\<Sum>m<Suc (length (modules w)). mod_sum T m) = slot_total T \<and>
       (\<Sum>y<length (syms v). sym_sum T y) = slot_total T)"
proof -
  have laws: "ht_laws A" "pt_laws A" "1024 \<le> unat (opt_max_slots oc)" "opt_max_slots oc \<le> 2 ^ 28"
    "list_all event_ok es" "run (step A) (init_world A oc main) es = Some w"
    using assms(1) by (simp_all add: ran_def)
  have kc: "key_count w i s = tally A (init_world A oc main) es i s" for i s
  proof -
    have "key_count (init_world A oc main) i s = 0" by (simp add: key_count_def init_world_def)
    with run_counts [OF init_world_inv [OF laws(1-4)] laws(5,6), of i s] assms(2) show ?thesis by simp
  qed
  show ?thesis
    using event_exit_main [OF laws(1) ran_mods [OF assms(1)] assms(3), of Y] unfolding kc by blast
qed

theorem report_right_witness:
  "\<exists>t. main_file (event_exit assoc_api two_syms demo_exit (at_exit assoc_api demo5)) = Some t"
  using report_right [OF demo_ran demo5_denied, of demo_exit two_syms] by (auto simp: demo_exit_def)

text \<open>The total that the report gives is the number of instructions executed by all threads in
  instrumented blocks, in any run: threads that have exited count with what they had.\<close>

theorem total_instrs:
  assumes "ran A oc main es w"
  shows "(\<Sum>t\<leftarrow>rev (threads w). thread_total t) = executed es"
proof -
  have laws: "ht_laws A" "pt_laws A" "1024 \<le> unat (opt_max_slots oc)" "opt_max_slots oc \<le> 2 ^ 28"
    "list_all event_ok es" "run (step A) (init_world A oc main) es = Some w"
    using assms by (simp_all add: ran_def)
  have "total_of (init_world A oc main) = 0" by (simp add: total_of_def init_world_def)
  with run_total [OF init_world_inv [OF laws(1-4)] laws(5,6)] show ?thesis
    by (simp add: total_of_def sum_list_rev rev_map [symmetric])
qed

theorem total_instrs_witness: "(\<Sum>t\<leftarrow>rev (threads demo5). thread_total t) = 5"
  using total_instrs [OF demo_ran] by (simp add: demo_executed)

text \<open>C23. The trace file of any run has exactly as many lines as the report gives for
  \<open>trace_records\<close>, at most \<open>-trace\<close> of them, and the closed regions that have no line are those
  counted as dropped.\<close>

theorem trace_lines:
  assumes "ran A oc main es w" and "0 < opt_trace w" and "\<And>x. NL \<notin> set (stamp_text E x)"
  shows "int (lines_of (write_trace E w)) = (if opt_trace w < trace_records w then opt_trace w else trace_records w) \<and>
    int (lines_of (write_trace E w)) + trace_dropped w = trace_records w"
  using ran_trace [OF assms(1)] assms(2) by (auto simp: lines_write_trace [OF assms(3)] trace_inv_def)

theorem trace_lines_witness: "lines_of (write_trace demo_exit demo5) = 1"
proof -
  have "opt_trace demo5 = 500000" "trace_records demo5 = 1" by (simp_all add: demo5_def demo_fields)
  with trace_lines [OF demo_ran, of demo_exit] show ?thesis by (simp add: demo_exit_def NL_def)
qed

text \<open>C24. The record that \<open>write_key\<close> puts into the \<open>.blocks\<close> file for a key of a run can be read
  back: index, region, states with their values, root, number of instances, and the count of every
  block that has one.\<close>

theorem blocks_roundtrip:
  assumes "ran A oc main es w" and "i < length (keys w)" and "stops r"
  shows "read_record (blocks_record (keys w ! i) st T n @ r) = (let k = keys w ! i in Some
    (\<lparr>b_index = int (k_index k), b_region = region k, b_nk = (if overflow k then -1 else int (nkstates k)),
      b_states = map (\<lambda>j. (kname k ! j, sint (kval k ! j))) [0..<nkstates k], b_root = root k,
      b_count = int (unat (kstats.count st)),
      b_slots = map (\<lambda>s. (int s, int (unat (vec T s)))) (filter (\<lambda>s. vec T s \<noteq> 0) [0..<n])\<rparr>, r))"
  using ran_keys_ok [OF assms(1)] assms(2,3) read_blocks_record [of "keys w ! i" r]
  by (simp add: keys_ok_def list_all_length Let_def)

theorem blocks_roundtrip_witness:
  "map_option (\<lambda>(b, s). (b_region b, s)) (read_record (blocks_record (keys demo5 ! 0) kstats_zero no_totals 3)) =
     Some (region (keys demo5 ! 0), [])"
proof -
  have "0 < length (keys demo5)" by (simp add: demo5_def demo4_def demo3_def demo2_def)
  from blocks_roundtrip [OF demo_ran this, of "[]" kstats_zero no_totals 3] show ?thesis by (simp add: Let_def)
qed

text \<open>Every C string comes back from its JSON form, whatever follows it, and the form holds no
  control character.\<close>

theorem json_strings:
  assumes "nul_free s"
  shows "read_json_str (json_str s @ r) = Some (s, r) \<and> (\<forall>c \<in> set (json_str s). 0x20 \<le> (of_char c :: nat))"
  using read_json_str_json_str [OF assms] json_str_printable by blast

theorem json_strings_witness: "read_json_str (json_str [NL, QUOTE, BSLASH]) = Some ([NL, QUOTE, BSLASH], [])"
  using json_strings [of "[NL, QUOTE, BSLASH]" "[]"] by (simp add: nul_free_def NL_def QUOTE_def BSLASH_def)

text \<open>C25. The table kept while the symbols are looked at, \<open>cap\<close> entries updated in place, is the
  first \<open>cap\<close> of all symbols ranked by count, earlier ones first among equals.\<close>

theorem topn_is_best:
  assumes "0 < cap"
  shows "top_symbols cap T w = take (nat cap) (ranked [(i, sym_sum T i). i \<leftarrow> [0..<length (syms w)], sym_sum T i \<noteq> 0]) \<and>
    descending (ranked xs) \<and> mset (ranked xs) = mset xs"
  using top_symbols_spec [OF assms] ranked_spec by blast

theorem topn_is_best_witness: "top_symbols 2 no_totals (at_exit assoc_api demo5) = []"
  using topn_is_best [of 2 no_totals "at_exit assoc_api demo5" "[]"] by (simp add: no_totals_def ranked_def)

section \<open>Symbols and statistics\<close>

text \<open>C26. The binary search over the symbols of a module gives the last symbol at or below the
  offset, and none exactly when there is none, whatever order the library reported them in.\<close>

theorem nearest_is_right:
  assumes "qsort_laws Y" and "\<not> ms_done ms" and "ms_syms ms = []"
  shows "case fst (nearest_symbol Y path o' ms) of
      Some x \<Rightarrow> last_below (reported (sym_enumerate Y path)) o' x
    | None \<Rightarrow> \<forall>y \<in> set (reported (sym_enumerate Y path)). o' < offs y"
proof -
  note L = load_syms_spec [OF assms, of path]
  have s: "set (ms_syms (load_syms Y path ms)) = set (reported (sym_enumerate Y path))"
    by (rule mset_eq_setD [OF L(2)])
  show ?thesis
    using nearest_Some [OF L(1)] nearest_None [OF L(1), of o'] s
    by (auto simp: nearest_symbol_def Let_def last_below_def split: option.split)
qed

lemma two_syms_laws: "qsort_laws two_syms"
  by (simp add: qsort_laws_def two_syms_def sorted_cmp)

theorem nearest_is_right_witness:
  "\<exists>x. fst (nearest_symbol two_syms ''m'' 10 \<lparr>ms_syms = [], ms_cap = 0, ms_done = False\<rparr>) = Some x \<and> offs x \<le> 10"
proof -
  let ?m = "\<lparr>ms_syms = [], ms_cap = 0, ms_done = False\<rparr>"
  have r: "reported (sym_enumerate two_syms ''m'') = [\<lparr>offs = 16, ms_name = ''f''\<rparr>, \<lparr>offs = 4, ms_name = ''g''\<rparr>]"
    by (simp add: two_syms_def SYM_MAX_def)
  show ?thesis
    using nearest_is_right [OF two_syms_laws, of ?m "''m''" 10]
    by (auto simp: r last_below_def split: option.splits)
qed

text \<open>Looking up the symbol of a slot at exit always gives an index into the symbol table, the
  table never grows beyond the number of slots in use (the size of the array \<open>sym_sum\<close> that it
  indexes), and asking again gives the same index and changes nothing.\<close>

theorem symbol_in_range:
  assumes "ht_laws A" and "syms_inv A n w" and "slot < n" and "sym_index_for_slot A Y slot w = (si, w')"
  shows "0 \<le> si \<and> si < int (length (syms w')) \<and> length (syms w') \<le> n \<and> syms_inv A n w' \<and>
    sym_index_for_slot A Y slot w' = (si, w')"
  using sym_index_for_slot_inv [OF assms] sym_index_for_slot_again [OF assms(4)] by blast

theorem symbol_in_range_witness:
  "0 \<le> fst (sym_index_for_slot assoc_api two_syms 0 (at_exit assoc_api demo5))"
proof -
  obtain si w' where s: "sym_index_for_slot assoc_api two_syms 0 (at_exit assoc_api demo5) = (si, w')"
    by (cases "sym_index_for_slot assoc_api two_syms 0 (at_exit assoc_api demo5)")
  have "0 < unat (next_slot demo5)" by (simp add: demo5_def demo4_def demo3_def)
  from symbol_in_range [OF assoc_api_laws(1) at_exit_inv(2) [OF ran_mods [OF demo_ran] assoc_api_laws(1)] this s] s
  show ?thesis by simp
qed

text \<open>C27. The number of instances reported for a key is, once all regions are closed, exactly the
  number of begins that opened it, over all threads: no instance is lost or counted twice, in any
  nesting, with implicit ends, unmatched ends and overflows. While regions are open, each thread's
  count and its open frames of the key add up to its begins.\<close>

theorem instances_exact:
  assumes "ran A oc main es w"
  shows "(\<forall>j<length (threads w). kstats.count (stats_base (thr w j) k) + keyed k (spine (thr w j)) =
      begins_of A (init_world A oc main) es j k) \<and>
    (k < length (keys w) \<and> (\<forall>j<length (threads w). stack (thr w j) = []) \<longrightarrow>
      kstats.count (key_merged (at_exit A w) (keys w ! k)) =
        (\<Sum>j<length (threads w). begins_of A (init_world A oc main) es j k))"
proof -
  have 1: "kstats.count (stats_base (thr w j) k) + keyed k (spine (thr w j)) = begins_of A (init_world A oc main) es j k"
    if "j < length (threads w)" for j k
    using ran_ledger [OF assms that] by (simp add: ledger_def)
  have "kstats.count (stats_base (thr w j) k) = begins_of A (init_world A oc main) es j k"
    if "j < length (threads w)" "stack (thr w j) = []" for j
    using 1 [OF that(1)] that(2) by (simp add: spine_def)
  then show ?thesis
    using 1 ran_numbered [OF assms] by (simp add: count_key_merged threads_at_exit)
qed

theorem instances_exact_witness: "kstats.count (key_merged (at_exit assoc_api demo5) (keys demo5 ! 0)) = 1"
proof -
  have "0 < length (keys demo5)" by (simp add: demo5_def demo4_def demo3_def demo2_def)
  then show ?thesis
    using instances_exact [OF demo_ran, of 0] demo_opens by (simp add: demo_def demo5_threads)
qed

text \<open>C28. Merging the threads' records of a key at exit gives the summary of all instances that
  all threads closed, as if one thread had closed them: number, sums, minima and maxima. With no
  instance everything is 0.\<close>

theorem merge_is_summary:
  assumes "list_all2 opt_rep ss xss" and "length (concat xss) < 2 ^ 64"
  shows "merge_stats ss = (if concat xss = [] then kstats_zero else summary (concat xss))"
  using assms by (rule merge_stats_summary)

theorem merge_is_summary_witness:
  "merge_stats [Some (stats_add demo_sample (stats_touch kstats_zero)), None] = summary [demo_sample]"
proof -
  have "stats_rep (stats_add demo_sample (stats_touch kstats_zero)) ([] @ [demo_sample])"
    by (rule stats_add_rep) (simp_all add: stats_rep_def)
  then have "list_all2 opt_rep [Some (stats_add demo_sample (stats_touch kstats_zero)), None] [[demo_sample], []]"
    by (simp add: opt_rep_def)
  from merge_is_summary [OF this] show ?thesis by simp
qed

section \<open>Start\<close>

text \<open>C29. Whatever the command line, a client that starts has between 1024 and \<open>2 ^ 31 - 1\<close>
  counter slots, at least one line per symbol table, a trace limit that is not negative and an
  output name that fits its buffer.\<close>

theorem options_in_range:
  assumes "scan_laws S" and "dr_client_main A S args = Some w"
  shows "1024 \<le> unat (opt_max_slots w) \<and> unat (opt_max_slots w) < 2 ^ 31 \<and> 1 \<le> opt_top w \<and> 0 \<le> opt_trace w \<and>
    length (opt_out w) < 512"
  by (rule dr_client_main_inv [OF assms(2,1)]) (simp add: options_inv_def opts_ok_def init_world_def)

definition plain_start :: start_api where
  "plain_start = \<lparr>scan_d = (\<lambda>_. None), start_pid = 7, exts_ok = True, drsym_ok = True, bufs_ok = True, main_start = None\<rparr>"

theorem options_in_range_witness:
  "\<exists>w. dr_client_main assoc_api plain_start [''-top'', ''x'', ''-blocks''] = Some w \<and> 1 \<le> opt_top w"
proof -
  have "\<exists>w. dr_client_main assoc_api plain_start [''-top'', ''x'', ''-blocks''] = Some w"
    by (simp add: dr_client_main_def plain_start_def value_option_def flag_option_def at_least_def)
  then obtain w where w: "dr_client_main assoc_api plain_start [''-top'', ''x'', ''-blocks''] = Some w" by blast
  have "scan_laws plain_start" by (simp add: scan_laws_def plain_start_def)
  from options_in_range [OF this w] w show ?thesis by blast
qed

text \<open>An argument that is no option ends the process before anything is set up, wherever
  the options before it were well formed flags.\<close>

theorem unknown_option_aborts:
  assumes "flag_option a = None" and "\<And>x. value_option A S a x = None"
    and "list_all (\<lambda>b. flag_option b \<noteq> None) flags"
  shows "dr_client_main A S (flags @ a # args) = None"
proof -
  have no: "value_option A S b x = None" if "flag_option b \<noteq> None" for b x
    using that by (auto simp: flag_option_def value_option_def split: if_splits)
  have "parse_options A S (flags @ a # args) oc = None" for oc
    using assms(3)
  proof (induction flags arbitrary: oc)
    case Nil
    then show ?case using assms(1,2) by (cases args) simp_all
  next
    case (Cons b flags)
    then obtain f where "flag_option b = Some f" by auto
    then show ?case using Cons no [of b] by (cases "flags @ a # args") auto
  qed
  then show ?thesis by (simp add: dr_client_main_def)
qed

theorem unknown_option_aborts_witness: "dr_client_main assoc_api plain_start [''-verbose'', ''-x'', ''-top''] = None"
  using unknown_option_aborts [of "''-x''" assoc_api plain_start "[''-verbose'']" "[''-top'']"]
  by (simp add: flag_option_def value_option_def)

section \<open>The marker library\<close>


text \<open>In a process that already runs under DynamoRIO, a successful late attach makes the client
  see the first begin twice: once at its entry and once through the repeated call.\<close>

theorem attach_twice:
  assumes "attach_state m = 0" and "under_dr m" and "attaches E"
  shows "seen (perfmark_begin E r nm v m) = seen m @ [Mark_begin r nm v, Mark_begin r nm v]"
  using begin_marker_twice [OF assms] by (simp add: perfmark_begin_def)

theorem attach_twice_witness:
  "seen (perfmark_begin \<lparr>late = True, start_code = Some 0\<rparr> ''a'' ''n'' 4 (fresh_lib\<lparr>under_dr := True\<rparr>)) =
     [Mark_begin ''a'' ''n'' 4, Mark_begin ''a'' ''n'' 4]"
  by (subst attach_twice) (simp_all add: fresh_lib_def attaches_def)

section \<open>The Python extension\<close>

text \<open>C31. A \<open>Region\<close> that could be made, with its lists still holding what was checked, never faults: entering
  it calls the begin for its name and states and one \<open>perfmark_state\<close> for each extra pair, in order,
  and leaving it calls the end. Entering fails exactly when one of the first eight values has more
  than 64 bits, and has then opened the region with -1 in its place.\<close>

theorem region_calls:
  assumes "Region_init h args rg = (Inr (), rg')"
    and "\<And>l. rg_states rg' = Some l \<or> rg_extra rg' = Some l \<Longrightarrow> heap st l = h l"
  shows "\<exists>n. rg_name rg' = Some n \<and>
    Region_enter E rg' st =
      Some (if list_all (\<lambda>s. fits64 (snd s)) (take MAX_KEY_STATES (states_of h rg')) then Inr () else Inl System_error,
        st\<lparr>lib := fold (perform E) (enter_marks h n rg') (lib st)\<rparr>) \<and>
    Region_exit rg' st = Some (st\<lparr>lib := perform E (Mark_end (c_string n)) (lib st)\<rparr>)"
proof -
  obtain n where n: "rg_name rg' = Some n" using Region_init_ok(1) [OF assms(1)] by blast
  have e: "states_of (heap st) rg' = states_of h rg'" "enter_marks (heap st) n rg' = enter_marks h n rg'"
    using assms(2) by (auto simp: states_of_def extras_of_def enter_marks_def split: option.split)
  have "lists_ok (heap st) rg'" using Region_init_ok(2) [OF assms(1)] assms(2) by (auto simp: lists_ok_def)
  from Region_enter_marks [OF n this, of E] show ?thesis unfolding e by (simp add: n Region_exit_def)
qed

definition blank_region :: region_obj where
  "blank_region = \<lparr>rg_name = None, rg_states = None, rg_extra = None\<rparr>"

definition demo_lists :: "nat \<Rightarrow> py list" where
  "demo_lists l = (if l = 0 then [Tuple [Bytes ''n'', Long (2 ^ 70)]] else [])"

theorem region_calls_witness:
  "\<exists>st'. Region_enter \<lparr>late = False, start_code = None\<rparr> (snd (Region_init demo_lists [Bytes ''r'', Lst 0] blank_region))
      \<lparr>lib = fresh_lib\<lparr>under_dr := True\<rparr>, heap = demo_lists\<rparr> = Some (Inl System_error, st') \<and>
    seen (lib st') = [Mark_begin ''r'' ''n'' (-1)]"
proof -
  let ?E = "\<lparr>late = False, start_code = None\<rparr>" and ?st = "\<lparr>lib = fresh_lib\<lparr>under_dr := True\<rparr>, heap = demo_lists\<rparr>"
  define rg where "rg = \<lparr>rg_name = Some ''r'', rg_states = Some 0, rg_extra = None\<rparr>"
  have i: "Region_init demo_lists [Bytes ''r'', Lst 0] blank_region = (Inr (), rg)"
    by (simp add: Region_init_def rg_def blank_region_def optional_list_def demo_lists_def)
  obtain n where R: "rg_name rg = Some n" "Region_enter ?E rg ?st =
      Some (if list_all (\<lambda>s. fits64 (snd s)) (take MAX_KEY_STATES (states_of demo_lists rg)) then Inr () else Inl System_error,
        ?st\<lparr>lib := fold (perform ?E) (enter_marks demo_lists n rg) (lib ?st)\<rparr>)"
    using region_calls [OF i, of ?st ?E] by auto
  have "states_of demo_lists rg = [(''n'', 2 ^ 70)]" "extras_of demo_lists rg = []"
    by (simp_all add: rg_def states_of_def extras_of_def demo_lists_def c_string_def)
  moreover have "n = ''r''" using R(1) by (simp add: rg_def)
  ultimately have "Region_enter ?E rg ?st = Some (Inl System_error, ?st\<lparr>lib := fold (perform ?E) [Mark_begin ''r'' ''n'' (-1)] (lib ?st)\<rparr>)"
    using R(2) by (simp add: MAX_KEY_STATES_def fits64_def enter_marks_def begin_mark_def clamp64_def c_string_def)
  then show ?thesis
    by (simp add: i perfmark_begin_def begin_marker.simps entered_def late_attach_def fresh_lib_def Let_def)
qed

text \<open>C32. What a \<open>Region\<close> opens in the client: the begin that entering it calls is handled as an opening of
  the region's name with its first four states as the key, in the order of the list, and one state
  overflow when the list is longer.\<close>

theorem python_key:
  assumes "Region_init h args rg = (Inr (), rg')"
  shows "\<exists>n. rg_name rg' = Some n \<and>
    handle A w (mark_event i now (hd (enter_marks h n rg'))) =
      begin_common A i (Some (c_string n))
        (if states_of h rg' = [] then [([], 0)] else map (apsnd clamp64) (take KEY_STATES (states_of h rg'))) now
        (if KEY_STATES < length (states_of h rg') then w\<lparr>state_overflows := state_overflows w + 1\<rparr> else w)"
  using Region_init_ok(1) [OF assms] by (auto simp: enter_marks_def begin_mark_handled)

theorem python_key_witness:
  "handle assoc_api demo1 (mark_event 0 7 (Mark_begin ''r'' ''n'' (-1))) = begin_common assoc_api 0 (Some ''r'') [(''n'', -1)] 7 demo1"
proof -
  let ?rg = "\<lparr>rg_name = Some ''r'', rg_states = Some 0, rg_extra = None\<rparr>"
  have i: "Region_init demo_lists [Bytes ''r'', Lst 0] blank_region = (Inr (), ?rg)"
    by (simp add: Region_init_def blank_region_def optional_list_def demo_lists_def)
  have s: "states_of demo_lists ?rg = [(''n'', 2 ^ 70)]"
    by (simp add: states_of_def demo_lists_def c_string_def)
  from python_key [OF i, of assoc_api demo1 0 7] show ?thesis
    by (simp only: s enter_marks_def begin_mark_def list.sel)
      (simp add: KEY_STATES_def clamp64_def fits64_def c_string_def del: handle.simps)
qed

section \<open>The playground\<close>

text \<open>C33. With \<open>reqs\<close> not negative, at least one line per batch, one per round, one word in the table and lines of 32 bytes or
  more, the main loop returns, for every number of workers and every order of their turns, with
  every line ingested and handled.\<close>

theorem playground_ends:
  assumes "config_ok c"
  shows "\<exists>l. playground c sched qm om = Some l \<and> produced l = reqs c \<and>
    qhead (sys_state l) = reqs c \<and> qtail (sys_state l) = reqs c \<and> out_bytes (sys_state l) = 0"
proof -
  obtain l where l: "playground c sched qm om = Some l" "loop_ok c l" "\<not> busy c l"
    using playground_run [OF assms] by blast
  have "out_bytes (sys_state l) = 0" using l(2) by (simp add: loop_ok_def)
  with l(1) idle_done [OF l(2,3)] show ?thesis by blast
qed

definition small :: config where
  "small = \<lparr>reqs = 5, batch = 2, pop_cap = 2, threads_arg = 2, len_arg = 32, entries_arg = 3\<rparr>"

lemma small_ok: "config_ok small"
  by (simp add: small_def config_ok_def sizes_ok_def)

lemma small_reqs: "reqs small = 5"
  by (simp add: small_def)

theorem playground_ends_witness: "\<exists>l. playground small (\<lambda>_. [1, 0]) nothing nothing = Some l \<and> produced l = 5"
  using playground_ends [OF small_ok, of "\<lambda>_. [1, 0]" nothing nothing] by (metis small_reqs)

text \<open>C34. With \<open>reqs\<close> not negative, at least one line per batch, one per round, one word in the table and lines of 32 bytes
  or more, the program computes what the abstract FIFO computes: no ring buffer, no workers, no order of
  turns and no first contents of the buffers, so none of these has an influence on the lines, the
  rounds or the checksum. (Lines shorter than a word would bring in bytes that were never written.)\<close>

theorem playground_is_fifo:
  assumes "config_ok c"
  shows "map_option abs_loop (playground c sched qm om) = fifo_loop c (fifo_start c)"
proof -
  obtain l where "playground c sched qm om = Some l" "fifo_loop c (fifo_start c) = Some (abs_loop l)"
    using playground_run [OF assms] by blast
  then show ?thesis by simp
qed

theorem playground_is_fifo_witness:
  "map_option abs_loop (playground small (\<lambda>_. [1, 0]) nothing nothing) =
   map_option abs_loop (playground small (\<lambda>_. []) (\<lambda>_. 7) nothing)"
  by (simp only: playground_is_fifo [OF small_ok])

text \<open>C35. In every run with such arguments each \<open>handle\<close> declares as \<open>inflight\<close> the sum of all \<open>ingest.batch\<close> before it less the
  sum of all \<open>handle.q\<close> before it, as 64-bit values; in the end both sums are the number of lines.\<close>

theorem queue_invariant:
  assumes "config_ok c" and "playground c sched qm om = Some l"
  shows "queue_law 0 (marks (sys_state l)) \<and>
    field_total ''ingest'' ''batch'' (marks (sys_state l)) = of_int (reqs c) \<and>
    field_total ''handle'' ''q'' (marks (sys_state l)) = of_int (reqs c)"
proof -
  have l: "loop_ok c l" "marks_ok l" "\<not> busy c l"
    using playground_run [OF assms(1), of sched qm om] assms(2) by (metis option.inject)+
  from l(2) idle_done [OF l(1,3)] show ?thesis by (simp add: marks_ok_def Let_def)
qed

theorem queue_invariant_witness:
  "\<exists>l. playground small (\<lambda>_. []) nothing nothing = Some l \<and> queue_law 0 (marks (sys_state l)) \<and>
     field_total ''handle'' ''q'' (marks (sys_state l)) = 5"
proof -
  obtain l where l: "playground small (\<lambda>_. []) nothing nothing = Some l"
    using playground_run [OF small_ok] by blast
  moreover have "of_int (reqs small) = (5 :: i64)" by (simp add: small_reqs)
  ultimately show ?thesis using queue_invariant [OF small_ok l] by simp
qed

text \<open>The workers of a round do every line of it once, in whatever order they take turns: the checksum
  grows by the worth of the round's lines, every line finds room in the output, and nothing else of
  the system changes but the marks of \<open>parse\<close>.\<close>

theorem round_any_order:
  assumes "config_ok c" and "sys_ok c st" and "0 \<le> a" and "a + q \<le> reqs c" and "0 < q" and "q \<le> pop_cap c"
    and "out_bytes st = 0" and "1 < w"
  shows "\<exists>st'. run_jobs (make_jobs w ((q + w - 1) sdiv w) (a + q) 0 a) order st = Some st' \<and>
    checksum st' = checksum st + (\<Sum>x<nat q. value_at st (a + int x)) \<and>
    out_bytes st' = (\<Sum>x<nat q. space_at st (a + int x)) \<and> rest_sys st' = rest_sys st \<and>
    worker 0 \<lparr>j_first = a, j_count = q\<rparr> st \<noteq> None"
  using workers_worked [OF assms(1-7), of w order] workers_worked [OF assms(1-7), of 1 order] assms(7,8)
  by (auto simp: worked_def)

text \<open>The jobs handed to the threads cover the lines of the round exactly once and in order; none is
  empty, and there are at most as many as threads, so that they fit the arrays of 64.\<close>

theorem jobs_cover_round:
  assumes "1 < w" and "w \<le> 64" and "0 < q"
  shows "concat (map job_lines (make_jobs w ((q + w - 1) sdiv w) (a + q) 0 a)) = [a..a + q - 1] \<and>
    list_all (\<lambda>j. 1 \<le> j_count j) (make_jobs w ((q + w - 1) sdiv w) (a + q) 0 a) \<and>
    length (make_jobs w ((q + w - 1) sdiv w) (a + q) 0 a) \<le> 64"
  using make_jobs_lines [OF jobs_cover(1) [OF assms(1,3)], of "a + q" a w 0] jobs_cover(2) [OF assms(1,3)]
    make_jobs_range [OF jobs_cover(1) [OF assms(1,3)], of a "a + q" w 0]
    length_make_jobs [of w "(q + w - 1) sdiv w" "a + q" 0 a] assms(1,2)
  by (auto simp: list_all_iff)

text \<open>With \<open>cap=0\<close> the program never ends: every number of turns is possible, the loop is still
  busy after each, and no run returns.\<close>

theorem no_room_never_ends:
  assumes "sizes_ok c" and "pop_cap c = 0" and "0 < reqs c"
  shows "(\<forall>k. \<exists>l. after_turns c sched k (start_loop c qm om) = Some l \<and> busy c l) \<and> playground c sched qm om = None"
proof -
  have r: "0 \<le> reqs c" using assms(3) by simp
  have h: "qhead (sys_state (start_loop c qm om)) = 0"
    by (simp add: start_loop_def start_system_buffers table_fields)
  have b: "\<exists>l. after_turns c sched k (start_loop c qm om) = Some l \<and> busy c l" for k
    using no_room_turns [OF assms(1,2) start_loop_ok(1) [OF r] h, of sched k] no_room_busy [OF assms(3)] by blast
  have "playground c sched qm om \<noteq> Some l" for l
    using b main_loop_turns [of c sched "start_loop c qm om" l] unfolding playground_loop by (metis option.inject)
  with b show ?thesis by blast
qed

theorem no_room_never_ends_witness: "playground (small\<lparr>pop_cap := 0\<rparr>) (\<lambda>_. []) nothing nothing = None"
  using no_room_never_ends [of "small\<lparr>pop_cap := 0\<rparr>"] by (simp add: small_def sizes_ok_def)

text \<open>With \<open>len\<close> between 28 and 31 every fourth line has seven bytes, and the worker that comes to one
  divides by zero.\<close>

theorem short_line_divides:
  assumes "sys_ok c st" and "28 \<le> len_arg c" and "len_arg c < 32" and "0 \<le> x" and "x < reqs c + 4 * batch c"
    and "x mod 4 = 0" and "j_first j + int i = x"
  shows "line_len (len_arg c) x = int WORD \<and> work t j i st = None"
  using short_line_traps [OF assms] assms(2-4,6) by (simp add: line_len_def sdiv_nonneg smod_nonneg WORD_def)

theorem short_line_divides_witness:
  "work 0 \<lparr>j_first = 3, j_count = 5\<rparr> 1 (table (small\<lparr>len_arg := 28\<rparr>)) = None"
  using short_line_divides [of "small\<lparr>len_arg := 28\<rparr>" "table (small\<lparr>len_arg := 28\<rparr>)" 4 "\<lparr>j_first = 3, j_count = 5\<rparr>" 1 0]
  by (simp add: small_def)

section \<open>The queue of two threads\<close>

text \<open>C36. In every state that the two threads can reach, spurious wake-ups included, each \<open>consume\<close> has
  declared as \<open>q\<close> the sum of all \<open>produce.m\<close> before it less the sum of all \<open>consume.q\<close> before it,
  and while a \<open>consume\<close> runs the producer is waiting, so that no \<open>produce\<close> is open.\<close>

theorem handoff_relation:
  assumes "reachable R s"
  shows "cum_law (''produce'', ''m'') (''consume'', ''q'') ''q'' 0 (calls s) \<and>
    (consuming s \<longrightarrow> ppc s = P_wait \<and> field_total ''produce'' ''m'' (calls s) = of_int (tail s))"
proof -
  have inv: "turn_ok s" "calls_ok s" using reachable_inv [OF assms] by (simp_all add: handoff_inv_def)
  have "ppc s = P_wait" if "consuming s" using turn_consumer(1) [OF inv(1)] that by (auto simp: consuming_def)
  then show ?thesis using inv(2) by (auto simp: calls_ok_def relation_def)
qed

definition first_consume :: handoff where
  "first_consume = the (run_threads 1 [True, True, True, True, True, True, True, False, False, False] start_handoff)"

lemma first_consume_run:
  "run_threads 1 [True, True, True, True, True, True, True, False, False, False] start_handoff = Some first_consume"
  "consuming first_consume" "tail first_consume = 5"
  by (simp_all add: first_consume_def start_handoff_def step_defs amount_def consuming_def)

theorem handoff_relation_witness: "ppc first_consume = P_wait \<and> field_total ''produce'' ''m'' (calls first_consume) = 5"
  using handoff_relation [OF run_threads_reachable [OF begins first_consume_run(1)]] first_consume_run(2,3) by simp

text \<open>C37. The two threads never block each other for good and always end: in every state that can be
  reached one of them can move or both have returned, there is no endless sequence of their steps,
  and once both have returned everything produced has been consumed.\<close>

theorem handoff_ends:
  assumes "reachable R s"
  shows "(final s \<or> (\<exists>s'. own_step R s s')) \<and> (\<nexists>f. f 0 = s \<and> (\<forall>n. own_step R (f n) (f (Suc n)))) \<and>
    (final s \<longrightarrow> head s = made (max 0 R) \<and> tail s = made (max 0 R))"
proof -
  note inv = reachable_inv [OF assms]
  have "final s \<or> (\<exists>s'. own_step R s s')"
    using not_stuck [OF inv] by (cases "producer R s"; cases "consumer s") (auto intro: own_step.intros)
  then show ?thesis using no_endless_run [OF assms] final_all [OF inv] by blast
qed

theorem handoff_ends_witness: "\<exists>s'. own_step 1 first_consume s'"
proof -
  have "\<not> final first_consume" using first_consume_run(2) by (auto simp: consuming_def final_def)
  with handoff_ends [OF run_threads_reachable [OF begins first_consume_run(1)]] show ?thesis by blast
qed

section \<open>The workloads\<close>

text \<open>C38. In every state that the producer and the consumer of the C++ queue can reach, spurious wake-ups
  included, each \<open>consume\<close> has declared as \<open>q\<close> the sum of all \<open>produce.m\<close> before it less the sum of
  all \<open>consume.q\<close> before it. The threads end: there is no endless sequence of their steps, and when
  neither can move both have returned, after all rounds and with the queue empty.\<close>

theorem cpp_queue:
  assumes "duet_reachable R s"
  shows "cum_law (''produce'', ''m'') (''consume'', ''q'') ''q'' 0 (dcalls s) \<and>
    (\<nexists>f. f 0 = s \<and> (\<forall>n. duet_step R (f n) (f (Suc n)))) \<and>
    (main_step R s = None \<and> consumer_step s = None \<longrightarrow>
       mpc s = M_end \<and> k_returned s \<and> rnd_no s = max 0 R \<and> dq s = [])"
proof -
  note inv = duet_reachable_inv [OF assms]
  have "mpc s = M_end \<Longrightarrow> rnd_no s = max 0 R"
    using inv duet_rounds [OF assms] by (auto simp: duet_inv_def duet_turns_def)
  then show ?thesis
    using inv duet_no_endless_run [OF assms] duet_not_stuck [OF inv] by (auto simp: duet_inv_def duet_calls_def)
qed

definition one_round :: duet where
  "one_round = the (main_step 1 start_duet)"

lemma one_round_reached: "duet_reachable 1 one_round" "consumer_step one_round \<noteq> None" "length (dcalls one_round) = 2"
proof -
  have "main_step 1 start_duet = Some one_round"
    by (simp add: one_round_def main_step_def start_duet_def Let_def)
  then show "duet_reachable 1 one_round" by (blast intro: first next_step main_moves)
  show "consumer_step one_round \<noteq> None" "length (dcalls one_round) = 2"
    by (simp_all add: one_round_def main_step_def start_duet_def notify_all_def round_bursts_def produce_burst_def Let_def consumer_step_def)
qed

theorem cpp_queue_witness:
  "length (dcalls one_round) = 2 \<and> (\<nexists>f. f 0 = one_round \<and> (\<forall>n. duet_step 1 (f n) (f (Suc n))))"
  using cpp_queue [OF one_round_reached(1)] one_round_reached(3) by blast

text \<open>C39. In any run, with names that fit and hold no separator, in which the threads make the marker calls
  of a workload and no others, in whatever order they take turns, and whatever else happens (threads start and exit, blocks are built
  and executed, modules are loaded), the client has no region open behind them and has met no end
  without its begin and no begin beyond the depth limit: for every program of \<open>workload\<close>. After
  \<open>ctest\<close> it has one unmatched end and no region open, the one that is never ended included.\<close>

theorem workloads_nesting:
  assumes "ran A oc main es w" and "snprintf_laws A" and "list_all event_clean es" and "plays es is"
  shows "(workload is \<longrightarrow> nest_of w = (\<lambda>_. [], 0, 0)) \<and>
    (\<forall>as p. ctest_main as = Some p \<and> is = map (Pair 0) (fst p) \<longrightarrow> nest_of w = (\<lambda>_. [], 1, 0))"
  using steady_nest [OF assms workload_steady] ran_said [OF assms(1-3), of 1 0] ctest_nest assms(4)
  by (auto simp: plays_def)

text \<open>Two workers of \<open>cmarkers\<close> that take turns, and exit.\<close>

definition two_markers :: "(nat \<times> item) list" where
  "two_markers = forked 1 [0, 1, 1, 0] [cm_worker 1, cm_worker 1]"

definition two_events :: "event list" where
  "two_events = Thread_init 2 # Thread_init 3 # mark_events 7 two_markers @ [Thread_exit 2 9, Thread_exit 1 9]"

lemma two_markers_all: "two_markers = (let l = looped ''body'' (define_loop (+) 20) in
    [(1, perf_begin ''body'' [] 0), (2, perf_begin ''body'' [] 0), (2, l), (1, l), (1, perf_end ''body''), (2, perf_end ''body'')])"
  by (simp add: two_markers_def forked_def cm_worker_def Let_def)

lemma two_markers_workload: "workload two_markers"
proof -
  have "arg [''threads=2'', ''n=1''] ''threads'' 1 = 2" "arg [''threads=2'', ''n=1''] ''n'' 100000 = 1"
    by (simp_all add: atol_def digits_value_def is_space_def is_digit_def)
  then have "cm_main [''threads=2'', ''n=1''] [0, 1, 1, 0] = Some two_markers"
    by (simp add: cm_main_def as_int_def two_markers_def upto_0_2)
  then show ?thesis by (rule cmarkers)
qed

lemma two_events_run: "\<exists>w. ran assoc_api demo_options 0 (Thread_init 1 # two_events) w"
proof -
  have "lives demo1 = [True]" by (simp add: lives_def demo1_def new_thread_def)
  moreover have "playable [True] two_events" "length two_events \<le> 8"
    by (simp_all add: two_events_def two_markers_all Let_def perf_begin_def perf_end_def looped_def)
  moreover have "8 \<le> keys_left demo1" by (simp add: demo1_def new_thread_def keys_left_def MAX_KEYS_def demo_def init_world_def)
  ultimately show ?thesis using playable_ran [OF demo1_ran assoc_allocs, of two_events] by simp
qed

theorem workloads_nesting_witness:
  "\<exists>w. ran assoc_api demo_options 0 (Thread_init 1 # two_events) w \<and> workload two_markers \<and>
     plays (Thread_init 1 # two_events) two_markers \<and> nest_of w = (\<lambda>_. [], 0, 0)"
proof -
  obtain w where w: "ran assoc_api demo_options 0 (Thread_init 1 # two_events) w" using two_events_run by blast
  have p: "plays (Thread_init 1 # two_events) two_markers" by (simp add: plays_def two_events_def said_marks)
  have "list_all event_clean (Thread_init 1 # two_events)"
    by (simp add: two_events_def two_markers_all Let_def perf_begin_def perf_end_def looped_def
        region_name_def clean_name_def fits_def nul_free_def sep_free_def key_limits)
  from workloads_nesting [OF w assoc_api_laws(3) this p] w p two_markers_workload show ?thesis by blast
qed



text \<open>The head of \<open>c4_undeclared.cpp\<close> says that \<open>m\<close> is \<open>1100 - n\<close> for the multiples of 100; from \<open>n = 1100\<close> on it
  is not.\<close>

theorem hidden_head: "100 dvd n \<Longrightarrow> 0 < n \<Longrightarrow> n \<le> 1000 \<Longrightarrow> hidden_m n = 1100 - n" and "hidden_m 1100 = 1000"
  by (simp_all add: hidden_line hidden_line_ends)

end
